(* ===== verification/Prelude.thy ===== *)
theory Prelude
  imports Main "HOL-Library.Word" "HOL-Library.Monad_Syntax"
begin

text \<open>
  What the components of the development share: the fixed-width integers of Go, byte slices
  with the panics of an out-of-range index or slice written out, the big- and little-endian
  codecs of \<^verbatim>\<open>encoding/binary\<close>, and the one's complement arithmetic behind Internet checksums.

  A Go computation that may panic has the type \<open>'a option\<close>: \<open>None\<close> is the panic. An
  \<^verbatim>\<open>error\<close> result is an ordinary value (of \<open>'e option\<close> or of a sum), since the caller goes
  on after it. A slice is modelled as the list of its elements, with capacity equal to length.
\<close>

unbundle bit_operations_syntax

named_theorems slice_simps \<open>unfolding of the slice primitives\<close>
named_theorems codec_simps \<open>round trips of the byte codecs\<close>

subsection \<open>Types\<close>

type_synonym u8 = "8 word"
type_synonym u16 = "16 word"
type_synonym u32 = "32 word"
type_synonym u64 = "64 word"
type_synonym bytes = "u8 list"

lemma unat_u8 [simp]: "unat (x :: u8) < 256"
  using unsigned_less [of x, where 'a = nat] by simp

lemma unat_u16 [simp]: "unat (x :: u16) < 65536"
  using unsigned_less [of x, where 'a = nat] by simp

lemma unat_u16_le [simp]: "unat (x :: u16) \<le> 65535"
  using unat_u16 [of x] by linarith

lemma unat_of_nat_u8 [simp]: "n < 256 \<Longrightarrow> unat (of_nat n :: u8) = n"
  by (simp add: unat_of_nat)

lemma unat_of_nat_u16 [simp]: "n < 65536 \<Longrightarrow> unat (of_nat n :: u16) = n"
  by (simp add: unat_of_nat)

lemma unat_of_nat_u32 [simp]: "n < 4294967296 \<Longrightarrow> unat (of_nat n :: u32) = n"
  by (simp add: unat_of_nat)

lemma unat_ucast_u8_u32 [simp]: "unat (ucast (a :: u8) :: u32) = unat a"
proof -
  have "unat a < 2 ^ 32" using unat_u8 [of a] by (rule less_trans) simp
  then show ?thesis by (simp only: unsigned_ucast_eq) (simp add: take_bit_nat_eq_self)
qed

lemma unat_ucast_u16_u32 [simp]: "unat (ucast (a :: u16) :: u32) = unat a"
proof -
  have "unat a < 2 ^ 32" using unat_u16 [of a] by (rule less_trans) simp
  then show ?thesis by (simp only: unsigned_ucast_eq) (simp add: take_bit_nat_eq_self)
qed

lemma unat_not_u16: "unat (NOT (x :: u16)) = 65535 - unat x"
proof -
  have "NOT x = (of_nat (65535 - unat x) :: u16)"
    by (simp add: not_eq_complement of_nat_diff)
  then show ?thesis by (simp only:) (rule unat_of_nat_u16, simp)
qed

subsection \<open>Sequencing\<close>

text \<open>Evaluates a sequence of writes in program order: the rest of the block waits for the write.\<close>

lemma bind_weak_cong: "m = m' \<Longrightarrow> Option.bind m f = Option.bind m' f"
  by simp

lemma mod_add_cancel: "((k :: nat) + a) mod m = (k + b) mod m \<longleftrightarrow> a mod m = b mod m"
proof -
  have "(int k + int a) mod int m = (int k + int b) mod int m \<longleftrightarrow> int a mod int m = int b mod int m"
    by (simp add: mod_eq_dvd_iff)
  then show ?thesis by (metis of_nat_add of_nat_eq_iff of_nat_mod)
qed

lemma dvd_sum_cancel:
  assumes "(m :: nat) dvd b + k"
  shows "m dvd a + k \<longleftrightarrow> a mod m = b mod m"
  using assms mod_add_cancel [of k a m b] by (simp add: dvd_eq_mod_eq_0 add.commute)

subsection \<open>Slices\<close>

definition get8 :: "bytes \<Rightarrow> nat \<Rightarrow> u8 option" where
  \<comment> \<open>\<^verbatim>\<open>b[i]\<close>\<close>
  [slice_simps]: "get8 b i = (if i < length b then Some (b ! i) else None)"

definition put8 :: "bytes \<Rightarrow> nat \<Rightarrow> u8 \<Rightarrow> bytes option" where
  \<comment> \<open>\<^verbatim>\<open>b[i] = v\<close>\<close>
  [slice_simps]: "put8 b i v = (if i < length b then Some (b[i := v]) else None)"

definition slice :: "'a list \<Rightarrow> nat \<Rightarrow> nat \<Rightarrow> 'a list option" where
  \<comment> \<open>\<^verbatim>\<open>b[lo:hi]\<close>\<close>
  [slice_simps]: "slice b lo hi =
     (if lo \<le> hi \<and> hi \<le> length b then Some (take (hi - lo) (drop lo b)) else None)"

definition slice_from :: "'a list \<Rightarrow> nat \<Rightarrow> 'a list option" where
  \<comment> \<open>\<^verbatim>\<open>b[lo:]\<close>\<close>
  [slice_simps]: "slice_from b lo = (if lo \<le> length b then Some (drop lo b) else None)"

definition overlay :: "'a list \<Rightarrow> nat \<Rightarrow> 'a list \<Rightarrow> 'a list" where
  \<comment> \<open>the list with the elements from \<open>i\<close> on overwritten by \<open>src\<close>, as far as it reaches\<close>
  "overlay b i src = take i b @ take (length b - i) src @ drop (i + length src) b"

definition copy_at :: "bytes \<Rightarrow> nat \<Rightarrow> nat \<Rightarrow> bytes \<Rightarrow> bytes option" where
  \<comment> \<open>\<^verbatim>\<open>copy(b[lo:hi], src)\<close>: writes \<^verbatim>\<open>min(hi-lo, len(src))\<close> elements\<close>
  [slice_simps]: "copy_at b lo hi src =
     (if lo \<le> hi \<and> hi \<le> length b then Some (overlay b lo (take (hi - lo) src)) else None)"

lemma length_overlay [simp]: "length (overlay b i src) = length b"
  by (auto simp: overlay_def min_def)

lemma overlay_append:
  "length a = i \<Longrightarrow> length m = length src \<Longrightarrow> overlay (a @ m @ z) i src = a @ src @ z"
  by (simp add: overlay_def)

lemma overlay_0_append:
  "length m = length src \<Longrightarrow> overlay (m @ z) 0 src = src @ z"
  using overlay_append [of "[]" 0 m src z] by simp

lemma overlay_Cons_Suc: "overlay (x # b) (Suc i) src = x # overlay b i src"
  by (simp add: overlay_def)

lemma overlay_Cons_0: "overlay (x # b) 0 (s # src) = s # overlay b 0 src"
  by (simp add: overlay_def)

lemma overlay_Cons_numeral: "overlay (x # b) (numeral n) src = x # overlay b (pred_numeral n) src"
  by (simp add: numeral_eq_Suc overlay_Cons_Suc)

lemma overlay_Cons_1: "overlay (x # b) 1 src = x # overlay b 0 src"
  by (simp add: overlay_Cons_Suc)

lemma overlay_0: "length src \<le> length b \<Longrightarrow> overlay b 0 src = src @ drop (length src) b"
  by (simp add: overlay_def)

lemma overlay_append_skip: "length a \<le> i \<Longrightarrow> overlay (a @ b) i src = a @ overlay b (i - length a) src"
  by (simp add: overlay_def add.commute)

lemmas overlay_simps = overlay_append_skip overlay_Cons_numeral overlay_Cons_1 overlay_Cons_Suc overlay_0

lemma overlay_Nil [simp]: "overlay b i [] = b"
  by (simp add: overlay_def)

lemma list_update_overlay: "i < length b \<Longrightarrow> b[i := v] = overlay b i [v]"
  by (simp add: overlay_def upd_conv_take_nth_drop Suc_diff_Suc)

lemma nth_overlay:
  "j < length b \<Longrightarrow> overlay b i x ! j = (if i \<le> j \<and> j < i + length x then x ! (j - i) else b ! j)"
  by (auto simp: overlay_def nth_append)

lemma take_overlay_low: "k \<le> i \<Longrightarrow> take k (overlay b i x) = take k b"
  by (rule nth_equalityI) (auto simp: nth_overlay)

lemma take_overlay_high: "i + length x \<le> k \<Longrightarrow> take k (overlay b i x) = overlay (take k b) i x"
  by (rule nth_equalityI) (auto simp: nth_overlay)

lemma drop_overlay_high: "i + length x \<le> k \<Longrightarrow> drop k (overlay b i x) = drop k b"
  by (rule nth_equalityI) (auto simp: nth_overlay)

lemma drop_overlay_low: "k \<le> i \<Longrightarrow> drop k (overlay b i x) = overlay (drop k b) (i - k) x"
  by (rule nth_equalityI) (auto simp: nth_overlay less_diff_conv intro!: arg_cong [of _ _ "nth x"])

lemma overlay_commute:
  "i + length x \<le> j \<Longrightarrow> overlay (overlay b i x) j y = overlay (overlay b j y) i x"
  by (rule nth_equalityI) (auto simp: nth_overlay)

lemma drop_Suc_numerals: "drop (Suc (Suc 0)) xs = drop 2 xs" "drop (Suc (Suc (Suc (Suc 0)))) xs = drop 4 xs"
  by (simp_all add: eval_nat_numeral)

lemma list_split3: "b = take i b @ take n (drop i b) @ drop (i + n) b"
  by (metis add.commute append_take_drop_id drop_drop)

subsection \<open>Big- and little-endian codecs\<close>

primrec be_rev :: "bytes \<Rightarrow> nat" where
  "be_rev [] = 0"
| "be_rev (b # bs) = unat b + 256 * be_rev bs"

definition be_val :: "bytes \<Rightarrow> nat" where
  "be_val bs = be_rev (rev bs)"

primrec le_bytes :: "nat \<Rightarrow> nat \<Rightarrow> bytes" where
  "le_bytes 0 v = []"
| "le_bytes (Suc n) v = of_nat (v mod 256) # le_bytes n (v div 256)"

definition be_bytes :: "nat \<Rightarrow> nat \<Rightarrow> bytes" where
  "be_bytes n v = rev (le_bytes n v)"

lemma length_le_bytes [simp]: "length (le_bytes n v) = n"
  by (induction n arbitrary: v) auto

lemma length_be_bytes [simp]: "length (be_bytes n v) = n"
  by (simp add: be_bytes_def)

lemma be_rev_le_bytes [codec_simps]: "be_rev (le_bytes n v) = v mod 256 ^ n"
proof (induction n arbitrary: v)
  case (Suc n)
  have "v mod (256 * 256 ^ n) = 256 * (v div 256 mod 256 ^ n) + v mod 256"
    by (rule mod_mult2_eq)
  with Suc show ?case by simp
qed simp

lemma be_rev_bound: "be_rev bs < 256 ^ length bs"
proof (induction bs)
  case (Cons b bs)
  have "unat b < 256" by simp
  moreover have "Suc (be_rev bs) \<le> 256 ^ length bs" using Cons by simp
  then have "256 * Suc (be_rev bs) \<le> 256 * 256 ^ length bs" by (rule mult_le_mono2)
  ultimately show ?case by (simp del: unat_u8)
qed simp

lemma le_bytes_be_rev [codec_simps]: "le_bytes (length bs) (be_rev bs) = bs"
  by (induction bs) simp_all

lemma be_val_be_bytes [codec_simps]: "be_val (be_bytes n v) = v mod 256 ^ n"
  by (simp add: be_val_def be_bytes_def be_rev_le_bytes)

lemma be_bytes_be_val [codec_simps]: "length bs = n \<Longrightarrow> be_bytes n (be_val bs) = bs"
  using le_bytes_be_rev [of "rev bs"] by (auto simp: be_val_def be_bytes_def)

lemma be_val_bound: "be_val bs < 256 ^ length bs"
  using be_rev_bound [of "rev bs"] by (simp add: be_val_def)

lemma be_val_2 [simp]: "be_val [a, b] = 256 * unat a + unat b"
  by (simp add: be_val_def)

lemma be_bytes_2: "be_bytes 2 v = [of_nat (v div 256 mod 256), of_nat (v mod 256)]"
  by (simp add: be_bytes_def numeral_2_eq_2)

definition get16 :: "bytes \<Rightarrow> nat \<Rightarrow> u16 option" where
  \<comment> \<open>\<^verbatim>\<open>binary.BigEndian.Uint16(b[i:i+2])\<close>\<close>
  "get16 b i = (slice b i (i + 2) \<bind> (\<lambda>s. Some (of_nat (be_val s))))"

definition put16 :: "bytes \<Rightarrow> nat \<Rightarrow> u16 \<Rightarrow> bytes option" where
  \<comment> \<open>\<^verbatim>\<open>binary.BigEndian.PutUint16(b[i:i+2], v)\<close>\<close>
  "put16 b i v = copy_at b i (i + 2) (be_bytes 2 (unat v))"

definition put32 :: "bytes \<Rightarrow> nat \<Rightarrow> u32 \<Rightarrow> bytes option" where
  \<comment> \<open>\<^verbatim>\<open>binary.BigEndian.PutUint32(b[i:i+4], v)\<close>\<close>
  "put32 b i v = copy_at b i (i + 4) (be_bytes 4 (unat v))"

lemma put8_some [simp]: "i < length b \<Longrightarrow> put8 b i v = Some (overlay b i [v])"
  by (simp add: put8_def list_update_overlay)

lemma get8_some [simp]: "i < length b \<Longrightarrow> get8 b i = Some (b ! i)"
  by (simp add: get8_def)

lemma copy_at_some [simp]:
  "lo \<le> hi \<Longrightarrow> hi \<le> length b \<Longrightarrow> length src = hi - lo \<Longrightarrow> copy_at b lo hi src = Some (overlay b lo src)"
  by (simp add: copy_at_def)

lemma put16_some [simp]: "i + 2 \<le> length b \<Longrightarrow> put16 b i v = Some (overlay b i (be_bytes 2 (unat v)))"
  by (simp add: put16_def)

lemma put32_some [simp]: "i + 4 \<le> length b \<Longrightarrow> put32 b i v = Some (overlay b i (be_bytes 4 (unat v)))"
  by (simp add: put32_def)

lemma get16_some:
  "i + 2 \<le> length b \<Longrightarrow> get16 b i = Some (of_nat (256 * unat (b ! i) + unat (b ! Suc i)))"
proof -
  assume a: "i + 2 \<le> length b"
  then have "take 2 (drop i b) = [b ! i, b ! Suc i]"
    by (simp add: numeral_2_eq_2 Cons_nth_drop_Suc [symmetric])
  with a show ?thesis by (simp add: get16_def slice_def)
qed

end
