(* ===== verification/Xsum.thy ===== *)
theory Xsum
  imports Prelude
begin

text \<open>
  Internet checksums of \<^verbatim>\<open>intra/core/wire\<close>: \<^verbatim>\<open>ip4Checksum\<close> (ip4.go), \<^verbatim>\<open>checksumBytes\<close> and
  \<^verbatim>\<open>checksumCombine\<close> (icmp6.go) and the incremental update \<^verbatim>\<open>updateV4Checksum\<close> (xsum.go), each
  on the 32-bit accumulator of the code. The reference is the one's complement sum \<open>oc (sum16 b)\<close>
  over the naturals; the lemmas show that the accumulator never wraps on a packet-sized buffer,
  that each routine computes the reference, and when a receiver accepts the result.
\<close>

subsection \<open>Reference: sums of 16-bit words and their one's complement representative\<close>

fun sum16 :: "bytes \<Rightarrow> nat" where
  "sum16 (a # b # r) = 256 * unat a + unat b + sum16 r"
| "sum16 [a] = 256 * unat a"
| "sum16 [] = 0"

definition oc :: "nat \<Rightarrow> nat" where
  "oc n = (if n = 0 then 0 else Suc ((n - 1) mod 65535))"

lemma oc_le [simp]: "oc n \<le> 65535"
proof -
  have "(n - 1) mod 65535 < 65535" by simp
  then show ?thesis by (simp add: oc_def Suc_le_eq)
qed

lemma oc_small: "n \<le> 65535 \<Longrightarrow> oc n = n"
  by (auto simp: oc_def)

lemma oc_mod: "oc n mod 65535 = n mod 65535"
proof (cases n)
  case (Suc m)
  have "oc n = Suc (m mod 65535)" by (simp add: oc_def Suc)
  then show ?thesis using mod_Suc_eq [of m 65535] by (simp add: Suc)
qed (simp add: oc_def)

lemma oc_add_mult: "0 < n \<Longrightarrow> oc (65535 * q + n) = oc n"
proof -
  assume "0 < n"
  then obtain m where "n = Suc m" by (cases n) auto
  then show ?thesis by (simp add: oc_def)
qed

lemma oc_fold_step: "65536 \<le> n \<Longrightarrow> oc (n div 65536 + n mod 65536) = oc n"
proof -
  assume n: "65536 \<le> n"
  have "n = 65535 * (n div 65536) + (n div 65536 + n mod 65536)"
    using div_mult_mod_eq [of n 65536] by linarith
  moreover have "0 < n div 65536 + n mod 65536" using n by (simp add: div_greater_zero_iff)
  ultimately show ?thesis using oc_add_mult by metis
qed

lemma oc_idem_add: "oc (oc m + n) = oc (m + n)"
proof (cases "m = 0")
  case False
  have "m = 65535 * ((m - 1) div 65535) + oc m"
    using False div_mult_mod_eq [of "m - 1" 65535] by (simp add: oc_def)
  then have "m + n = 65535 * ((m - 1) div 65535) + (oc m + n)" by simp
  moreover have "0 < oc m + n" using False by (simp add: oc_def)
  ultimately show ?thesis using oc_add_mult by metis
qed (simp add: oc_def)

lemma oc_eq_max: "oc n = 65535 \<longleftrightarrow> 0 < n \<and> 65535 dvd n"
proof (cases n)
  case (Suc m)
  have "(m mod 65535 = 65534) = (65535 dvd Suc m)"
    by (simp add: dvd_eq_mod_eq_0 mod_Suc)
  then show ?thesis by (simp add: oc_def Suc)
qed (simp add: oc_def)

lemma sum16_le: "sum16 b \<le> 65535 * ((length b + 1) div 2)"
proof (induction b rule: sum16.induct)
  case (1 a b r)
  have "256 * unat a + unat b \<le> 65535"
    using unat_u8 [of a] unat_u8 [of b] by linarith
  with 1 show ?case by simp
next
  case (2 a)
  have "256 * unat a \<le> 65535" using unat_u8 [of a] by linarith
  then show ?case by simp
qed simp

lemma sum16_bound: "length b \<le> 131070 \<Longrightarrow> sum16 b \<le> 4294836225"
proof -
  assume "length b \<le> 131070"
  then have "(length b + 1) div 2 \<le> 65535" by simp
  then have "65535 * ((length b + 1) div 2) \<le> 65535 * 65535" by (rule mult_le_mono2)
  then show ?thesis using sum16_le [of b] by simp
qed

lemma sum16_append: "even (length a) \<Longrightarrow> sum16 (a @ b) = sum16 a + sum16 b"
  by (induction a rule: sum16.induct) auto

lemma sum16_be_bytes: "sum16 (be_bytes 2 v) = v mod 65536"
proof -
  have "256 * (v div 256 mod 256) + v mod 256 = v mod (256 * 256)"
    by (metis mod_mult2_eq)
  then show ?thesis by (simp add: be_bytes_2)
qed

lemma sum16_two: "length s = 2 \<Longrightarrow> sum16 s = be_val s"
  by (auto simp: numeral_2_eq_2 length_Suc_conv)

lemma sum16_overlay:
  assumes "even i" "even (length x)" "i + length x \<le> length b"
  shows "sum16 (overlay b i x) + sum16 (take (length x) (drop i b)) = sum16 b + sum16 x"
proof -
  have b: "b = take i b @ take (length x) (drop i b) @ drop (i + length x) b" by (rule list_split3)
  have o: "overlay b i x = take i b @ x @ drop (i + length x) b" using assms by (simp add: overlay_def)
  have "sum16 b = sum16 (take i b) + sum16 (take (length x) (drop i b)) + sum16 (drop (i + length x) b)"
    using assms by (subst b) (simp add: sum16_append)
  moreover have "sum16 (overlay b i x) = sum16 (take i b) + sum16 x + sum16 (drop (i + length x) b)"
    unfolding o using assms by (simp add: sum16_append)
  ultimately show ?thesis by simp
qed

lemma sum16_pos: "b \<noteq> [] \<Longrightarrow> b ! 0 \<noteq> 0 \<Longrightarrow> 0 < sum16 b"
  by (cases b rule: sum16.cases) (auto simp: unat_gt_0)

subsection \<open>The routines of the code\<close>

text \<open>The accumulation loop of \<^verbatim>\<open>ip4Checksum\<close>: 16-bit words, a last odd byte in the high half.\<close>

fun ip4_sum_loop :: "u32 \<Rightarrow> bytes \<Rightarrow> u32" where
  "ip4_sum_loop ac (a # b # r) = ip4_sum_loop (ac + of_nat (be_val [a, b])) r"
| "ip4_sum_loop ac [a] = ac + push_bit 8 (ucast a)"
| "ip4_sum_loop ac [] = ac"

text \<open>The carry loop \<^verbatim>\<open>for (ac >> 16) > 0\<close> shared by \<^verbatim>\<open>ip4Checksum\<close> and \<^verbatim>\<open>updateV4Checksum\<close>.\<close>

lemma unat_shift16: "unat (drop_bit 16 (x :: u32)) = unat x div 65536"
  by (simp add: unat_drop_bit_eq drop_bit_eq_div unat_div_distrib)

lemma unat_low16: "unat ((x :: u32) AND 0xffff) = unat x mod 65536"
proof -
  have "x AND 0xffff = take_bit 16 x"
    by (simp add: take_bit_eq_mask mask_eq_exp_minus_1)
  then show ?thesis by (simp add: unsigned_take_bit_eq take_bit_eq_mod unat_mod_distrib)
qed

lemma unat_u32 [simp]: "unat (x :: u32) < 4294967296"
  using unsigned_less [of x, where 'a = nat] by simp

lemma unat_carry_step:
  "unat (drop_bit 16 (x :: u32) + (x AND 0xffff)) = unat x div 65536 + unat x mod 65536"
proof -
  have "unat x div 65536 < 65536" using unat_u32 [of x] by linarith
  moreover have "unat x mod 65536 < 65536" by simp
  ultimately have "unat x div 65536 + unat x mod 65536 < 4294967296" by linarith
  then show ?thesis by (simp add: unat_word_ariths unat_shift16 unat_low16)
qed

function carry_loop :: "u32 \<Rightarrow> u32" where
  "carry_loop ac = (if 0 < drop_bit 16 ac then carry_loop (drop_bit 16 ac + (ac AND 0xffff)) else ac)"
  by pat_completeness auto
termination
proof (relation "measure unat")
  fix ac :: u32
  assume "0 < drop_bit 16 ac"
  then have "0 < unat ac div 65536" by (simp add: word_less_nat_alt unat_shift16)
  moreover have "unat ac = 65536 * (unat ac div 65536) + unat ac mod 65536" by simp
  ultimately have "unat ac div 65536 + unat ac mod 65536 < unat ac" by linarith
  then show "(drop_bit 16 ac + (ac AND 0xffff), ac) \<in> measure unat"
    by (simp add: unat_carry_step)
qed simp

declare carry_loop.simps [simp del]

definition ip4Checksum :: "bytes \<Rightarrow> u16" where
  "ip4Checksum b = ucast (NOT (carry_loop (ip4_sum_loop 0 b)))"

definition checksumCombine :: "u16 \<Rightarrow> u16 \<Rightarrow> u16" where
  "checksumCombine a b = (let v = (ucast a + ucast b :: u32) in ucast (v + drop_bit 16 v))"

fun pair_loop :: "u32 \<Rightarrow> bytes \<Rightarrow> u32" where
  "pair_loop v (a # b # r) = pair_loop (v + (push_bit 8 (ucast a) + ucast b)) r"
| "pair_loop v _ = v"

text \<open>
  \<^verbatim>\<open>checksumBytes\<close>, with both parity tests of the code: after an odd first byte is consumed
  the rest is even, so the second test never fires.
\<close>

definition checksumBytes :: "bytes \<Rightarrow> u16 \<Rightarrow> u16" where
  "checksumBytes buf initial =
     (if length buf \<le> 0 then initial
      else
        let v0 = ucast initial :: u32;
            odd1 = (length buf mod 2 = 1);
            v1 = (if odd1 then v0 + ucast (hd buf) else v0);
            buf1 = (if odd1 then tl buf else buf);
            odd2 = odd (length buf1);
            n = (if odd2 then length buf1 - 1 else length buf1);
            v2 = (if odd2 then v1 + push_bit 8 (ucast (buf1 ! n)) else v1);
            v3 = pair_loop v2 (take n buf1)
        in checksumCombine (ucast v3) (ucast (drop_bit 16 v3)))"

fun rfc1624_loop :: "u32 \<Rightarrow> bytes \<Rightarrow> bytes \<Rightarrow> u32" where
  "rfc1624_loop c (o1 # o2 # os) (n1 # n2 # ns) =
     rfc1624_loop (c + (of_nat (be_val [n1, n2]) + ucast (NOT (of_nat (be_val [o1, o2]) :: u16)))) os ns"
| "rfc1624_loop c _ _ = c"

text \<open>
  \<^verbatim>\<open>updateV4Checksum\<close> overwrites the two bytes of \<^verbatim>\<open>oldSum\<close>; the model returns their new value.
  \<open>None\<close> is its explicit panic on a length mismatch or an odd length.
\<close>

definition updateV4Checksum :: "bytes \<Rightarrow> bytes \<Rightarrow> bytes \<Rightarrow> bytes option" where
  "updateV4Checksum oldSum old new =
     (if length old \<noteq> length new then None
      else if length old mod 2 \<noteq> 0 then None
      else do {
        s \<leftarrow> get16 oldSum 0;
        let c = (ucast (NOT s) :: u32);
        let cPrime = carry_loop (rfc1624_loop c old new);
        let hcPrime = (NOT (ucast cPrime :: u16));
        put16 oldSum 0 hcPrime
      })"

subsection \<open>The routines compute the reference\<close>

lemma unat_add_u32: "unat (x :: u32) + n < 4294967296 \<Longrightarrow> unat (x + of_nat n) = unat x + n"
  by (simp add: unat_word_ariths unat_of_nat)

lemma shl8_u8: "push_bit 8 (ucast (a :: u8) :: u32) = of_nat (256 * unat a)"
  by (simp add: push_bit_eq_mult ac_simps)

lemma ucast_u16_u32: "(ucast (a :: u16) :: u32) = of_nat (unat a)"
  by simp

lemma unat_carry_loop: "unat (carry_loop ac) = oc (unat ac)"
proof (induction ac rule: carry_loop.induct)
  case (1 ac)
  show ?case
  proof (cases "0 < drop_bit 16 ac")
    case True
    then have "65536 \<le> unat ac"
      by (simp add: word_less_nat_alt unat_shift16 div_greater_zero_iff)
    then show ?thesis
      using 1 [OF True] True by (simp add: carry_loop.simps [of ac] unat_carry_step oc_fold_step)
  next
    case False
    then have "unat ac div 65536 = 0" by (simp add: word_less_nat_alt unat_shift16)
    then have "unat ac \<le> 65535" by (simp add: div_eq_0_iff)
    with False show ?thesis by (simp add: carry_loop.simps [of ac] oc_small)
  qed
qed

lemma unat_ip4_sum_loop:
  "unat ac + sum16 b < 4294967296 \<Longrightarrow> unat (ip4_sum_loop ac b) = unat ac + sum16 b"
proof (induction ac b rule: ip4_sum_loop.induct)
  case (1 ac a b r)
  have "unat (ac + of_nat (be_val [a, b])) = unat ac + be_val [a, b]"
    using 1 by (intro unat_add_u32) simp
  with 1 show ?case by (simp only: ip4_sum_loop.simps sum16.simps be_val_2)
next
  case (2 ac a)
  then show ?case by (simp only: ip4_sum_loop.simps sum16.simps shl8_u8 unat_add_u32)
qed simp

lemma unat_ucast_not: "unat x \<le> 65535 \<Longrightarrow> unat (ucast (NOT (x :: u32)) :: u16) = 65535 - unat x"
proof -
  assume x: "unat x \<le> 65535"
  have "(ucast (NOT x) :: u16) = NOT (ucast x)"
    by (rule bit_word_eqI) (simp add: bit_simps)
  moreover have "unat (ucast x :: u16) = unat x"
    using x by (simp add: unsigned_ucast_eq take_bit_eq_mod)
  ultimately show ?thesis by (simp add: unat_not_u16)
qed

lemma unat_ip4Checksum:
  "length b \<le> 131070 \<Longrightarrow> unat (ip4Checksum b) = 65535 - oc (sum16 b)"
proof -
  assume "length b \<le> 131070"
  then have "unat (ip4_sum_loop 0 b) = sum16 b"
    using sum16_bound [of b] by (subst unat_ip4_sum_loop) simp_all
  then have "unat (carry_loop (ip4_sum_loop 0 b)) = oc (sum16 b)"
    by (simp add: unat_carry_loop)
  then show ?thesis by (simp add: ip4Checksum_def unat_ucast_not)
qed

text \<open>What a receiver checks: the sum over data and checksum is the one's complement zero \<open>0xffff\<close>.\<close>

lemma ip4Checksum_zero_iff:
  "length b \<le> 131070 \<Longrightarrow> ip4Checksum b = 0 \<longleftrightarrow> 0 < sum16 b \<and> 65535 dvd sum16 b"
proof -
  assume b: "length b \<le> 131070"
  have "ip4Checksum b = 0 \<longleftrightarrow> unat (ip4Checksum b) = 0" by (simp add: unat_eq_0)
  also have "\<dots> \<longleftrightarrow> oc (sum16 b) = 65535"
    using oc_le [of "sum16 b"] by (simp add: unat_ip4Checksum b del: oc_le)
  finally show ?thesis by (simp add: oc_eq_max)
qed

lemma dvd_checksum_sum: "65535 dvd s + (65535 - oc s)"
proof -
  have "(s + (65535 - oc s)) mod 65535 = (oc s + (65535 - oc s)) mod 65535"
    by (rule mod_add_cong) (simp_all add: oc_mod)
  also have "oc s + (65535 - oc s) = 65535" by simp
  finally show ?thesis by (simp add: dvd_eq_mod_eq_0)
qed

text \<open>A buffer whose checksum field held zero verifies once its checksum is stored there.\<close>

lemma checksum_inserted_verifies:
  assumes "even (length p)" "length (p @ [0, 0] @ q) \<le> 131070"
    and "c = ip4Checksum (p @ [0, 0] @ q)"
  shows "ip4Checksum (p @ be_bytes 2 (unat c) @ q) = 0"
proof -
  let ?s = "sum16 (p @ [0, 0] @ q)"
  have "sum16 (p @ be_bytes 2 (unat c) @ q) = ?s + unat c"
    using assms(1) by (simp add: sum16_append sum16_be_bytes)
  moreover have "unat c = 65535 - oc ?s" using assms(2,3) by (simp add: unat_ip4Checksum)
  ultimately have s: "sum16 (p @ be_bytes 2 (unat c) @ q) = ?s + (65535 - oc ?s)" by simp
  have "0 < ?s + (65535 - oc ?s)"
    by (cases "?s = 0") (simp_all add: oc_def)
  moreover have "length (p @ be_bytes 2 (unat c) @ q) \<le> 131070" using assms(2) by simp
  ultimately show ?thesis
    using dvd_checksum_sum [of ?s] s by (simp add: ip4Checksum_zero_iff)
qed

lemma unat_checksumCombine: "unat (checksumCombine a b) = oc (unat a + unat b)"
proof -
  let ?v = "ucast a + ucast b :: u32"
  have v: "unat ?v = unat a + unat b"
  proof -
    have "unat a + unat b < 4294967296" using unat_u16 [of a] unat_u16 [of b] by linarith
    then show ?thesis by (simp add: unat_word_ariths)
  qed
  have lt: "unat ?v \<le> 131070" using unat_u16_le [of a] unat_u16_le [of b] v by linarith
  then have "unat ?v + unat ?v div 65536 < 4294967296" by linarith
  then have "unat (?v + drop_bit 16 ?v) = unat ?v + unat ?v div 65536"
    by (simp add: unat_word_ariths unat_shift16)
  then have u: "unat (checksumCombine a b) = (unat ?v + unat ?v div 65536) mod 65536"
    by (simp add: checksumCombine_def Let_def unsigned_ucast_eq take_bit_eq_mod)
  show ?thesis
  proof (cases "unat ?v \<le> 65535")
    case True
    then show ?thesis using u v by (simp add: oc_small)
  next
    case False
    then have d: "unat ?v div 65536 = 1" using lt by auto
    have "oc (unat ?v) = oc (unat ?v - 65535)"
      using False oc_add_mult [of "unat ?v - 65535" 1] by simp
    then have "oc (unat ?v) = unat ?v - 65535" using lt by (simp add: oc_small)
    moreover have "(unat ?v + 1) mod 65536 = unat ?v - 65535"
      using False lt by (simp add: mod_if)
    ultimately show ?thesis using u d v by simp
  qed
qed

lemma unat_pair_loop:
  "even (length b) \<Longrightarrow> unat v + sum16 b < 4294967296 \<Longrightarrow> unat (pair_loop v b) = unat v + sum16 b"
proof (induction v b rule: pair_loop.induct)
  case (1 v a b r)
  have e: "push_bit 8 (ucast a) + ucast b = (of_nat (256 * unat a + unat b) :: u32)"
    by (simp add: push_bit_eq_mult ac_simps)
  have "unat (v + of_nat (256 * unat a + unat b)) = unat v + (256 * unat a + unat b)"
    using 1 by (intro unat_add_u32) simp
  with 1 show ?case by (simp only: pair_loop.simps sum16.simps e) simp
qed auto

definition odd_sum :: "bytes \<Rightarrow> nat" where
  \<comment> \<open>what \<^verbatim>\<open>checksumBytes\<close> sums over an odd number of bytes: the first one alone, in the low half\<close>
  "odd_sum b = unat (hd b) + sum16 (tl b)"

lemma unat_checksumBytes:
  assumes "length b \<le> 131070"
  shows "unat (checksumBytes b ini) = oc (unat ini + (if even (length b) then sum16 b else odd_sum b))"
proof (cases "b = []")
  case True
  then show ?thesis by (simp add: checksumBytes_def oc_small)
next
  case False
  define v1 :: u32 where "v1 = (if odd (length b) then ucast ini + ucast (hd b) else ucast ini)"
  define b1 where "b1 = (if odd (length b) then tl b else b)"
  define v3 where "v3 = pair_loop v1 b1"
  have c: "checksumBytes b ini = checksumCombine (ucast v3) (ucast (drop_bit 16 v3))"
    using False by (simp add: checksumBytes_def Let_def v3_def v1_def b1_def odd_iff_mod_2_eq_one)
  have e: "even (length b1)" using False by (simp add: b1_def)
  have l: "length b1 \<le> 131070" using assms by (auto simp: b1_def)
  have v1: "unat v1 = unat ini + (if odd (length b) then unat (hd b) else 0)"
  proof -
    have "unat ini + unat (hd b) < 4294967296"
      using unat_u16 [of ini] unat_u8 [of "hd b"] by linarith
    then show ?thesis by (simp add: v1_def unat_word_ariths)
  qed
  have "unat v1 \<le> 65535 + 255"
    using unat_u16_le [of ini] unat_u8 [of "hd b"] v1 by (auto simp del: unat_u16_le unat_u8)
  then have "unat v1 + sum16 b1 < 4294967296" using sum16_bound [OF l] by linarith
  then have v3: "unat v3 = unat v1 + sum16 b1"
    using e by (simp add: v3_def unat_pair_loop)
  have s: "unat v3 = unat ini + (if even (length b) then sum16 b else odd_sum b)"
    by (simp add: v3 v1 b1_def odd_sum_def)
  have "unat (ucast v3 :: u16) = unat v3 mod 65536"
    by (simp add: unsigned_ucast_eq take_bit_eq_mod)
  moreover have "unat (ucast (drop_bit 16 v3) :: u16) = unat v3 div 65536"
    using unat_u32 [of v3]
    by (simp add: unsigned_ucast_eq take_bit_eq_mod unat_shift16 del: unat_u32)
  ultimately have "unat (checksumBytes b ini) = oc (unat v3 mod 65536 + unat v3 div 65536)"
    by (simp add: c unat_checksumCombine)
  also have "\<dots> = oc (unat v3)"
    by (cases "65536 \<le> unat v3") (simp_all add: add.commute oc_fold_step)
  finally show ?thesis by (simp add: s)
qed

subsection \<open>Incremental update (RFC 1624)\<close>

lemma unat_rfc1624_loop:
  assumes "length old = length new" "even (length old)"
    and "unat c + sum16 new + 65535 * (length old div 2) < 4294967296"
  shows "unat (rfc1624_loop c old new) + sum16 old = unat c + sum16 new + 65535 * (length old div 2)"
  using assms
proof (induction c old new rule: rfc1624_loop.induct)
  case (1 c o1 o2 os n1 n2 ns)
  let ?m = "256 * unat o1 + unat o2" and ?m' = "256 * unat n1 + unat n2"
  have m: "?m \<le> 65535" using unat_u8 [of o1] unat_u8 [of o2] by linarith
  have "unat (NOT (of_nat ?m :: u16)) = 65535 - ?m"
    using m unat_of_nat_u16 [of ?m] by (simp only: unat_not_u16)
  then have e: "of_nat ?m' + ucast (NOT (of_nat ?m :: u16)) = (of_nat (?m' + (65535 - ?m)) :: u32)"
    by (simp only: ucast_u16_u32 of_nat_add)
  have lt: "unat c + (?m' + (65535 - ?m)) < 4294967296" using 1(4) by simp
  have u: "unat (c + of_nat (?m' + (65535 - ?m))) = unat c + (?m' + (65535 - ?m))"
    using lt by (rule unat_add_u32)
  have IH: "unat (rfc1624_loop (c + of_nat (?m' + (65535 - ?m))) os ns) + sum16 os
      = unat (c + of_nat (?m' + (65535 - ?m))) + sum16 ns + 65535 * (length os div 2)"
    using 1(2-) by (intro 1(1) [unfolded be_val_2 e]) (simp_all add: u del: of_nat_add)
  then show ?case
    using m by (simp only: rfc1624_loop.simps be_val_2 e u) simp
qed (auto simp: Suc_length_conv)

lemma sum16_le_half: "even (length b) \<Longrightarrow> sum16 b \<le> 65535 * (length b div 2)"
  using sum16_le [of b] by simp

lemma updateV4Checksum_some:
  assumes "length s = 2" "length old = length new" "even (length old)" "length old \<le> 65534"
  obtains s' where "updateV4Checksum s old new = Some s'" "length s' = 2"
    and "be_val s' = 65535 - oc ((65535 - be_val s) + sum16 new + (65535 * (length old div 2) - sum16 old))"
proof -
  obtain a b where s: "s = [a, b]" using assms(1) by (auto simp: numeral_2_eq_2 length_Suc_conv)
  let ?c = "ucast (NOT (of_nat (be_val s) :: u16)) :: u32"
  have bv: "be_val s \<le> 65535" using be_val_bound [of s] assms(1) by simp
  then have c: "unat ?c = 65535 - be_val s" by (simp add: unat_not_u16)
  have n: "sum16 new \<le> 65535 * (length old div 2)" "sum16 old \<le> 65535 * (length old div 2)"
    using sum16_le_half [of new] sum16_le_half [of old] assms(2,3) by simp_all
  have "65535 * (length old div 2) \<le> 65535 * 32767" using assms(4) by (intro mult_le_mono2) simp
  with n c have lt: "unat ?c + sum16 new + 65535 * (length old div 2) < 4294967296" by simp
  let ?t = "(65535 - be_val s) + sum16 new + (65535 * (length old div 2) - sum16 old)"
  have l: "unat (rfc1624_loop ?c old new) = ?t"
    using unat_rfc1624_loop [OF assms(2,3) lt] c n(2) by simp
  let ?h = "NOT (ucast (carry_loop (rfc1624_loop ?c old new)) :: u16)"
  have "unat (carry_loop (rfc1624_loop ?c old new)) = oc ?t"
    by (simp only: unat_carry_loop l)
  then have "unat (ucast (carry_loop (rfc1624_loop ?c old new)) :: u16) = oc ?t"
    using oc_le [of ?t] by (simp add: unsigned_ucast_eq take_bit_eq_mod del: oc_le)
  then have h: "unat ?h = 65535 - oc ?t" by (simp only: unat_not_u16)
  have g: "get16 s 0 = Some (of_nat (be_val s))" by (simp add: s get16_some)
  have "updateV4Checksum s old new = Some (be_bytes 2 (unat ?h))"
    using assms g by (simp add: updateV4Checksum_def Let_def even_iff_mod_2_eq_zero overlay_def)
  moreover have "be_val (be_bytes 2 (unat ?h)) = 65535 - oc ?t"
    by (simp only: h codec_simps) simp
  ultimately show ?thesis using that [of "be_bytes 2 (unat ?h)"] by simp
qed

lemma updateV4Checksum_dvd:
  assumes "length s = 2" "length old = length new" "even (length old)" "length old \<le> 65534"
    and "65535 dvd R + be_val s + sum16 old"
    and "updateV4Checksum s old new = Some s'"
  shows "65535 dvd R + be_val s' + sum16 new"
proof -
  let ?k = "length old div 2"
  let ?t = "(65535 - be_val s) + sum16 new + (65535 * ?k - sum16 old)"
  have s': "be_val s' = 65535 - oc ?t"
    using updateV4Checksum_some [OF assms(1-4)] assms(6) by (metis option.inject)
  have bv: "be_val s \<le> 65535" using be_val_bound [of s] assms(1) by simp
  have so: "sum16 old \<le> 65535 * ?k" using sum16_le_half [OF assms(3)] .
  have "int (oc ?t) mod 65535 = int ?t mod 65535"
    using oc_mod [of ?t] by (metis of_nat_numeral zmod_int)
  then have d: "65535 dvd int (oc ?t) - int ?t" by (simp add: mod_eq_dvd_iff)
  have "int (R + be_val s' + sum16 new)
      = int (R + be_val s + sum16 old) - 65535 * int ?k - (int (oc ?t) - int ?t)"
  proof -
    have "int (be_val s') = 65535 - int (oc ?t)" by (simp add: s' of_nat_diff)
    moreover have "int ?t = (65535 - int (be_val s)) + int (sum16 new) + (65535 * int ?k - int (sum16 old))"
      using bv so by (simp add: of_nat_diff)
    ultimately show ?thesis by simp
  qed
  moreover have "65535 dvd int (R + be_val s + sum16 old)" using assms(5) by (metis of_nat_dvd_iff of_nat_numeral)
  ultimately have "65535 dvd int (R + be_val s' + sum16 new)"
    using d by (metis dvd_diff dvd_triv_left)
  then show ?thesis by (metis of_nat_dvd_iff of_nat_numeral)
qed

lemma updateV4Checksum_panics:
  "updateV4Checksum s old new = None \<longleftrightarrow> length old \<noteq> length new \<or> odd (length old) \<or> length s < 2"
  by (auto simp: updateV4Checksum_def get16_def put16_def slice_def copy_at_def Let_def
      even_iff_mod_2_eq_zero bind_eq_None_conv)

end
