(* ===== verification/Addr.thy ===== *)
theory Addr
  imports Prelude
begin

text \<open>
  What the code uses of Go's \<^verbatim>\<open>net/netip\<close> and \<^verbatim>\<open>net\<close>: \<^verbatim>\<open>netip.Addr\<close> as a datatype (the zero
  value, IPv4, IPv6; no component of the development builds zoned addresses), \<^verbatim>\<open>netip.AddrPort\<close>,
  and \<^verbatim>\<open>net.IP\<close> as the byte slice it is. A panic of \<^verbatim>\<open>As4\<close> is \<open>None\<close>.
\<close>

type_synonym u128 = "128 word"

datatype addr = AddrZero | Addr4 u32 | Addr6 u128

type_synonym addrport = "addr \<times> u16"

lemma unat_u128: "unat (x :: u128) < 256 ^ 16"
  using unsigned_less [of x, where 'a = nat] by simp

lemma unat_u32_256: "unat (x :: u32) < 256 ^ 4"
  using unsigned_less [of x, where 'a = nat] by simp

subsection \<open>netip.Addr\<close>

definition is4 :: "addr \<Rightarrow> bool" where
  [simp]: "is4 a = (case a of Addr4 _ \<Rightarrow> True | _ \<Rightarrow> False)"

definition is6 :: "addr \<Rightarrow> bool" where
  [simp]: "is6 a = (case a of Addr6 _ \<Rightarrow> True | _ \<Rightarrow> False)"

definition is_valid :: "addr \<Rightarrow> bool" where
  [simp]: "is_valid a = (a \<noteq> AddrZero)"

definition is_unspecified :: "addr \<Rightarrow> bool" where
  [simp]: "is_unspecified a = (a = Addr4 0 \<or> a = Addr6 0)"

definition v4in6_prefix :: bytes where
  "v4in6_prefix = [0, 0, 0, 0, 0, 0, 0, 0, 0, 0, 0xff, 0xff]"

fun is4in6 :: "addr \<Rightarrow> bool" where
  "is4in6 (Addr6 w) = (take 12 (be_bytes 16 (unat w)) = v4in6_prefix)"
| "is4in6 _ = False"

fun unmap :: "addr \<Rightarrow> addr" where
  "unmap (Addr6 w) =
     (if is4in6 (Addr6 w) then Addr4 (of_nat (be_val (drop 12 (be_bytes 16 (unat w))))) else Addr6 w)"
| "unmap a = a"

fun as_slice :: "addr \<Rightarrow> bytes" where
  "as_slice AddrZero = []"
| "as_slice (Addr4 a) = be_bytes 4 (unat a)"
| "as_slice (Addr6 w) = be_bytes 16 (unat w)"

fun as4 :: "addr \<Rightarrow> bytes option" where
  "as4 (Addr4 a) = Some (be_bytes 4 (unat a))"
| "as4 (Addr6 w) = (if is4in6 (Addr6 w) then Some (drop 12 (be_bytes 16 (unat w))) else None)"
| "as4 AddrZero = None"

fun as16 :: "addr \<Rightarrow> bytes" where
  "as16 (Addr6 w) = be_bytes 16 (unat w)"
| "as16 (Addr4 a) = v4in6_prefix @ be_bytes 4 (unat a)"
| "as16 AddrZero = replicate 16 0"

definition addr_from4 :: "bytes \<Rightarrow> addr" where
  "addr_from4 s = Addr4 (of_nat (be_val s))"

definition addr_from_slice :: "bytes \<Rightarrow> addr \<times> bool" where
  "addr_from_slice s =
     (if length s = 4 then (Addr4 (of_nat (be_val s)), True)
      else if length s = 16 then (Addr6 (of_nat (be_val s)), True)
      else (AddrZero, False))"

lemma length_as16 [simp]: "length (as16 a) = 16"
  by (cases a) (simp_all add: v4in6_prefix_def)

lemma length_as4: "as4 a = Some s \<Longrightarrow> length s = 4"
  by (cases a) (auto split: if_splits)

lemma addr_from4_as_bytes [simp]: "addr_from4 (be_bytes 4 (unat a)) = Addr4 a"
  using unat_u32_256 [of a] by (simp add: addr_from4_def be_val_be_bytes)

lemma addr_from_slice_as_slice: "is_valid a \<Longrightarrow> addr_from_slice (as_slice a) = (a, True)"
  using unat_u32_256 unat_u128
  by (cases a) (simp_all add: addr_from_slice_def be_val_be_bytes)

lemma as_slice_addr_from_slice:
  "addr_from_slice s = (a, True) \<Longrightarrow> as_slice a = s"
proof -
  assume a: "addr_from_slice s = (a, True)"
  have "length s = 4 \<Longrightarrow> unat (of_nat (be_val s) :: u32) = be_val s"
    using be_val_bound [of s] by (simp add: unat_of_nat)
  moreover have "length s = 16 \<Longrightarrow> unat (of_nat (be_val s) :: u128) = be_val s"
    using be_val_bound [of s] by (simp add: unat_of_nat)
  ultimately show ?thesis
    using a by (auto simp: addr_from_slice_def be_bytes_be_val split: if_splits)
qed

lemma unmap_not_4in6 [simp]: "\<not> is4in6 (unmap a)"
  by (cases a) auto

lemma unmap_idem [simp]: "unmap (unmap a) = unmap a"
  by (cases a) auto

lemma unmap_valid [simp]: "is_valid (unmap a) = is_valid a"
  by (cases a) auto

subsection \<open>net.IP and net.IPNet\<close>

definition ip_to4 :: "bytes \<Rightarrow> bytes" where
  \<comment> \<open>\<^verbatim>\<open>ip.To4()\<close>, with \<open>[]\<close> for nil\<close>
  "ip_to4 ip = (if length ip = 4 then ip
                else if length ip = 16 \<and> take 12 ip = v4in6_prefix then drop 12 ip else [])"

definition ip_to16 :: "bytes \<Rightarrow> bytes" where
  \<comment> \<open>\<^verbatim>\<open>ip.To16()\<close>, with \<open>[]\<close> for nil\<close>
  "ip_to16 ip = (if length ip = 4 then v4in6_prefix @ ip
                 else if length ip = 16 then ip else [])"

definition ip_equal :: "bytes \<Rightarrow> bytes \<Rightarrow> bool" where
  "ip_equal a b =
     (if length a = length b then a = b
      else if length a = 4 \<and> length b = 16 then take 12 b = v4in6_prefix \<and> a = drop 12 b
      else if length a = 16 \<and> length b = 4 then take 12 a = v4in6_prefix \<and> drop 12 a = b
      else False)"

definition ipv4zero :: bytes where "ipv4zero = v4in6_prefix @ [0, 0, 0, 0]"

definition ipv6zero :: bytes where "ipv6zero = replicate 16 0"

definition ip_unspecified :: "bytes \<Rightarrow> bool" where
  "ip_unspecified ip = (ip_equal ip ipv4zero \<or> ip_equal ip ipv6zero)"

record ipnet =
  net_IP :: bytes
  net_Mask :: bytes

definition cidr_mask :: "nat \<Rightarrow> nat \<Rightarrow> bytes" where
  \<comment> \<open>\<^verbatim>\<open>net.CIDRMask(ones, bits)\<close> on a number of bits that is a multiple of eight\<close>
  "cidr_mask ones bits =
     map (\<lambda>i. if 8 * i + 8 \<le> ones then 0xff
              else if ones \<le> 8 * i then 0
              else NOT (push_bit (8 - (ones - 8 * i)) 1 - 1)) [0..<bits div 8]"

fun byte_ones :: "nat \<Rightarrow> u8 \<Rightarrow> nat" where
  \<comment> \<open>leading ones of a byte\<close>
  "byte_ones 0 v = 0"
| "byte_ones (Suc k) v = (if bit v 7 then Suc (byte_ones k (push_bit 1 v)) else 0)"

fun simple_mask_length :: "bytes \<Rightarrow> nat \<Rightarrow> nat option" where
  "simple_mask_length [] n = Some n"
| "simple_mask_length (v # m) n =
     (if v = 0xff then simple_mask_length m (n + 8)
      else let k = byte_ones 8 v in
        if push_bit k v \<noteq> 0 then None
        else if list_all (\<lambda>x. x = 0) m then Some (n + k) else None)"

definition mask_size :: "bytes \<Rightarrow> nat \<times> nat" where
  \<comment> \<open>\<^verbatim>\<open>m.Size()\<close>: the leading ones and the bits, or \<^verbatim>\<open>0, 0\<close> when the mask is not canonical\<close>
  "mask_size m = (case simple_mask_length m 0 of None \<Rightarrow> (0, 0) | Some n \<Rightarrow> (n, 8 * length m))"

definition network_number_and_mask :: "ipnet \<Rightarrow> (bytes \<times> bytes) option" where
  "network_number_and_mask n =
     (let ip4 = ip_to4 (net_IP n);
          ip = (if ip4 \<noteq> [] then ip4 else net_IP n);
          m = net_Mask n
      in if length ip \<noteq> 4 \<and> length ip \<noteq> 16 then None
         else if length m = 4 then (if length ip \<noteq> 4 then None else Some (ip, m))
         else if length m = 16 then Some (ip, if length ip = 4 then drop 12 m else m)
         else None)"

definition net_contains :: "ipnet \<Rightarrow> bytes \<Rightarrow> bool" where
  "net_contains n ip0 =
     (let x = ip_to4 ip0; ip = (if x \<noteq> [] then x else ip0)
      in case network_number_and_mask n of
           None \<Rightarrow> ip = []
         | Some (nn, m) \<Rightarrow>
             length ip = length nn \<and>
             list_all (\<lambda>i. (nn ! i AND m ! i) = (ip ! i AND m ! i)) [0..<length ip])"

lemma byte_ones_0 [simp]: "byte_ones k 0 = 0"
  by (cases k) simp_all

lemma mask_size_cidr:
  "n \<in> {4, 5, 6, 7, 8, 12} \<Longrightarrow> mask_size (cidr_mask (8 * n) 128) = (8 * n, 128)"
  by (elim insertE; simp add: mask_size_def cidr_mask_def upt_conv_Cons Let_def)

end
