(* ===== verification/Headers.thy ===== *)
theory Headers
  imports Xsum Addr
begin

text \<open>
  The packet headers of \<^verbatim>\<open>intra/core/wire\<close> (header.go, ip4.go, ip6.go, udp.go, icmp4.go, icmp6.go,
  proto.go): one record per header struct, \<^verbatim>\<open>Marshal\<close> and \<^verbatim>\<open>marshalPseudo\<close> as functions from the
  buffer to the error and the written buffer (\<open>None\<close>: the code panics), \<^verbatim>\<open>ToResponse\<close>, and
  \<^verbatim>\<open>Generate\<close> over the \<^verbatim>\<open>Header\<close> interface. The lemmas give the exact bytes each \<^verbatim>\<open>Marshal\<close>
  leaves and that a receiver accepts their checksums.
\<close>

subsection \<open>Constants\<close>

definition UnknownProto :: u8 where "UnknownProto = 0x00"
definition ICMPv4 :: u8 where "ICMPv4 = 0x01"
definition IGMP :: u8 where "IGMP = 0x02"
definition ICMPv6 :: u8 where "ICMPv6 = 0x3a"
definition TCP :: u8 where "TCP = 0x06"
definition UDP :: u8 where "UDP = 0x11"
definition DCCP :: u8 where "DCCP = 0x21"
definition GRE :: u8 where "GRE = 0x2f"
definition SCTP :: u8 where "SCTP = 0x84"
definition TSMP :: u8 where "TSMP = 99"
definition Fragment :: u8 where "Fragment = 0xFF"

lemmas proto_defs = UnknownProto_def ICMPv4_def IGMP_def ICMPv6_def TCP_def UDP_def DCCP_def
  GRE_def SCTP_def TSMP_def Fragment_def

lemma proto_neq [simp]:
  "UnknownProto \<noteq> ICMPv4" "UnknownProto \<noteq> IGMP" "UnknownProto \<noteq> ICMPv6" "UnknownProto \<noteq> TCP" "UnknownProto \<noteq> UDP" "UnknownProto \<noteq> DCCP" "UnknownProto \<noteq> GRE" "UnknownProto \<noteq> SCTP" "UnknownProto \<noteq> TSMP" "UnknownProto \<noteq> Fragment"
  "ICMPv4 \<noteq> UnknownProto" "ICMPv4 \<noteq> IGMP" "ICMPv4 \<noteq> ICMPv6" "ICMPv4 \<noteq> TCP" "ICMPv4 \<noteq> UDP" "ICMPv4 \<noteq> DCCP" "ICMPv4 \<noteq> GRE" "ICMPv4 \<noteq> SCTP" "ICMPv4 \<noteq> TSMP" "ICMPv4 \<noteq> Fragment"
  "IGMP \<noteq> UnknownProto" "IGMP \<noteq> ICMPv4" "IGMP \<noteq> ICMPv6" "IGMP \<noteq> TCP" "IGMP \<noteq> UDP" "IGMP \<noteq> DCCP" "IGMP \<noteq> GRE" "IGMP \<noteq> SCTP" "IGMP \<noteq> TSMP" "IGMP \<noteq> Fragment"
  "ICMPv6 \<noteq> UnknownProto" "ICMPv6 \<noteq> ICMPv4" "ICMPv6 \<noteq> IGMP" "ICMPv6 \<noteq> TCP" "ICMPv6 \<noteq> UDP" "ICMPv6 \<noteq> DCCP" "ICMPv6 \<noteq> GRE" "ICMPv6 \<noteq> SCTP" "ICMPv6 \<noteq> TSMP" "ICMPv6 \<noteq> Fragment"
  "TCP \<noteq> UnknownProto" "TCP \<noteq> ICMPv4" "TCP \<noteq> IGMP" "TCP \<noteq> ICMPv6" "TCP \<noteq> UDP" "TCP \<noteq> DCCP" "TCP \<noteq> GRE" "TCP \<noteq> SCTP" "TCP \<noteq> TSMP" "TCP \<noteq> Fragment"
  "UDP \<noteq> UnknownProto" "UDP \<noteq> ICMPv4" "UDP \<noteq> IGMP" "UDP \<noteq> ICMPv6" "UDP \<noteq> TCP" "UDP \<noteq> DCCP" "UDP \<noteq> GRE" "UDP \<noteq> SCTP" "UDP \<noteq> TSMP" "UDP \<noteq> Fragment"
  "DCCP \<noteq> UnknownProto" "DCCP \<noteq> ICMPv4" "DCCP \<noteq> IGMP" "DCCP \<noteq> ICMPv6" "DCCP \<noteq> TCP" "DCCP \<noteq> UDP" "DCCP \<noteq> GRE" "DCCP \<noteq> SCTP" "DCCP \<noteq> TSMP" "DCCP \<noteq> Fragment"
  "GRE \<noteq> UnknownProto" "GRE \<noteq> ICMPv4" "GRE \<noteq> IGMP" "GRE \<noteq> ICMPv6" "GRE \<noteq> TCP" "GRE \<noteq> UDP" "GRE \<noteq> DCCP" "GRE \<noteq> SCTP" "GRE \<noteq> TSMP" "GRE \<noteq> Fragment"
  "SCTP \<noteq> UnknownProto" "SCTP \<noteq> ICMPv4" "SCTP \<noteq> IGMP" "SCTP \<noteq> ICMPv6" "SCTP \<noteq> TCP" "SCTP \<noteq> UDP" "SCTP \<noteq> DCCP" "SCTP \<noteq> GRE" "SCTP \<noteq> TSMP" "SCTP \<noteq> Fragment"
  "TSMP \<noteq> UnknownProto" "TSMP \<noteq> ICMPv4" "TSMP \<noteq> IGMP" "TSMP \<noteq> ICMPv6" "TSMP \<noteq> TCP" "TSMP \<noteq> UDP" "TSMP \<noteq> DCCP" "TSMP \<noteq> GRE" "TSMP \<noteq> SCTP" "TSMP \<noteq> Fragment"
  "Fragment \<noteq> UnknownProto" "Fragment \<noteq> ICMPv4" "Fragment \<noteq> IGMP" "Fragment \<noteq> ICMPv6" "Fragment \<noteq> TCP" "Fragment \<noteq> UDP" "Fragment \<noteq> DCCP" "Fragment \<noteq> GRE" "Fragment \<noteq> SCTP" "Fragment \<noteq> TSMP"
  by (simp_all add: proto_defs)

definition ICMP4EchoReply :: u8 where "ICMP4EchoReply = 0x00"
definition ICMP4EchoRequest :: u8 where "ICMP4EchoRequest = 0x08"
definition ICMP4Unreachable :: u8 where "ICMP4Unreachable = 0x03"
definition ICMP4TimeExceeded :: u8 where "ICMP4TimeExceeded = 0x0b"
definition ICMP4ParamProblem :: u8 where "ICMP4ParamProblem = 0x12"
definition ICMP4NoCode :: u8 where "ICMP4NoCode = 0"
definition ICMP4HostUnreachable :: u8 where "ICMP4HostUnreachable = 1"

definition ICMP6Unreachable :: u8 where "ICMP6Unreachable = 1"
definition ICMP6PacketTooBig :: u8 where "ICMP6PacketTooBig = 2"
definition ICMP6TimeExceeded :: u8 where "ICMP6TimeExceeded = 3"
definition ICMP6ParamProblem :: u8 where "ICMP6ParamProblem = 4"
definition ICMP6EchoRequest :: u8 where "ICMP6EchoRequest = 128"
definition ICMP6EchoReply :: u8 where "ICMP6EchoReply = 129"
definition ICMP6NoCode :: u8 where "ICMP6NoCode = 0"
definition ICMP6NoRoute :: u8 where "ICMP6NoRoute = 0"

lemmas icmp_defs = ICMP4EchoReply_def ICMP4EchoRequest_def ICMP4Unreachable_def
  ICMP4TimeExceeded_def ICMP4ParamProblem_def ICMP4NoCode_def ICMP4HostUnreachable_def
  ICMP6Unreachable_def ICMP6PacketTooBig_def ICMP6TimeExceeded_def ICMP6ParamProblem_def
  ICMP6EchoRequest_def ICMP6EchoReply_def ICMP6NoCode_def ICMP6NoRoute_def

definition maxPacketLength :: nat where "maxPacketLength = 65535"
definition IP4HeaderLength :: nat where "IP4HeaderLength = 20"
definition IP6HeaderLength :: nat where "IP6HeaderLength = 40"
definition udpHeaderLength :: nat where "udpHeaderLength = 8"
definition icmp4HeaderLength :: nat where "icmp4HeaderLength = 4"
definition icmp6HeaderLength :: nat where "icmp6HeaderLength = 4"
definition igmpHeaderLength :: nat where "igmpHeaderLength = 8"
definition tcpHeaderLength :: nat where "tcpHeaderLength = 20"
definition sctpHeaderLength :: nat where "sctpHeaderLength = 12"

lemmas len_defs = maxPacketLength_def IP4HeaderLength_def IP6HeaderLength_def udpHeaderLength_def
  icmp4HeaderLength_def icmp6HeaderLength_def igmpHeaderLength_def tcpHeaderLength_def
  sctpHeaderLength_def

datatype wire_error = ErrSmallBuffer | ErrLargePacket | ErrWrongFamily

type_synonym marshalled = "(wire_error option \<times> bytes) option"

subsection \<open>IPv4\<close>

record IP4Header =
  h4_IPProto :: u8
  h4_IPID :: u16
  h4_Src :: addr
  h4_Dst :: addr

definition IP4_Marshal :: "IP4Header \<Rightarrow> bytes \<Rightarrow> marshalled" where
  "IP4_Marshal h buf =
     (if length buf < IP4HeaderLength then Some (Some ErrSmallBuffer, buf)
      else if length buf > maxPacketLength then Some (Some ErrLargePacket, buf)
      else if \<not> is4 (h4_Src h) \<or> \<not> is4 (h4_Dst h) then Some (Some ErrWrongFamily, buf)
      else do {
        buf \<leftarrow> put8 buf 0 (0x40 OR of_nat (IP4HeaderLength div 4));
        buf \<leftarrow> put8 buf 1 0x00;
        buf \<leftarrow> put16 buf 2 (of_nat (length buf));
        buf \<leftarrow> put16 buf 4 (h4_IPID h);
        buf \<leftarrow> put16 buf 6 0;
        buf \<leftarrow> put8 buf 8 64;
        buf \<leftarrow> put8 buf 9 (h4_IPProto h);
        buf \<leftarrow> put16 buf 10 0;
        src \<leftarrow> as4 (h4_Src h);
        dst \<leftarrow> as4 (h4_Dst h);
        buf \<leftarrow> copy_at buf 12 16 src;
        buf \<leftarrow> copy_at buf 16 20 dst;
        hdr \<leftarrow> slice buf 0 20;
        buf \<leftarrow> put16 buf 10 (ip4Checksum hdr);
        Some (None, buf)
      })"

definition IP4_ToResponse :: "IP4Header \<Rightarrow> IP4Header" where
  "IP4_ToResponse h = h\<lparr>h4_Src := h4_Dst h, h4_Dst := h4_Src h, h4_IPID := NOT (h4_IPID h)\<rparr>"

definition IP4_marshalPseudo :: "IP4Header \<Rightarrow> bytes \<Rightarrow> marshalled" where
  "IP4_marshalPseudo h buf =
     (if length buf < IP4HeaderLength then Some (Some ErrSmallBuffer, buf)
      else if length buf > maxPacketLength then Some (Some ErrLargePacket, buf)
      else do {
        src \<leftarrow> as4 (h4_Src h);
        dst \<leftarrow> as4 (h4_Dst h);
        buf \<leftarrow> copy_at buf 8 12 src;
        buf \<leftarrow> copy_at buf 12 16 dst;
        buf \<leftarrow> put8 buf 16 0x0;
        buf \<leftarrow> put8 buf 17 (h4_IPProto h);
        buf \<leftarrow> put16 buf 18 (of_nat (length buf - IP4HeaderLength));
        Some (None, buf)
      })"

subsection \<open>IPv6\<close>

record IP6Header =
  h6_IPProto :: u8
  h6_IPID :: u32
  h6_Src :: addr
  h6_Dst :: addr

definition IP6_Marshal :: "IP6Header \<Rightarrow> bytes \<Rightarrow> marshalled" where
  "IP6_Marshal h buf =
     (if length buf < IP6HeaderLength then Some (Some ErrSmallBuffer, buf)
      else if length buf > maxPacketLength then Some (Some ErrLargePacket, buf)
      else do {
        buf \<leftarrow> put32 buf 0 (h6_IPID h AND 0x000FFFFF);
        buf \<leftarrow> put8 buf 0 0x60;
        buf \<leftarrow> put16 buf 4 (of_nat (length buf - IP6HeaderLength));
        buf \<leftarrow> put8 buf 6 (h6_IPProto h);
        buf \<leftarrow> put8 buf 7 64;
        buf \<leftarrow> copy_at buf 8 24 (as16 (h6_Src h));
        buf \<leftarrow> copy_at buf 24 40 (as16 (h6_Dst h));
        Some (None, buf)
      })"

definition IP6_ToResponse :: "IP6Header \<Rightarrow> IP6Header" where
  "IP6_ToResponse h =
     h\<lparr>h6_Src := h6_Dst h, h6_Dst := h6_Src h, h6_IPID := NOT (h6_IPID h) AND 0x000FFFFF\<rparr>"

definition IP6_marshalPseudo :: "IP6Header \<Rightarrow> bytes \<Rightarrow> u8 \<Rightarrow> marshalled" where
  "IP6_marshalPseudo h buf proto =
     (if length buf < IP6HeaderLength then Some (Some ErrSmallBuffer, buf)
      else if length buf > maxPacketLength then Some (Some ErrLargePacket, buf)
      else do {
        buf \<leftarrow> copy_at buf 0 16 (as16 (h6_Src h));
        buf \<leftarrow> copy_at buf 16 32 (as16 (h6_Dst h));
        buf \<leftarrow> put32 buf 32 (of_nat (length buf - IP6HeaderLength));
        buf \<leftarrow> put8 buf 36 0;
        buf \<leftarrow> put8 buf 37 0;
        buf \<leftarrow> put8 buf 38 0;
        buf \<leftarrow> put8 buf 39 proto;
        Some (None, buf)
      })"

subsection \<open>UDP\<close>

record UDP4Header =
  u4_IP :: IP4Header
  u4_SrcPort :: u16
  u4_DstPort :: u16

text \<open>The errors of the embedded header are dropped, as in the code.\<close>

definition UDP4_Marshal :: "UDP4Header \<Rightarrow> bytes \<Rightarrow> marshalled" where
  "UDP4_Marshal h buf =
     (if length buf < IP4HeaderLength + udpHeaderLength then Some (Some ErrSmallBuffer, buf)
      else if length buf > maxPacketLength then Some (Some ErrLargePacket, buf)
      else do {
        let ip = (u4_IP h)\<lparr>h4_IPProto := UDP\<rparr>;
        let len = length buf - IP4HeaderLength;
        buf \<leftarrow> put16 buf 20 (u4_SrcPort h);
        buf \<leftarrow> put16 buf 22 (u4_DstPort h);
        buf \<leftarrow> put16 buf 24 (of_nat len);
        buf \<leftarrow> put16 buf 26 0;
        (_, buf) \<leftarrow> IP4_marshalPseudo ip buf;
        ps \<leftarrow> slice_from buf 8;
        buf \<leftarrow> put16 buf 26 (ip4Checksum ps);
        (_, buf) \<leftarrow> IP4_Marshal ip buf;
        Some (None, buf)
      })"

definition UDP4_ToResponse :: "UDP4Header \<Rightarrow> UDP4Header" where
  "UDP4_ToResponse h =
     h\<lparr>u4_SrcPort := u4_DstPort h, u4_DstPort := u4_SrcPort h, u4_IP := IP4_ToResponse (u4_IP h)\<rparr>"

record UDP6Header =
  u6_IP :: IP6Header
  u6_SrcPort :: u16
  u6_DstPort :: u16

definition UDP6_Marshal :: "UDP6Header \<Rightarrow> bytes \<Rightarrow> marshalled" where
  "UDP6_Marshal h buf =
     (if length buf < IP6HeaderLength + udpHeaderLength then Some (Some ErrSmallBuffer, buf)
      else if length buf > maxPacketLength then Some (Some ErrLargePacket, buf)
      else do {
        let ip = (u6_IP h)\<lparr>h6_IPProto := UDP\<rparr>;
        let len = length buf - IP6HeaderLength;
        buf \<leftarrow> put16 buf 40 (u6_SrcPort h);
        buf \<leftarrow> put16 buf 42 (u6_DstPort h);
        buf \<leftarrow> put16 buf 44 (of_nat len);
        buf \<leftarrow> put16 buf 46 0;
        (_, buf) \<leftarrow> IP6_marshalPseudo ip buf UDP;
        buf \<leftarrow> put16 buf 46 (ip4Checksum buf);
        (_, buf) \<leftarrow> IP6_Marshal ip buf;
        Some (None, buf)
      })"

definition UDP6_ToResponse :: "UDP6Header \<Rightarrow> UDP6Header" where
  "UDP6_ToResponse h =
     h\<lparr>u6_SrcPort := u6_DstPort h, u6_DstPort := u6_SrcPort h, u6_IP := IP6_ToResponse (u6_IP h)\<rparr>"

subsection \<open>ICMP\<close>

record ICMP4Header =
  i4_IP :: IP4Header
  i4_Type :: u8
  i4_Code :: u8

definition ICMP4_Marshal :: "ICMP4Header \<Rightarrow> bytes \<Rightarrow> marshalled" where
  "ICMP4_Marshal h buf =
     (if length buf < IP4HeaderLength + icmp4HeaderLength then Some (Some ErrSmallBuffer, buf)
      else if length buf > maxPacketLength then Some (Some ErrLargePacket, buf)
      else do {
        let ip = (i4_IP h)\<lparr>h4_IPProto := ICMPv4\<rparr>;
        buf \<leftarrow> put8 buf 20 (i4_Type h);
        buf \<leftarrow> put8 buf 21 (i4_Code h);
        (_, buf) \<leftarrow> IP4_Marshal ip buf;
        buf \<leftarrow> put16 buf 22 (ip4Checksum buf);
        Some (None, buf)
      })"

definition ICMP4_ToResponse :: "ICMP4Header \<Rightarrow> ICMP4Header" where
  "ICMP4_ToResponse h =
     h\<lparr>i4_Type := ICMP4EchoReply, i4_Code := ICMP4NoCode, i4_IP := IP4_ToResponse (i4_IP h)\<rparr>"

record ICMP6Header =
  i6_IP :: IP6Header
  i6_Type :: u8
  i6_Code :: u8

definition ICMP6_Marshal :: "ICMP6Header \<Rightarrow> bytes \<Rightarrow> marshalled" where
  "ICMP6_Marshal h buf =
     (if length buf < IP6HeaderLength + icmp6HeaderLength then Some (Some ErrSmallBuffer, buf)
      else if length buf > maxPacketLength then Some (Some ErrLargePacket, buf)
      else do {
        let ip = (i6_IP h)\<lparr>h6_IPProto := ICMPv6\<rparr>;
        (_, buf) \<leftarrow> IP6_Marshal ip buf;
        buf \<leftarrow> put8 buf 40 (i6_Type h);
        buf \<leftarrow> put8 buf 41 (i6_Code h);
        buf \<leftarrow> put8 buf 42 0;
        buf \<leftarrow> put8 buf 43 0;
        Some (None, buf)
      })"

definition ICMP6_ToResponse :: "ICMP6Header \<Rightarrow> ICMP6Header" where
  "ICMP6_ToResponse h =
     h\<lparr>i6_Type := ICMP6EchoReply, i6_Code := ICMP6NoCode, i6_IP := IP6_ToResponse (i6_IP h)\<rparr>"

definition icmp6Checksum :: "bytes \<Rightarrow> bytes \<Rightarrow> bytes \<Rightarrow> bytes \<Rightarrow> u16" where
  "icmp6Checksum header src dst payload =
     (let x1 = checksumBytes src 0;
          x2 = checksumBytes dst x1;
          x3 = checksumBytes (be_bytes 4 (unat (of_nat (length header + length payload) :: u32))) x2;
          x4 = checksumBytes [0, 0, 0, ICMPv6] x3;
          x5 = checksumBytes payload x4;
          hdrz = (overlay (replicate icmp6HeaderLength 0) 0 (take icmp6HeaderLength header))[2 := 0, 3 := 0]
      in NOT (checksumBytes hdrz x5))"

definition ICMP6_WriteChecksum :: "ICMP6Header \<Rightarrow> bytes \<Rightarrow> bytes option" where
  "ICMP6_WriteChecksum h p = do {
     hd \<leftarrow> slice p 40 44;
     pay \<leftarrow> slice_from p 44;
     put16 p 42 (icmp6Checksum hd (as16 (h6_Src (i6_IP h))) (as16 (h6_Dst (i6_IP h))) pay)
   }"

subsection \<open>The Header interface and Generate\<close>

datatype header = HIP4 IP4Header | HIP6 IP6Header | HUDP4 UDP4Header | HUDP6 UDP6Header
  | HICMP4 ICMP4Header | HICMP6 ICMP6Header

fun hdr_Len :: "header \<Rightarrow> nat" where
  "hdr_Len (HIP4 _) = IP4HeaderLength"
| "hdr_Len (HIP6 _) = IP6HeaderLength"
| "hdr_Len (HUDP4 _) = IP4HeaderLength + udpHeaderLength"
| "hdr_Len (HUDP6 _) = IP6HeaderLength + udpHeaderLength"
| "hdr_Len (HICMP4 _) = IP4HeaderLength + icmp4HeaderLength"
| "hdr_Len (HICMP6 _) = IP6HeaderLength + icmp6HeaderLength"

fun hdr_Marshal :: "header \<Rightarrow> bytes \<Rightarrow> marshalled" where
  "hdr_Marshal (HIP4 h) = IP4_Marshal h"
| "hdr_Marshal (HIP6 h) = IP6_Marshal h"
| "hdr_Marshal (HUDP4 h) = UDP4_Marshal h"
| "hdr_Marshal (HUDP6 h) = UDP6_Marshal h"
| "hdr_Marshal (HICMP4 h) = ICMP4_Marshal h"
| "hdr_Marshal (HICMP6 h) = ICMP6_Marshal h"

text \<open>Only \<^verbatim>\<open>ICMP6Header\<close> implements \<^verbatim>\<open>HeaderChecksummer\<close>; the error of \<^verbatim>\<open>Marshal\<close> is dropped.\<close>

definition Generate :: "header \<Rightarrow> bytes \<Rightarrow> bytes option" where
  "Generate h payload = do {
     let hlen = hdr_Len h;
     let buf = replicate hlen 0 @ payload;
     (_, buf) \<leftarrow> hdr_Marshal h buf;
     (case h of HICMP6 i \<Rightarrow> ICMP6_WriteChecksum i buf | _ \<Rightarrow> Some buf)
   }"

subsection \<open>Layouts on the wire\<close>

definition ip4_bytes :: "u8 \<Rightarrow> u16 \<Rightarrow> nat \<Rightarrow> bytes \<Rightarrow> bytes \<Rightarrow> u16 \<Rightarrow> bytes" where
  "ip4_bytes proto ident len src dst ck =
     [0x45, 0] @ be_bytes 2 len @ be_bytes 2 (unat ident) @ be_bytes 2 0 @ [64, proto] @
     be_bytes 2 (unat ck) @ src @ dst"

definition ip6_bytes :: "u8 \<Rightarrow> u32 \<Rightarrow> nat \<Rightarrow> bytes \<Rightarrow> bytes \<Rightarrow> bytes" where
  "ip6_bytes proto ident len src dst =
     [0x60] @ tl (be_bytes 4 (unat (ident AND 0x000FFFFF))) @ be_bytes 2 len @ [proto, 64] @ src @ dst"

definition udp_bytes :: "u16 \<Rightarrow> u16 \<Rightarrow> nat \<Rightarrow> u16 \<Rightarrow> bytes" where
  "udp_bytes sp dp len ck =
     be_bytes 2 (unat sp) @ be_bytes 2 (unat dp) @ be_bytes 2 len @ be_bytes 2 (unat ck)"

text \<open>The pseudo headers of RFC 768 and RFC 8200 that transport checksums cover.\<close>

definition pseudo4 :: "bytes \<Rightarrow> bytes \<Rightarrow> u8 \<Rightarrow> nat \<Rightarrow> bytes" where
  "pseudo4 src dst proto len = src @ dst @ [0, proto] @ be_bytes 2 len"

definition pseudo6 :: "bytes \<Rightarrow> bytes \<Rightarrow> u8 \<Rightarrow> nat \<Rightarrow> bytes" where
  "pseudo6 src dst proto len = src @ dst @ be_bytes 4 len @ [0, 0, 0, proto]"

lemma length_ip4_bytes [simp]:
  "length (ip4_bytes p i l s d c) = 12 + length s + length d"
  by (simp add: ip4_bytes_def)

lemma length_ip6_bytes [simp]:
  "length (ip6_bytes p i l s d) = 8 + length s + length d"
  by (simp add: ip6_bytes_def)

lemma length_udp_bytes [simp]: "length (udp_bytes sp dp l c) = 8"
  by (simp add: udp_bytes_def)

lemma length_pseudo4 [simp]: "length (pseudo4 s d p l) = length s + length d + 4"
  by (simp add: pseudo4_def)

lemma length_pseudo6 [simp]: "length (pseudo6 s d p l) = length s + length d + 8"
  by (simp add: pseudo6_def)

lemmas layout_defs = ip4_bytes_def ip6_bytes_def udp_bytes_def pseudo4_def pseudo6_def

subsection \<open>The bytes Marshal writes\<close>

lemma IP4_Marshal_bytes:
  assumes "20 \<le> length buf" "length buf \<le> 65535" "h4_Src h = Addr4 s" "h4_Dst h = Addr4 d"
  defines "hdr \<equiv> ip4_bytes (h4_IPProto h) (h4_IPID h) (length buf) (be_bytes 4 (unat s)) (be_bytes 4 (unat d))"
  shows "IP4_Marshal h buf = Some (None, hdr (ip4Checksum (hdr 0)) @ drop 20 buf)"
proof -
  have "buf \<noteq> []" using assms by auto
  with assms show ?thesis
    by (simp add: IP4_Marshal_def len_defs ip4_bytes_def overlay_simps slice_def cong: bind_weak_cong)
qed

lemma IP4_marshalPseudo_bytes:
  assumes "20 \<le> length buf" "length buf \<le> 65535" "h4_Src h = Addr4 s" "h4_Dst h = Addr4 d"
  shows "IP4_marshalPseudo h buf = Some (None, take 8 buf @
    pseudo4 (be_bytes 4 (unat s)) (be_bytes 4 (unat d)) (h4_IPProto h) (length buf - 20) @ drop 20 buf)"
proof -
  obtain p r where b: "buf = p @ r" and p: "length p = 8"
    using that [of "take 8 buf" "drop 8 buf"] assms(1) by simp
  have r: "12 \<le> length r" "r \<noteq> []" using assms(1) b p by auto
  show ?thesis using assms r p
    by (simp add: b IP4_marshalPseudo_def len_defs pseudo4_def overlay_simps del: of_nat_diff cong: bind_weak_cong)
qed

lemma IP6_Marshal_bytes:
  assumes "40 \<le> length buf" "length buf \<le> 65535"
  shows "IP6_Marshal h buf = Some (None,
    ip6_bytes (h6_IPProto h) (h6_IPID h) (length buf - 40) (as16 (h6_Src h)) (as16 (h6_Dst h)) @ drop 40 buf)"
proof -
  have "buf \<noteq> []" using assms by auto
  moreover obtain x y where "be_bytes 4 (unat (h6_IPID h AND 0x000FFFFF)) = x # y" "length y = 3"
    using length_be_bytes [of 4 "unat (h6_IPID h AND 0x000FFFFF)"]
    by (cases "be_bytes 4 (unat (h6_IPID h AND 0x000FFFFF))") auto
  ultimately show ?thesis using assms
    by (simp add: IP6_Marshal_def len_defs ip6_bytes_def overlay_simps del: of_nat_diff cong: bind_weak_cong)
qed

lemma IP6_marshalPseudo_bytes:
  assumes "40 \<le> length buf" "length buf \<le> 65535"
  shows "IP6_marshalPseudo h buf p = Some (None,
    pseudo6 (as16 (h6_Src h)) (as16 (h6_Dst h)) p (length buf - 40) @ drop 40 buf)"
proof -
  have "buf \<noteq> []" using assms by auto
  then show ?thesis using assms
    by (simp add: IP6_marshalPseudo_def len_defs pseudo6_def overlay_simps del: of_nat_diff cong: bind_weak_cong)
qed

lemma UDP4_Marshal_bytes:
  fixes h :: UDP4Header
  assumes "28 \<le> length buf" "length buf \<le> 65535"
    and "h4_Src (u4_IP h) = Addr4 s" "h4_Dst (u4_IP h) = Addr4 d"
  defines "sb \<equiv> be_bytes 4 (unat s)" and "db \<equiv> be_bytes 4 (unat d)"
  defines "hdr \<equiv> ip4_bytes UDP (h4_IPID (u4_IP h)) (length buf) sb db"
    and "udp \<equiv> udp_bytes (u4_SrcPort h) (u4_DstPort h) (length buf - 20)"
  shows "UDP4_Marshal h buf = Some (None, hdr (ip4Checksum (hdr 0)) @
    udp (ip4Checksum (pseudo4 sb db UDP (length buf - 20) @ udp 0 @ drop 28 buf)) @ drop 28 buf)"
proof -
  obtain p r where b: "buf = p @ r" and p: "length p = 20"
    using that [of "take 20 buf" "drop 20 buf"] assms(1) by simp
  have r: "8 \<le> length r" "r \<noteq> []" "length r \<le> 65515" using assms(1,2) b p by auto
  show ?thesis
    using assms r p
    by (simp add: b UDP4_Marshal_def len_defs udp_bytes_def overlay_simps IP4_marshalPseudo_bytes
        IP4_Marshal_bytes slice_from_def Let_def ac_simps del: of_nat_diff of_nat_add cong: bind_weak_cong)
qed

lemma UDP6_Marshal_bytes:
  fixes h :: UDP6Header
  assumes "48 \<le> length buf" "length buf \<le> 65535"
  defines "sb \<equiv> as16 (h6_Src (u6_IP h))" and "db \<equiv> as16 (h6_Dst (u6_IP h))"
  defines "udp \<equiv> udp_bytes (u6_SrcPort h) (u6_DstPort h) (length buf - 40)"
  shows "UDP6_Marshal h buf = Some (None,
    ip6_bytes UDP (h6_IPID (u6_IP h)) (length buf - 40) sb db @
    udp (ip4Checksum (pseudo6 sb db UDP (length buf - 40) @ udp 0 @ drop 48 buf)) @ drop 48 buf)"
proof -
  obtain p r where b: "buf = p @ r" and p: "length p = 40"
    using that [of "take 40 buf" "drop 40 buf"] assms(1) by simp
  have r: "8 \<le> length r" "r \<noteq> []" "length r \<le> 65495" using assms(1,2) b p by auto
  show ?thesis
    using assms r p
    by (simp add: b UDP6_Marshal_def len_defs udp_bytes_def overlay_simps IP6_marshalPseudo_bytes
        IP6_Marshal_bytes Let_def ac_simps del: of_nat_diff of_nat_add cong: bind_weak_cong)
qed

lemma ICMP4_Marshal_bytes:
  fixes h :: ICMP4Header
  assumes "24 \<le> length buf" "length buf \<le> 65535"
    and "h4_Src (i4_IP h) = Addr4 s" "h4_Dst (i4_IP h) = Addr4 d"
  defines "hdr \<equiv> ip4_bytes ICMPv4 (h4_IPID (i4_IP h)) (length buf) (be_bytes 4 (unat s)) (be_bytes 4 (unat d))"
  defines "ip \<equiv> hdr (ip4Checksum (hdr 0))"
  shows "ICMP4_Marshal h buf = Some (None, ip @ [i4_Type h, i4_Code h] @
    be_bytes 2 (unat (ip4Checksum (ip @ [i4_Type h, i4_Code h] @ drop 22 buf))) @ drop 24 buf)"
proof -
  obtain p r where b: "buf = p @ r" and p: "length p = 20"
    using that [of "take 20 buf" "drop 20 buf"] assms(1) by simp
  have r: "4 \<le> length r" "r \<noteq> []" "length r \<le> 65515" using assms(1,2) b p by auto
  show ?thesis
    using assms r p
    by (simp add: b ICMP4_Marshal_def len_defs overlay_simps drop_Suc_numerals
        IP4_Marshal_bytes Let_def ac_simps del: of_nat_diff of_nat_add cong: bind_weak_cong)
qed

lemma ICMP6_Marshal_bytes:
  fixes h :: ICMP6Header
  assumes "44 \<le> length buf" "length buf \<le> 65535"
  shows "ICMP6_Marshal h buf = Some (None,
    ip6_bytes ICMPv6 (h6_IPID (i6_IP h)) (length buf - 40) (as16 (h6_Src (i6_IP h))) (as16 (h6_Dst (i6_IP h))) @
    [i6_Type h, i6_Code h, 0, 0] @ drop 44 buf)"
proof -
  have "drop 40 buf \<noteq> []" using assms by simp
  then show ?thesis using assms
    by (simp add: ICMP6_Marshal_def len_defs overlay_simps
        IP6_Marshal_bytes Let_def del: of_nat_diff of_nat_add cong: bind_weak_cong)
qed

subsection \<open>Receivers accept the checksums\<close>

lemma ip4_bytes_verifies:
  assumes "length s = 4" "length d = 4"
  shows "ip4Checksum (ip4_bytes p i l s d (ip4Checksum (ip4_bytes p i l s d 0))) = 0"
proof -
  have *: "ip4_bytes p i l s d c =
    ([0x45, 0] @ be_bytes 2 l @ be_bytes 2 (unat i) @ be_bytes 2 0 @ [64, p]) @ be_bytes 2 (unat c) @ (s @ d)" for c
    by (simp add: ip4_bytes_def)
  show ?thesis
    unfolding * [of "ip4Checksum _"]
    by (rule checksum_inserted_verifies) (simp_all add: assms * be_bytes_2)
qed

lemma sum16_ip4_bytes:
  assumes "length s = 4" "length d = 4"
    and "h = ip4_bytes p i l s d (ip4Checksum (ip4_bytes p i l s d 0))"
  shows "0 < sum16 h" "65535 dvd sum16 h"
  using ip4_bytes_verifies [of s d p i l] ip4Checksum_zero_iff [of h] assms by auto

lemma udp_bytes_verifies:
  assumes "even (length ps)" "length (ps @ udp_bytes sp dp l 0 @ pay) \<le> 131070"
  shows "ip4Checksum (ps @ udp_bytes sp dp l (ip4Checksum (ps @ udp_bytes sp dp l 0 @ pay)) @ pay) = 0"
proof -
  have *: "ps @ udp_bytes sp dp l c @ pay =
    (ps @ be_bytes 2 (unat sp) @ be_bytes 2 (unat dp) @ be_bytes 2 l) @ be_bytes 2 (unat c) @ pay" for c
    by (simp add: udp_bytes_def)
  show ?thesis
    unfolding * [of "ip4Checksum _"]
    by (rule checksum_inserted_verifies) (use assms in \<open>simp_all add: * be_bytes_2\<close>)
qed

lemma icmp4_verifies:
  assumes h: "0 < sum16 ip" "65535 dvd sum16 ip" "even (length ip)"
    and len: "length (ip @ [t, c, 0, 0] @ pay) \<le> 131070" and nz: "0 < sum16 ([t, c, 0, 0] @ pay)"
    and x: "x = ip4Checksum (ip @ [t, c, 0, 0] @ pay)"
  shows "ip4Checksum ([t, c] @ be_bytes 2 (unat x) @ pay) = 0"
proof -
  have "ip4Checksum ((ip @ [t, c]) @ be_bytes 2 (unat x) @ pay) = 0"
    using h(3) len x by (intro checksum_inserted_verifies) simp_all
  then have "65535 dvd sum16 ip + sum16 ([t, c] @ be_bytes 2 (unat x) @ pay)"
    using len h(3) by (simp add: ip4Checksum_zero_iff sum16_append)
  with h(2) have "65535 dvd sum16 ([t, c] @ be_bytes 2 (unat x) @ pay)"
    by (simp add: dvd_add_right_iff)
  moreover have "0 < sum16 ([t, c] @ be_bytes 2 (unat x) @ pay)"
    using nz by (auto simp: sum16_append sum16_be_bytes)
  ultimately show ?thesis using len by (simp add: ip4Checksum_zero_iff)
qed

lemma icmp6Checksum_eq:
  assumes "length pay \<le> 65535"
  shows "icmp6Checksum [t, c, a, b] src dst pay = NOT (checksumBytes [t, c, 0, 0] (checksumBytes pay
      (checksumBytes [0, 0, 0, ICMPv6] (checksumBytes (be_bytes 4 (4 + length pay)) (checksumBytes dst (checksumBytes src 0))))))"
proof -
  have l: "unat (of_nat (4 + length pay) :: u32) = 4 + length pay"
    using assms by (subst unat_of_nat_u32) simp_all
  have h: "(overlay (replicate icmp6HeaderLength 0) 0 (take icmp6HeaderLength [t, c, a, b]))[2 := 0, 3 := 0] = [t, c, 0, 0]"
    by (simp add: overlay_def len_defs eval_nat_numeral)
  have k: "length [t, c, a, b] + length pay = 4 + length pay" by simp
  show ?thesis by (simp only: icmp6Checksum_def Let_def h k l)
qed

lemma unat_icmp6Checksum:
  assumes "length src = 16" "length dst = 16" "even (length pay)" "length pay \<le> 65535"
  shows "unat (icmp6Checksum [t, c, a, b] src dst pay) =
    65535 - oc (sum16 (pseudo6 src dst ICMPv6 (4 + length pay) @ [t, c, 0, 0] @ pay))"
  using assms
  by (simp add: icmp6Checksum_eq unat_not_u16 unat_checksumBytes oc_idem_add sum16_append pseudo6_def)
    (simp add: ac_simps)

lemma unat_icmp6Checksum_odd:
  assumes "length src = 16" "length dst = 16" "odd (length pay)" "length pay \<le> 65535"
  shows "unat (icmp6Checksum [t, c, a, b] src dst pay) =
    65535 - oc (sum16 (pseudo6 src dst ICMPv6 (4 + length pay) @ [t, c, 0, 0]) + odd_sum pay)"
  using assms
  by (simp add: icmp6Checksum_eq unat_not_u16 unat_checksumBytes oc_idem_add sum16_append pseudo6_def)
    (simp add: ac_simps)

lemma icmp6_odd_verifies_iff:
  assumes "length src = 16" "length dst = 16" "odd (length pay)" "length pay \<le> 65535"
    and x: "x = icmp6Checksum [t, c, a, b] src dst pay"
  defines "ps \<equiv> pseudo6 src dst ICMPv6 (4 + length pay)"
  shows "ip4Checksum (ps @ [t, c] @ be_bytes 2 (unat x) @ pay) = 0 \<longleftrightarrow>
    odd_sum pay mod 65535 = sum16 pay mod 65535"
proof -
  let ?B = "sum16 (ps @ [t, c, 0, 0])"
  have k: "unat x = 65535 - oc (?B + odd_sum pay)"
    using assms by (simp add: unat_icmp6Checksum_odd)
  have s: "sum16 (ps @ [t, c] @ be_bytes 2 (unat x) @ pay) = (?B + sum16 pay) + unat x"
    using assms(1-4) by (simp add: ps_def sum16_append sum16_be_bytes)
  have l: "length (ps @ [t, c] @ be_bytes 2 (unat x) @ pay) \<le> 131070"
    using assms(1-4) by (simp add: ps_def)
  have "0 < ?B" using assms(1-2) by (simp add: ps_def pseudo6_def sum16_append ICMPv6_def)
  then have "ip4Checksum (ps @ [t, c] @ be_bytes 2 (unat x) @ pay) = 0 \<longleftrightarrow> 65535 dvd (?B + sum16 pay) + unat x"
    using s ip4Checksum_zero_iff [of "ps @ [t, c] @ be_bytes 2 (unat x) @ pay"] l by simp
  also have "\<dots> \<longleftrightarrow> (?B + sum16 pay) mod 65535 = (?B + odd_sum pay) mod 65535"
    using dvd_checksum_sum [of "?B + odd_sum pay"] by (intro dvd_sum_cancel) (simp add: k)
  also have "\<dots> \<longleftrightarrow> odd_sum pay mod 65535 = sum16 pay mod 65535"
    by (subst mod_add_cancel) (rule eq_commute)
  finally show ?thesis .
qed

lemma icmp6_verifies:
  assumes "length src = 16" "length dst = 16" "even (length pay)" "length pay \<le> 65535"
    and x: "x = icmp6Checksum [t, c, a, b] src dst pay"
  defines "ps \<equiv> pseudo6 src dst ICMPv6 (4 + length pay)"
  shows "ip4Checksum (ps @ [t, c] @ be_bytes 2 (unat x) @ pay) = 0"
proof -
  have "unat x = unat (ip4Checksum ((ps @ [t, c]) @ [0, 0] @ pay))"
    using assms by (simp add: unat_icmp6Checksum unat_ip4Checksum)
  then have "x = ip4Checksum ((ps @ [t, c]) @ [0, 0] @ pay)"
    by (simp add: unsigned_word_eqI)
  then show ?thesis
    using checksum_inserted_verifies [of "ps @ [t, c]" pay x] assms by simp
qed

lemma ICMP4_Generate_bytes:
  assumes "length pay \<le> 65511" "h4_Src (i4_IP h) = Addr4 s" "h4_Dst (i4_IP h) = Addr4 d"
  obtains c x where "Generate (HICMP4 h) pay = Some (ip4_bytes ICMPv4 (h4_IPID (i4_IP h)) (24 + length pay)
      (be_bytes 4 (unat s)) (be_bytes 4 (unat d)) c @ [i4_Type h, i4_Code h] @ be_bytes 2 x @ pay)"
    and "ip4Checksum (ip4_bytes ICMPv4 (h4_IPID (i4_IP h)) (24 + length pay) (be_bytes 4 (unat s)) (be_bytes 4 (unat d)) c) = 0"
    and "0 < sum16 ([i4_Type h, i4_Code h] @ pay) \<longrightarrow> ip4Checksum ([i4_Type h, i4_Code h] @ be_bytes 2 x @ pay) = 0"
proof -
  have r: "replicate (Suc (Suc 0)) 0 = [0, 0 :: u8]" "replicate 2 0 = [0, 0 :: u8]"
    by (simp_all add: numeral_2_eq_2)
  let ?hdr = "ip4_bytes ICMPv4 (h4_IPID (i4_IP h)) (24 + length pay) (be_bytes 4 (unat s)) (be_bytes 4 (unat d))"
  let ?ip = "?hdr (ip4Checksum (?hdr 0))"
  let ?x = "ip4Checksum (?ip @ [i4_Type h, i4_Code h, 0, 0] @ pay)"
  show ?thesis
  proof (rule that [of "ip4Checksum (?hdr 0)" "unat ?x"])
    show "Generate (HICMP4 h) pay = Some (?ip @ [i4_Type h, i4_Code h] @ be_bytes 2 (unat ?x) @ pay)"
      using assms by (simp add: Generate_def len_defs ICMP4_Marshal_bytes r)
    show "ip4Checksum ?ip = 0" by (simp add: ip4_bytes_verifies)
    show "0 < sum16 ([i4_Type h, i4_Code h] @ pay) \<longrightarrow> ip4Checksum ([i4_Type h, i4_Code h] @ be_bytes 2 (unat ?x) @ pay) = 0"
      using icmp4_verifies [OF sum16_ip4_bytes [OF _ _ refl] _ _ _ refl, of "be_bytes 4 (unat s)" "be_bytes 4 (unat d)"
          ICMPv4 "h4_IPID (i4_IP h)" "24 + length pay" "i4_Type h" "i4_Code h" pay] assms(1) by simp
  qed
qed

subsection \<open>Correctness of Marshal and Generate\<close>

text \<open>
  C15: \<^verbatim>\<open>IP4Header.Marshal\<close> never panics; it succeeds exactly on a buffer of 20 to 65535 bytes with
  IPv4 endpoints and leaves the buffer alone otherwise; on success the 20 header bytes carry a
  valid header checksum, and the bytes after the header are untouched.
\<close>

theorem IP4_Marshal_correct:
  "\<exists>e out. IP4_Marshal h buf = Some (e, out) \<and> drop 20 out = drop 20 buf \<and> length out = length buf \<and>
     (e = None \<longleftrightarrow> 20 \<le> length buf \<and> length buf \<le> 65535 \<and> is4 (h4_Src h) \<and> is4 (h4_Dst h)) \<and>
     (if e = None then ip4Checksum (take 20 out) = 0 else out = buf)"
proof (cases "20 \<le> length buf \<and> length buf \<le> 65535 \<and> is4 (h4_Src h) \<and> is4 (h4_Dst h)")
  case True
  then obtain s d where "h4_Src h = Addr4 s" "h4_Dst h = Addr4 d"
    by (auto simp: is4_def split: addr.splits)
  with True show ?thesis
    by (simp add: IP4_Marshal_bytes ip4_bytes_verifies)
next
  case False
  then show ?thesis by (auto simp: IP4_Marshal_def len_defs)
qed

text \<open>
  C25: A UDP packet generated over IPv4 keeps its payload, and a receiver accepts both of its
  checksums: the header checksum, and the UDP checksum over the RFC 768 pseudo header.
\<close>

theorem UDP4_Generate_verifies:
  assumes "length pay \<le> 65507" "h4_Src (u4_IP h) = Addr4 s" "h4_Dst (u4_IP h) = Addr4 d"
  shows "\<exists>out. Generate (HUDP4 h) pay = Some out \<and> drop 28 out = pay \<and> length out = 28 + length pay \<and>
    ip4Checksum (take 20 out) = 0 \<and>
    ip4Checksum (pseudo4 (be_bytes 4 (unat s)) (be_bytes 4 (unat d)) UDP (8 + length pay) @ drop 20 out) = 0"
  using assms
  by (simp add: Generate_def len_defs UDP4_Marshal_bytes ip4_bytes_verifies udp_bytes_verifies)

theorem UDP4_Generate_verifies_witness:
  "\<exists>out. Generate (HUDP4 \<lparr>u4_IP = \<lparr>h4_IPProto = 0, h4_IPID = 7, h4_Src = Addr4 0x0A000001, h4_Dst = Addr4 0x08080808\<rparr>,
      u4_SrcPort = 5353, u4_DstPort = 53\<rparr>) [1, 2, 3] = Some out \<and> drop 28 out = [1, 2, 3] \<and> ip4Checksum (take 20 out) = 0"
  using UDP4_Generate_verifies [where pay = "[1, 2, 3]" and s = "0x0A000001" and d = "0x08080808" and h = "\<lparr>u4_IP = \<lparr>h4_IPProto = 0, h4_IPID = 7, h4_Src = Addr4 0x0A000001,
      h4_Dst = Addr4 0x08080808\<rparr>, u4_SrcPort = 5353, u4_DstPort = 53\<rparr>"] by auto

text \<open>
  A UDP packet generated over IPv6 keeps its payload, and a receiver accepts its checksum over
  the RFC 8200 pseudo header; IPv4 endpoints are written in their mapped form.
\<close>

theorem UDP6_Generate_verifies:
  assumes "length pay \<le> 65487"
  shows "\<exists>out. Generate (HUDP6 h) pay = Some out \<and> drop 48 out = pay \<and> length out = 48 + length pay \<and>
    ip4Checksum (pseudo6 (as16 (h6_Src (u6_IP h))) (as16 (h6_Dst (u6_IP h))) UDP (8 + length pay) @ drop 40 out) = 0"
  using assms
  by (simp add: Generate_def len_defs UDP6_Marshal_bytes udp_bytes_verifies)

theorem UDP6_Generate_verifies_witness:
  "\<exists>out. Generate (HUDP6 \<lparr>u6_IP = \<lparr>h6_IPProto = 0, h6_IPID = 7, h6_Src = Addr6 1, h6_Dst = Addr6 2\<rparr>,
      u6_SrcPort = 5353, u6_DstPort = 53\<rparr>) [1, 2, 3] = Some out \<and> drop 48 out = [1, 2, 3]"
  using UDP6_Generate_verifies [of "[1, 2, 3]" "\<lparr>u6_IP = \<lparr>h6_IPProto = 0, h6_IPID = 7, h6_Src = Addr6 1,
      h6_Dst = Addr6 2\<rparr>, u6_SrcPort = 5353, u6_DstPort = 53\<rparr>"] by auto

text \<open>
  C26: An ICMPv4 message with some non-zero byte, generated over IPv4: \<^verbatim>\<open>Marshal\<close> sums the IP header
  into the ICMP checksum too, and a receiver that sums the message alone still accepts it.
\<close>

theorem ICMP4_Generate_verifies:
  assumes "length pay \<le> 65511" "h4_Src (i4_IP h) = Addr4 s" "h4_Dst (i4_IP h) = Addr4 d"
    and "0 < sum16 ([i4_Type h, i4_Code h] @ pay)"
  shows "\<exists>out. Generate (HICMP4 h) pay = Some out \<and> drop 24 out = pay \<and> length out = 24 + length pay \<and>
    ip4Checksum (take 20 out) = 0 \<and> ip4Checksum (drop 20 out) = 0"
proof -
  obtain c x where "Generate (HICMP4 h) pay = Some (ip4_bytes ICMPv4 (h4_IPID (i4_IP h)) (24 + length pay)
      (be_bytes 4 (unat s)) (be_bytes 4 (unat d)) c @ [i4_Type h, i4_Code h] @ be_bytes 2 x @ pay)"
    and "ip4Checksum (ip4_bytes ICMPv4 (h4_IPID (i4_IP h)) (24 + length pay) (be_bytes 4 (unat s)) (be_bytes 4 (unat d)) c) = 0"
    and "ip4Checksum ([i4_Type h, i4_Code h] @ be_bytes 2 x @ pay) = 0"
    using ICMP4_Generate_bytes [OF assms(1-3)] assms(4) by blast
  then show ?thesis by simp
qed

theorem ICMP4_Generate_verifies_witness:
  "\<exists>out. Generate (HICMP4 \<lparr>i4_IP = \<lparr>h4_IPProto = 0, h4_IPID = 7, h4_Src = Addr4 1, h4_Dst = Addr4 2\<rparr>,
      i4_Type = 8, i4_Code = 0\<rparr>) [1, 2, 3] = Some out \<and> drop 24 out = [1, 2, 3] \<and> ip4Checksum (drop 20 out) = 0"
  using ICMP4_Generate_verifies [where pay = "[1, 2, 3]" and s = 1 and d = 2 and h = "\<lparr>i4_IP = \<lparr>h4_IPProto = 0,
      h4_IPID = 7, h4_Src = Addr4 1, h4_Dst = Addr4 2\<rparr>, i4_Type = 8, i4_Code = 0\<rparr>"] by auto

text \<open>
  An all-zero ICMPv4 message (an echo reply with zero identifier, sequence and payload) is
  generated with checksum 0x0000 where a receiver expects 0xffff: the header's own sum of 0xffff
  folds into the checksum.
\<close>

theorem ICMP4_Generate_zero_message:
  assumes "length pay \<le> 65511" "h4_Src (i4_IP h) = Addr4 s" "h4_Dst (i4_IP h) = Addr4 d"
    and "i4_Type h = 0" "i4_Code h = 0" "sum16 pay = 0"
  shows "\<exists>out. Generate (HICMP4 h) pay = Some out \<and> take 4 (drop 20 out) = [0, 0, 0, 0] \<and>
    ip4Checksum (drop 20 out) = 0xffff"
proof -
  have r: "replicate (Suc (Suc 0)) 0 = [0, 0 :: u8]" "replicate 2 0 = [0, 0 :: u8]"
    by (simp_all add: numeral_2_eq_2)
  let ?hdr = "ip4_bytes ICMPv4 (h4_IPID (i4_IP h)) (24 + length pay) (be_bytes 4 (unat s)) (be_bytes 4 (unat d))"
  let ?ip = "?hdr (ip4Checksum (?hdr 0))"
  have "ip4Checksum (?ip @ 0 # 0 # 0 # 0 # pay) = 0"
    using assms sum16_ip4_bytes [of "be_bytes 4 (unat s)" "be_bytes 4 (unat d)" ?ip]
    by (simp add: ip4Checksum_zero_iff sum16_append)
  moreover have "unat (ip4Checksum (0 # 0 # 0 # 0 # pay)) = unat (0xffff :: u16)"
    using assms by (simp add: unat_ip4Checksum oc_def)
  then have "ip4Checksum (0 # 0 # 0 # 0 # pay) = 0xffff" by (simp only: unsigned_word_eqI)
  ultimately show ?thesis
    using assms by (simp add: Generate_def len_defs ICMP4_Marshal_bytes r be_bytes_2)
qed

theorem ICMP4_Generate_zero_message_witness:
  "\<exists>out. Generate (HICMP4 \<lparr>i4_IP = \<lparr>h4_IPProto = 0, h4_IPID = 7, h4_Src = Addr4 1, h4_Dst = Addr4 2\<rparr>,
      i4_Type = 0, i4_Code = 0\<rparr>) [0, 0, 0, 0] = Some out \<and> ip4Checksum (drop 20 out) = 0xffff"
  using ICMP4_Generate_zero_message [where pay = "[0, 0, 0, 0]" and s = 1 and d = 2 and h = "\<lparr>i4_IP = \<lparr>h4_IPProto = 0,
      h4_IPID = 7, h4_Src = Addr4 1, h4_Dst = Addr4 2\<rparr>, i4_Type = 0, i4_Code = 0\<rparr>"] by auto

text \<open>
  An ICMPv6 message with an even payload, generated over IPv6: a receiver accepts the checksum
  that \<^verbatim>\<open>WriteChecksum\<close> fills in after \<^verbatim>\<open>Marshal\<close>, over the RFC 8200 pseudo header.
\<close>

theorem ICMP6_Generate_verifies:
  assumes "length pay \<le> 65491" "even (length pay)"
  shows "\<exists>out. Generate (HICMP6 h) pay = Some out \<and> drop 44 out = pay \<and> length out = 44 + length pay \<and>
    ip4Checksum (pseudo6 (as16 (h6_Src (i6_IP h))) (as16 (h6_Dst (i6_IP h))) ICMPv6 (4 + length pay) @ drop 40 out) = 0"
  using assms icmp6_verifies [OF _ _ _ _ refl, of "as16 (h6_Src (i6_IP h))" "as16 (h6_Dst (i6_IP h))" pay "i6_Type h" "i6_Code h" 0 0]
  by (simp add: Generate_def len_defs ICMP6_Marshal_bytes ICMP6_WriteChecksum_def slice_def slice_from_def overlay_simps)

theorem ICMP6_Generate_verifies_witness:
  "\<exists>out. Generate (HICMP6 \<lparr>i6_IP = \<lparr>h6_IPProto = 0, h6_IPID = 7, h6_Src = Addr6 1, h6_Dst = Addr6 2\<rparr>,
      i6_Type = 128, i6_Code = 0\<rparr>) [1, 2, 3, 4] = Some out \<and> drop 44 out = [1, 2, 3, 4]"
  using ICMP6_Generate_verifies [where pay = "[1, 2, 3, 4]" and h = "\<lparr>i6_IP = \<lparr>h6_IPProto = 0,
      h6_IPID = 7, h6_Src = Addr6 1, h6_Dst = Addr6 2\<rparr>, i6_Type = 128, i6_Code = 0\<rparr>"] by auto

text \<open>
  C40: With an odd payload the checksum that \<^verbatim>\<open>WriteChecksum\<close> fills in is accepted only when adding the
  first byte to the low half of a word gives the same one's complement sum as padding the last one:
  \<^verbatim>\<open>checksumBytes\<close> misaligns every word of an odd buffer.
\<close>

theorem ICMP6_Generate_odd:
  assumes "length pay \<le> 65491" "odd (length pay)"
  shows "\<exists>out. Generate (HICMP6 h) pay = Some out \<and>
    (ip4Checksum (pseudo6 (as16 (h6_Src (i6_IP h))) (as16 (h6_Dst (i6_IP h))) ICMPv6 (4 + length pay) @ drop 40 out) = 0
      \<longleftrightarrow> odd_sum pay mod 65535 = sum16 pay mod 65535)"
  using assms icmp6_odd_verifies_iff [OF _ _ _ _ refl, of "as16 (h6_Src (i6_IP h))" "as16 (h6_Dst (i6_IP h))" pay "i6_Type h" "i6_Code h" 0 0]
  by (simp add: Generate_def len_defs ICMP6_Marshal_bytes ICMP6_WriteChecksum_def slice_def slice_from_def overlay_simps)

theorem ICMP6_Generate_odd_witness:
  "\<exists>out. Generate (HICMP6 \<lparr>i6_IP = \<lparr>h6_IPProto = 0, h6_IPID = 7, h6_Src = Addr6 1, h6_Dst = Addr6 2\<rparr>,
      i6_Type = 128, i6_Code = 0\<rparr>) [1] = Some out \<and>
    ip4Checksum (pseudo6 (as16 (Addr6 1)) (as16 (Addr6 2)) ICMPv6 5 @ drop 40 out) \<noteq> 0"
  using ICMP6_Generate_odd [where pay = "[1]" and h = "\<lparr>i6_IP = \<lparr>h6_IPProto = 0,
      h6_IPID = 7, h6_Src = Addr6 1, h6_Dst = Addr6 2\<rparr>, i6_Type = 128, i6_Code = 0\<rparr>"] by (auto simp: odd_sum_def)

end
