(* ===== verification/Parsed.thy ===== *)
theory Parsed
  imports Headers
begin

text \<open>
  Packet decoding and rewriting of \<^verbatim>\<open>intra/core/wire\<close> (parsed.go, xsum.go) and the echo responder of
  \<^verbatim>\<open>intra/netstack/icmpecho.go\<close>. \<^verbatim>\<open>Parsed\<close> is a record whose fields survive from one packet to the
  next (the structs are pooled), so every operation takes the previous record; \<open>None\<close> is a panic.
  The lemmas: decoding an untruncated packet never panics, does not depend on the pooled record,
  inverts \<^verbatim>\<open>Generate\<close>, and address rewriting keeps valid checksums valid.
\<close>

subsection \<open>State\<close>

record CaptureMeta =
  cm_DidSNAT :: bool
  cm_OriginalSrc :: addrport
  cm_DidDNAT :: bool
  cm_OriginalDst :: addrport

definition empty_meta :: CaptureMeta where
  "empty_meta = \<lparr>cm_DidSNAT = False, cm_OriginalSrc = (AddrZero, 0), cm_DidDNAT = False, cm_OriginalDst = (AddrZero, 0)\<rparr>"

record Parsed =
  p_b :: bytes
  p_subofs :: nat
  p_dataofs :: nat
  p_length :: nat
  p_trunc :: bool
  p_IPVersion :: u8
  p_IPProto :: u8
  p_Src :: addrport
  p_Dst :: addrport
  p_TCPFlags :: u8
  p_CaptureMeta :: CaptureMeta

definition new_Parsed :: Parsed where
  "new_Parsed = \<lparr>p_b = [], p_subofs = 0, p_dataofs = 0, p_length = 0, p_trunc = False, p_IPVersion = 0,
     p_IPProto = UnknownProto, p_Src = (AddrZero, 0), p_Dst = (AddrZero, 0), p_TCPFlags = 0,
     p_CaptureMeta = empty_meta\<rparr>"

definition pool_put :: "Parsed \<Rightarrow> Parsed" where
  \<comment> \<open>what \<^verbatim>\<open>Pool.Put\<close> leaves of the struct that a later \<^verbatim>\<open>Pool.Get\<close> hands out\<close>
  "pool_put q = q\<lparr>p_b := []\<rparr>"

definition TCPSyn :: u8 where "TCPSyn = 0x02"
definition TCPAck :: u8 where "TCPAck = 0x10"
definition TCPSynAck :: u8 where "TCPSynAck = TCPSyn OR TCPAck"
definition TCPFlagsOffset :: nat where "TCPFlagsOffset = 13"
definition MinTCPHeaderSize :: nat where "MinTCPHeaderSize = 20"
definition minFragBlks :: nat where "minFragBlks = (60 + MinTCPHeaderSize) div 8"

definition withIP :: "addrport \<Rightarrow> addr \<Rightarrow> addrport" where
  "withIP ap ip = (ip, snd ap)"

definition withPort :: "addrport \<Rightarrow> u16 \<Rightarrow> addrport" where
  "withPort ap port = (fst ap, port)"

subsection \<open>Decoding\<close>

definition set_unknown :: "Parsed \<Rightarrow> Parsed" where
  "set_unknown q = q\<lparr>p_IPProto := UnknownProto\<rparr>"

definition with_ports :: "Parsed \<Rightarrow> bytes \<Rightarrow> Parsed option" where
  "with_ports q sub = do {
     sp \<leftarrow> get16 sub 0;
     dp \<leftarrow> get16 sub 2;
     Some (q\<lparr>p_Src := withPort (p_Src q) sp, p_Dst := withPort (p_Dst q) dp\<rparr>)
   }"

text \<open>The case analysis on the protocol of a first (or only) IPv4 fragment.\<close>

definition decode4_first :: "Parsed \<Rightarrow> bytes \<Rightarrow> bool \<Rightarrow> Parsed option" where
  "decode4_first q sub moreFrags =
     (if p_IPProto q = ICMPv4 then
        if length sub < icmp4HeaderLength then Some (set_unknown q)
        else Some (q\<lparr>p_Src := withPort (p_Src q) 0, p_Dst := withPort (p_Dst q) 0,
                     p_dataofs := p_subofs q + icmp4HeaderLength\<rparr>)
      else if p_IPProto q = IGMP then
        if length sub < igmpHeaderLength then Some (set_unknown q) else Some q
      else if p_IPProto q = TCP then
        if length sub < tcpHeaderLength then Some (set_unknown q)
        else do {
          q \<leftarrow> with_ports q sub;
          fl \<leftarrow> get8 sub TCPFlagsOffset;
          off \<leftarrow> get8 sub 12;
          Some (q\<lparr>p_TCPFlags := fl, p_dataofs := p_subofs q + unat (drop_bit 2 (off AND 0xF0))\<rparr>)
        }
      else if p_IPProto q = UDP then
        if length sub < udpHeaderLength then Some (set_unknown q)
        else do {
          q \<leftarrow> with_ports q sub;
          Some (q\<lparr>p_dataofs := p_subofs q + udpHeaderLength\<rparr>)
        }
      else if p_IPProto q = SCTP then
        if length sub < sctpHeaderLength then Some (set_unknown q) else with_ports q sub
      else if p_IPProto q = TSMP then
        if moreFrags then Some (set_unknown q) else Some (q\<lparr>p_dataofs := p_subofs q\<rparr>)
      else if p_IPProto q = Fragment then Some (set_unknown q)
      else Some q)"

definition decode4 :: "Parsed \<Rightarrow> bytes \<Rightarrow> Parsed option" where
  "decode4 q b =
     (if length b < IP4HeaderLength then Some (q\<lparr>p_IPVersion := 0, p_IPProto := UnknownProto\<rparr>)
      else do {
        proto \<leftarrow> get8 b 9;
        len \<leftarrow> get16 b 2;
        let q = q\<lparr>p_IPProto := proto, p_length := unat len\<rparr>;
        (if \<not> p_trunc q \<and> length b < p_length q then Some (set_unknown q)
         else do {
           src \<leftarrow> slice b 12 16;
           dst \<leftarrow> slice b 16 20;
           let q = q\<lparr>p_Src := withIP (p_Src q) (addr_from4 src), p_Dst := withIP (p_Dst q) (addr_from4 dst)\<rparr>;
           b0 \<leftarrow> get8 b 0;
           let q = q\<lparr>p_subofs := unat (push_bit 2 (b0 AND 0x0F))\<rparr>;
           (if p_length q < p_subofs q then Some (set_unknown q)
            else do {
              sub \<leftarrow> slice_from b (p_subofs q);
              fragFlags \<leftarrow> get16 b 6;
              let moreFrags = (fragFlags AND 0x2000 \<noteq> 0);
              let fragOfs = fragFlags AND 0x1FFF;
              (if fragOfs = 0 then decode4_first q sub moreFrags
               else if unat fragOfs < minFragBlks then Some (set_unknown q)
               else Some (q\<lparr>p_IPProto := Fragment\<rparr>))
            })
         })
      })"

definition decode6_sub :: "Parsed \<Rightarrow> bytes \<Rightarrow> Parsed option" where
  "decode6_sub q sub =
     (if p_IPProto q = ICMPv6 then
        if length sub < icmp6HeaderLength then Some (set_unknown q)
        else Some (q\<lparr>p_Src := withPort (p_Src q) 0, p_Dst := withPort (p_Dst q) 0,
                     p_dataofs := p_subofs q + icmp6HeaderLength\<rparr>)
      else if p_IPProto q = TCP then
        if length sub < tcpHeaderLength then Some (set_unknown q)
        else do {
          q \<leftarrow> with_ports q sub;
          fl \<leftarrow> get8 sub 13;
          off \<leftarrow> get8 sub 12;
          Some (q\<lparr>p_TCPFlags := fl, p_dataofs := p_subofs q + unat (drop_bit 2 (off AND 0xF0))\<rparr>)
        }
      else if p_IPProto q = UDP then
        if length sub < udpHeaderLength then Some (set_unknown q)
        else do {
          q \<leftarrow> with_ports q sub;
          Some (q\<lparr>p_dataofs := p_subofs q + udpHeaderLength\<rparr>)
        }
      else if p_IPProto q = SCTP then
        if length sub < sctpHeaderLength then Some (set_unknown q) else with_ports q sub
      else if p_IPProto q = TSMP then Some (q\<lparr>p_dataofs := p_subofs q\<rparr>)
      else if p_IPProto q = Fragment then Some (set_unknown q)
      else Some q)"

definition decode6 :: "Parsed \<Rightarrow> bytes \<Rightarrow> Parsed option" where
  "decode6 q b =
     (if length b < IP6HeaderLength then Some (q\<lparr>p_IPVersion := 0, p_IPProto := UnknownProto\<rparr>)
      else do {
        proto \<leftarrow> get8 b 6;
        len \<leftarrow> get16 b 4;
        let q = q\<lparr>p_IPProto := proto, p_length := unat len + IP6HeaderLength\<rparr>;
        (if \<not> p_trunc q \<and> length b < p_length q then Some (set_unknown q)
         else do {
           src \<leftarrow> slice b 8 24;
           dst \<leftarrow> slice b 24 40;
           let q = q\<lparr>p_Src := withIP (p_Src q) (fst (addr_from_slice src)),
                     p_Dst := withIP (p_Dst q) (fst (addr_from_slice dst)),
                     p_subofs := IP6HeaderLength\<rparr>;
           sub \<leftarrow> slice_from b (p_subofs q);
           decode6_sub q sub
         })
      })"

definition decode :: "Parsed \<Rightarrow> bytes \<Rightarrow> bool \<Rightarrow> Parsed option" where
  "decode q b trunc =
     (let q = q\<lparr>p_b := b, p_trunc := trunc, p_CaptureMeta := empty_meta\<rparr>
      in if length b < 1 then Some (q\<lparr>p_IPVersion := 0, p_IPProto := UnknownProto\<rparr>)
         else do {
           b0 \<leftarrow> get8 b 0;
           let q = q\<lparr>p_IPVersion := drop_bit 4 b0\<rparr>;
           (if p_IPVersion q = 4 then decode4 q b
            else if p_IPVersion q = 6 then decode6 q b
            else Some (q\<lparr>p_IPVersion := 0, p_IPProto := UnknownProto\<rparr>))
         })"

definition Decode :: "Parsed \<Rightarrow> bytes \<Rightarrow> Parsed option" where
  "Decode q b = decode q b False"

definition DecodeTrunc :: "Parsed \<Rightarrow> bytes \<Rightarrow> bool \<Rightarrow> Parsed option" where
  "DecodeTrunc q b trunc = decode q b trunc"

subsection \<open>Queries on a decoded packet\<close>

definition IP4Header_of :: "Parsed \<Rightarrow> IP4Header option" where
  "IP4Header_of q =
     (if p_IPVersion q \<noteq> 4 then Some \<lparr>h4_IPProto = 0, h4_IPID = 0, h4_Src = AddrZero, h4_Dst = AddrZero\<rparr>
      else do {
        ipid \<leftarrow> get16 (p_b q) 4;
        Some \<lparr>h4_IPProto = p_IPProto q, h4_IPID = ipid, h4_Src = fst (p_Src q), h4_Dst = fst (p_Dst q)\<rparr>
      })"

definition IP6Header_of :: "Parsed \<Rightarrow> IP6Header option" where
  "IP6Header_of q =
     (if p_IPVersion q \<noteq> 6 then Some \<lparr>h6_IPProto = 0, h6_IPID = 0, h6_Src = AddrZero, h6_Dst = AddrZero\<rparr>
      else do {
        w \<leftarrow> slice (p_b q) 0 4;
        Some \<lparr>h6_IPProto = p_IPProto q, h6_IPID = drop_bit 12 (push_bit 12 (of_nat (be_val w))),
              h6_Src = fst (p_Src q), h6_Dst = fst (p_Dst q)\<rparr>
      })"

definition ICMP4Header_of :: "Parsed \<Rightarrow> ICMP4Header option" where
  "ICMP4Header_of q = do {
     ip \<leftarrow> IP4Header_of q;
     t \<leftarrow> get8 (p_b q) (p_subofs q + 0);
     c \<leftarrow> get8 (p_b q) (p_subofs q + 1);
     Some \<lparr>i4_IP = ip, i4_Type = t, i4_Code = c\<rparr>
   }"

definition ICMP6Header_of :: "Parsed \<Rightarrow> ICMP6Header option" where
  "ICMP6Header_of q = do {
     ip \<leftarrow> IP6Header_of q;
     t \<leftarrow> get8 (p_b q) (p_subofs q + 0);
     c \<leftarrow> get8 (p_b q) (p_subofs q + 1);
     Some \<lparr>i6_IP = ip, i6_Type = t, i6_Code = c\<rparr>
   }"

definition UDP4Header_of :: "Parsed \<Rightarrow> UDP4Header option" where
  "UDP4Header_of q = do {
     ip \<leftarrow> IP4Header_of q;
     Some \<lparr>u4_IP = ip, u4_SrcPort = snd (p_Src q), u4_DstPort = snd (p_Dst q)\<rparr>
   }"

text \<open>\<^verbatim>\<open>ICMPHeaderString\<close> formats a header; what it can do besides formatting is panic.\<close>

definition ICMPHeaderString :: "Parsed \<Rightarrow> header option option" where
  "ICMPHeaderString q =
     (if p_IPProto q = ICMPv4 then ICMP4Header_of q \<bind> (\<lambda>h. Some (Some (HICMP4 h)))
      else if p_IPProto q = ICMPv6 then ICMP6Header_of q \<bind> (\<lambda>h. Some (Some (HICMP6 h)))
      else Some None)"

definition Payload :: "Parsed \<Rightarrow> (bytes \<times> bool) option" where
  "Payload q =
     (if p_dataofs q > length (p_b q) then Some ([], p_trunc q)
      else if p_length q > length (p_b q) then
        if p_trunc q then slice_from (p_b q) (p_dataofs q) \<bind> (\<lambda>d. Some (d, True))
        else Some ([], p_trunc q)
      else slice (p_b q) (p_dataofs q) (p_length q) \<bind> (\<lambda>d. Some (d, False)))"

definition Transport :: "Parsed \<Rightarrow> bytes option" where
  "Transport q = slice_from (p_b q) (p_subofs q)"

definition HasTransportData :: "Parsed \<Rightarrow> bool" where
  "HasTransportData q = (p_subofs q < length (p_b q))"

definition IsTCPSyn :: "Parsed \<Rightarrow> bool" where
  "IsTCPSyn q = (p_TCPFlags q AND TCPSynAck = TCPSyn)"

definition IsError :: "Parsed \<Rightarrow> bool option" where
  "IsError q =
     (if p_IPProto q = ICMPv4 then
        if length (p_b q) < p_subofs q + 8 then Some False
        else do {
          t \<leftarrow> get8 (p_b q) (p_subofs q);
          Some (t = ICMP4Unreachable \<or> t = ICMP4TimeExceeded \<or> t = ICMP4ParamProblem)
        }
      else if p_IPProto q = ICMPv6 then
        if length (p_b q) < p_subofs q + 8 then Some False
        else do {
          t \<leftarrow> get8 (p_b q) (p_subofs q);
          Some (t = ICMP6Unreachable \<or> t = ICMP6PacketTooBig \<or> t = ICMP6TimeExceeded \<or> t = ICMP6ParamProblem)
        }
      else Some False)"

definition is_echo :: "Parsed \<Rightarrow> u8 \<Rightarrow> u8 \<Rightarrow> bool option" where
  "is_echo q ty code =
     (if length (p_b q) \<ge> p_subofs q + 8 then do {
        t \<leftarrow> get8 (p_b q) (p_subofs q);
        (if t = ty then do {
           c \<leftarrow> get8 (p_b q) (p_subofs q + 1);
           Some (c = code)
         } else Some False)
      } else Some False)"

definition IsEchoRequest :: "Parsed \<Rightarrow> bool option" where
  "IsEchoRequest q =
     (if p_IPProto q = ICMPv4 then is_echo q ICMP4EchoRequest ICMP4NoCode
      else if p_IPProto q = ICMPv6 then is_echo q ICMP6EchoRequest ICMP6NoCode
      else Some False)"

definition IsEchoResponse :: "Parsed \<Rightarrow> bool option" where
  "IsEchoResponse q =
     (if p_IPProto q = ICMPv4 then is_echo q ICMP4EchoReply ICMP4NoCode
      else if p_IPProto q = ICMPv6 then is_echo q ICMP6EchoReply ICMP6NoCode
      else Some False)"

definition le_u32_at :: "bytes \<Rightarrow> nat \<Rightarrow> u32" where
  "le_u32_at b off = (if length b < off + 4 then 0 else of_nat (be_val (rev (take 4 (drop off b)))))"

definition EchoIDSeq :: "Parsed \<Rightarrow> u32" where
  "EchoIDSeq q =
     (if p_IPProto q = ICMPv4 then le_u32_at (p_b q) (IP4HeaderLength + icmp4HeaderLength)
      else if p_IPProto q = ICMPv6 then le_u32_at (p_b q) (IP6HeaderLength + icmp6HeaderLength)
      else 0)"

subsection \<open>Address rewriting\<close>

text \<open>
  What xsum.go calls of gVisor's \<^verbatim>\<open>tcpip\<close> and \<^verbatim>\<open>header\<close> packages: the minimum header sizes,
  \<^verbatim>\<open>AddrFrom16Slice\<close> and the three \<^verbatim>\<open>UpdateChecksumPseudoHeaderAddress\<close> methods, which rewrite the
  transport bytes in place.
\<close>

record gvisor =
  UDPMinimumSize :: nat
  TCPMinimumSize :: nat
  ICMPv4MinimumSize :: nat
  ICMPv6MinimumSize :: nat
  IPv4MinimumSize :: nat
  AddrFrom16Slice :: "bytes \<Rightarrow> bytes option"
  ICMPv6_update :: "bytes \<Rightarrow> bytes \<Rightarrow> bytes \<Rightarrow> bytes"
  UDP_update :: "bytes \<Rightarrow> bytes \<Rightarrow> bytes \<Rightarrow> bool \<Rightarrow> bytes"
  TCP_update :: "bytes \<Rightarrow> bytes \<Rightarrow> bytes \<Rightarrow> bool \<Rightarrow> bytes"

definition update_sum_at :: "bytes \<Rightarrow> nat \<Rightarrow> bytes \<Rightarrow> bytes \<Rightarrow> bytes option" where
  \<comment> \<open>\<^verbatim>\<open>updateV4Checksum(b[i:i+2], old, new)\<close>, which writes through the slice\<close>
  "update_sum_at b i old new = do {
     s \<leftarrow> slice b i (i + 2);
     s' \<leftarrow> updateV4Checksum s old new;
     copy_at b i (i + 2) s'
   }"

definition updateV4PacketChecksums :: "gvisor \<Rightarrow> Parsed \<Rightarrow> addr \<Rightarrow> addr \<Rightarrow> Parsed option" where
  "updateV4PacketChecksums g p old new =
     (if length (p_b p) < 12 then Some p
      else do {
        o4 \<leftarrow> as4 old;
        n4 \<leftarrow> as4 new;
        b \<leftarrow> update_sum_at (p_b p) 10 o4 n4;
        let p = p\<lparr>p_b := b\<rparr>;
        tr \<leftarrow> Transport p;
        (if p_IPProto p = UDP \<or> p_IPProto p = DCCP then
           if length tr < UDPMinimumSize g then Some p
           else update_sum_at b (p_subofs p + 6) o4 n4 \<bind> (\<lambda>b. Some (p\<lparr>p_b := b\<rparr>))
         else if p_IPProto p = TCP then
           if length tr < TCPMinimumSize g then Some p
           else update_sum_at b (p_subofs p + 16) o4 n4 \<bind> (\<lambda>b. Some (p\<lparr>p_b := b\<rparr>))
         else if p_IPProto p = GRE then
           if length tr < 6 then Some p
           else do {
             t0 \<leftarrow> get8 tr 0;
             (if t0 = 1 then update_sum_at b (p_subofs p + 4) o4 n4 \<bind> (\<lambda>b. Some (p\<lparr>p_b := b\<rparr>))
              else Some p)
           }
         else Some p)
      })"

definition updateV6PacketChecksums :: "gvisor \<Rightarrow> Parsed \<Rightarrow> addr \<Rightarrow> addr \<Rightarrow> Parsed option" where
  "updateV6PacketChecksums g p old new =
     (if length (p_b p) < 40 then Some p
      else do {
        o6 \<leftarrow> AddrFrom16Slice g (as_slice old);
        n6 \<leftarrow> AddrFrom16Slice g (as_slice new);
        tr \<leftarrow> Transport p;
        let put = (\<lambda>t. p\<lparr>p_b := overlay (p_b p) (p_subofs p) t\<rparr>);
        (if p_IPProto p = ICMPv6 then
           if length tr < ICMPv6MinimumSize g then Some p else Some (put (ICMPv6_update g tr o6 n6))
         else if p_IPProto p = UDP \<or> p_IPProto p = DCCP then
           if length tr < UDPMinimumSize g then Some p else Some (put (UDP_update g tr o6 n6 True))
         else if p_IPProto p = TCP then
           if length tr < TCPMinimumSize g then Some p else Some (put (TCP_update g tr o6 n6 True))
         else Some p)
      })"

definition UpdateSrcAddr :: "gvisor \<Rightarrow> Parsed \<Rightarrow> addr \<Rightarrow> Parsed option" where
  "UpdateSrcAddr g q src =
     (if is6 src \<and> p_IPVersion q \<noteq> 6 then None
      else if is4 src \<and> p_IPVersion q \<noteq> 4 then None
      else do {
        let old = fst (p_Src q);
        let q = q\<lparr>p_CaptureMeta := (p_CaptureMeta q)\<lparr>cm_DidSNAT := True, cm_OriginalSrc := p_Src q\<rparr>,
                  p_Src := (src, snd (p_Src q))\<rparr>;
        (if is6 src then do {
           b \<leftarrow> copy_at (p_b q) 8 24 (as16 src);
           updateV6PacketChecksums g (q\<lparr>p_b := b\<rparr>) old src
         } else do {
           v4 \<leftarrow> as4 src;
           b \<leftarrow> copy_at (p_b q) 12 16 v4;
           updateV4PacketChecksums g (q\<lparr>p_b := b\<rparr>) old src
         })
      })"

definition UpdateDstAddr :: "gvisor \<Rightarrow> Parsed \<Rightarrow> addr \<Rightarrow> Parsed option" where
  "UpdateDstAddr g q dst =
     (if is6 dst \<and> p_IPVersion q \<noteq> 6 then None
      else if is4 dst \<and> p_IPVersion q \<noteq> 4 then None
      else do {
        let old = fst (p_Dst q);
        let q = q\<lparr>p_CaptureMeta := (p_CaptureMeta q)\<lparr>cm_DidDNAT := True, cm_OriginalDst := p_Dst q\<rparr>,
                  p_Dst := (dst, snd (p_Dst q))\<rparr>;
        (if is6 dst then do {
           b \<leftarrow> copy_at (p_b q) 24 40 (as16 dst);
           updateV6PacketChecksums g (q\<lparr>p_b := b\<rparr>) old dst
         } else do {
           v4 \<leftarrow> as4 dst;
           b \<leftarrow> copy_at (p_b q) 16 20 v4;
           updateV4PacketChecksums g (q\<lparr>p_b := b\<rparr>) old dst
         })
      })"

subsection \<open>The echo responder\<close>

text \<open>
  \<^verbatim>\<open>icmpResponder.echoReply\<close>, \<^verbatim>\<open>process\<close> and \<^verbatim>\<open>handle\<close>. The responder's environment is a record: whether
  it is open and has an endpoint, whether a forwarder is installed, what the WireGuard forwarder,
  the stack's rate limiter and the ping answer. \<^verbatim>\<open>handle\<close> gives the value it returns and the packets
  injected into the TUN device (the reply is computed in a goroutine of its own).
\<close>

datatype echo_error = ErrUnsupportedVersion

definition echoReply :: "Parsed \<Rightarrow> bytes \<Rightarrow> bool \<Rightarrow> (echo_error + bytes) option" where
  "echoReply pkt d ok =
     (if p_IPVersion pkt = 4 then do {
        h \<leftarrow> ICMP4Header_of pkt;
        let h = ICMP4_ToResponse h;
        let h = (if \<not> ok then h\<lparr>i4_Type := ICMP4Unreachable, i4_Code := ICMP4HostUnreachable\<rparr> else h);
        r \<leftarrow> Generate (HICMP4 h) d;
        Some (Inr r)
      } else if p_IPVersion pkt = 6 then do {
        h \<leftarrow> ICMP6Header_of pkt;
        let h = ICMP6_ToResponse h;
        let h = (if \<not> ok then h\<lparr>i6_Type := ICMP6Unreachable, i6_Code := ICMP6NoRoute\<rparr> else h);
        r \<leftarrow> Generate (HICMP6 h) d;
        Some (Inr r)
      } else Some (Inl ErrUnsupportedVersion))"

record responder =
  r_open :: bool
  r_ep :: bool
  r_handler :: bool
  r_useForwarder :: bool
  r_forward :: "bytes \<Rightarrow> addrport \<Rightarrow> addrport \<Rightarrow> bool"
  r_allow :: bool
  r_ping :: "bytes \<Rightarrow> addrport \<Rightarrow> addrport \<Rightarrow> bool"

definition inject :: "responder \<Rightarrow> bytes \<Rightarrow> bytes list" where
  "inject r packet = (if \<not> r_ep r \<or> \<not> r_open r then [] else [packet])"

definition process_echo :: "responder \<Rightarrow> Parsed \<Rightarrow> bytes list option" where
  "process_echo r pkt = do {
     icmpMsg \<leftarrow> Transport pkt;
     (payload, truncated) \<leftarrow> Payload pkt;
     (if truncated \<or> length icmpMsg \<le> 0 then Some []
      else if \<not> r_allow r then Some []
      else do {
        let pinged = r_ping r icmpMsg (p_Src pkt) (p_Dst pkt);
        resp \<leftarrow> echoReply pkt payload pinged;
        (case resp of Inl _ \<Rightarrow> Some [] | Inr p \<Rightarrow> if length p = 0 then Some [] else Some (inject r p))
      })
   }"

definition handle_icmp :: "gvisor \<Rightarrow> responder \<Rightarrow> Parsed \<Rightarrow> bytes \<Rightarrow> (bool \<times> bytes list) option" where
  "handle_icmp g r pooled b =
     (if \<not> r_open r then Some (False, [])
      else if length b \<le> ICMPv4MinimumSize g + IPv4MinimumSize g then Some (False, [])
      else if length b \<le> 0 \<or> \<not> r_handler r then Some (False, [])
      else do {
        parsed \<leftarrow> Decode pooled b;
        (if p_IPProto parsed \<noteq> ICMPv4 \<and> p_IPProto parsed \<noteq> ICMPv6 then Some (False, [])
         else do {
           _ \<leftarrow> ICMPHeaderString parsed;
           (if \<not> HasTransportData parsed then Some (False, [])
            else do {
              echo \<leftarrow> IsEchoRequest parsed;
              (if \<not> echo then Some (False, [])
               else if r_useForwarder r \<and> r_forward r b (p_Src parsed) (p_Dst parsed) then Some (True, [])
               else do {
                 out \<leftarrow> process_echo r parsed;
                 Some (True, out)
               })
            })
         })
      })"

text \<open>What a receiver checks: the IPv4 header up to \<open>ofs\<close>, and the transport segment after it.\<close>

definition ip4_header_valid :: "bytes \<Rightarrow> nat \<Rightarrow> bool" where
  "ip4_header_valid b ofs = (ip4Checksum (take ofs b) = 0)"

definition ip4_l4_valid :: "bytes \<Rightarrow> nat \<Rightarrow> u8 \<Rightarrow> bool" where
  "ip4_l4_valid b ofs proto =
     (ip4Checksum (pseudo4 (take 4 (drop 12 b)) (take 4 (drop 16 b)) proto (length b - ofs) @ drop ofs b) = 0)"

subsection \<open>Rewriting keeps valid checksums valid\<close>

lemma update_sum_at_some:
  assumes "i + 2 \<le> length b" "length o4 = 4" "length n4 = 4"
  obtains s' where "update_sum_at b i o4 n4 = Some (overlay b i s')" "length s' = 2"
    and "\<forall>R. 65535 dvd R + sum16 (take 2 (drop i b)) + sum16 o4 \<longrightarrow> 65535 dvd R + sum16 s' + sum16 n4"
proof -
  have l: "length (take 2 (drop i b)) = 2" using assms(1) by simp
  obtain s' where s': "updateV4Checksum (take 2 (drop i b)) o4 n4 = Some s'" "length s' = 2"
    using updateV4Checksum_some [OF l, of o4 n4] assms(2,3) by force
  show ?thesis
  proof
    show "update_sum_at b i o4 n4 = Some (overlay b i s')"
      using assms s' by (simp add: update_sum_at_def slice_def)
    show "length s' = 2" by fact
    show "\<forall>R. 65535 dvd R + sum16 (take 2 (drop i b)) + sum16 o4 \<longrightarrow> 65535 dvd R + sum16 s' + sum16 n4"
      using updateV4Checksum_dvd [OF l _ _ _ _ s'(1)] assms(2,3) l s'(2) by (simp add: sum16_two)
  qed
qed

text \<open>Rewriting one address and the checksum keeps a sum over both divisible.\<close>

lemma rewrite_sum_dvd:
  assumes "even i" "i + 2 \<le> length T" "length s' = 2"
    and v: "65535 dvd sum16 T + A + sum16 o4"
    and s': "\<And>R. 65535 dvd R + sum16 (take 2 (drop i T)) + sum16 o4 \<Longrightarrow> 65535 dvd R + sum16 s' + sum16 n4"
  shows "65535 dvd sum16 (overlay T i s') + A + sum16 n4"
proof -
  let ?old = "sum16 (take 2 (drop i T))"
  have e: "sum16 (overlay T i s') + ?old = sum16 T + sum16 s'"
    using sum16_overlay [of i s' T] assms by simp
  have le: "?old \<le> sum16 T"
    using sum16_overlay [of i "be_bytes 2 0" T] assms by (simp add: sum16_be_bytes)
  have "65535 dvd (sum16 T - ?old + A) + sum16 s' + sum16 n4"
    by (rule s') (use v le in simp)
  moreover have "(sum16 T - ?old + A) + sum16 s' + sum16 n4 = sum16 (overlay T i s') + A + sum16 n4"
    using e le by linarith
  ultimately show ?thesis by simp
qed

lemma header_rewrite:
  assumes "20 \<le> ofs" "ofs \<le> length b" "length b \<le> 65535" "12 \<le> a" "a \<le> 16" "even a" "length n4 = 4"
    and nz: "b ! 0 \<noteq> 0" and v: "ip4_header_valid b ofs" and l: "length s' = 2"
    and s': "\<And>R. 65535 dvd R + sum16 (take 2 (drop 10 b)) + sum16 (take 4 (drop a b)) \<Longrightarrow> 65535 dvd R + sum16 s' + sum16 n4"
  shows "ip4_header_valid (overlay (overlay b a n4) 10 s') ofs"
proof -
  let ?H = "take ofs b" and ?z4 = "be_bytes 2 0 @ be_bytes 2 0" and ?z2 = "be_bytes 2 0"
  have z: "sum16 ?z4 = 0" "sum16 ?z2 = 0" "length ?z4 = 4" by (simp_all add: sum16_append sum16_be_bytes)
  have H: "65535 dvd sum16 ?H" using v assms(1-3) by (simp add: ip4_header_valid_def ip4Checksum_zero_iff)
  let ?Z = "overlay ?H a ?z4"
  have o4: "take 4 (drop a ?H) = take 4 (drop a b)" and ck: "take 2 (drop 10 ?H) = take 2 (drop 10 b)"
    using assms(1,5) by (simp_all add: drop_take min_def)
  have ck': "take 2 (drop 10 (overlay ?H a x)) = take 2 (drop 10 b)" for x
    using ck assms(4) by (simp add: drop_overlay_low take_overlay_low)
  have e1: "sum16 (overlay ?H a x) + sum16 (take 4 (drop a b)) = sum16 ?H + sum16 x" if "length x = 4" for x
    using sum16_overlay [of a x ?H] that assms(1,2,5,6) o4 by simp
  have e2: "sum16 (overlay (overlay ?H a x) 10 y) + sum16 (take 2 (drop 10 b)) = sum16 (overlay ?H a x) + sum16 y"
    if "length y = 2" for x y
    using sum16_overlay [of 10 y "overlay ?H a x"] that assms(1,2) ck' [of x] by simp
  have R: "sum16 (overlay ?Z 10 ?z2) + sum16 (take 2 (drop 10 b)) + sum16 (take 4 (drop a b)) = sum16 ?H"
    using e1 [OF z(3)] e2 [of ?z2 ?z4] z(1,2) by simp
  have "65535 dvd sum16 (overlay ?Z 10 ?z2) + sum16 s' + sum16 n4"
    by (rule s') (simp only: R H)
  moreover have "sum16 (overlay (overlay ?H a n4) 10 s') = sum16 (overlay ?Z 10 ?z2) + sum16 s' + sum16 n4"
    using R e1 [OF assms(7)] e2 [OF l, of n4] by linarith
  moreover have "0 < sum16 (overlay (overlay ?H a n4) 10 s')"
  proof (rule sum16_pos)
    have "0 < length (overlay (overlay ?H a n4) 10 s')" using assms(1,2) by simp
    then show "overlay (overlay ?H a n4) 10 s' \<noteq> []" unfolding length_greater_0_conv .
    show "overlay (overlay ?H a n4) 10 s' ! 0 \<noteq> 0" using assms(1,2,4) nz by (simp add: nth_overlay)
  qed
  moreover have "take ofs (overlay (overlay b a n4) 10 s') = overlay (overlay ?H a n4) 10 s'"
    using assms(1,5,7) l take_overlay_high [of 10 s' ofs] take_overlay_high [of a n4 ofs] by simp
  ultimately show ?thesis using assms(1-3) by (simp add: ip4_header_valid_def ip4Checksum_zero_iff)
qed

lemma pseudo4_verifies_iff:
  assumes "length x = 4" "length y = 4" "length T \<le> 65535" "pr \<noteq> 0"
  shows "ip4Checksum (pseudo4 x y pr l @ T) = 0 \<longleftrightarrow> 65535 dvd sum16 T + (sum16 y + unat pr + l mod 65536) + sum16 x"
proof -
  have s: "sum16 (pseudo4 x y pr l @ T) = sum16 T + (sum16 y + unat pr + l mod 65536) + sum16 x"
    using assms(1,2) by (simp add: pseudo4_def sum16_append sum16_be_bytes)
  have "0 < unat pr" using assms(4) by (simp add: unat_gt_0)
  then show ?thesis
    using assms(1-3) ip4Checksum_zero_iff [of "pseudo4 x y pr l @ T"] by (simp add: s)
qed

lemma l4_rewrite:
  assumes "20 \<le> ofs" "even k" "ofs + k + 2 \<le> length b" "length b \<le> 65535" "a = 12 \<or> a = 16" "length n4 = 4" "pr \<noteq> 0"
    and v: "ip4_l4_valid b ofs pr" and l: "length s' = 2" "length s'' = 2"
    and s'': "\<And>R. 65535 dvd R + sum16 (take 2 (drop (ofs + k) b)) + sum16 (take 4 (drop a b)) \<Longrightarrow> 65535 dvd R + sum16 s'' + sum16 n4"
  shows "ip4_l4_valid (overlay (overlay (overlay b a n4) 10 s') (ofs + k) s'') ofs pr"
proof -
  let ?b = "overlay (overlay (overlay b a n4) 10 s') (ofs + k) s''"
  let ?T = "drop ofs b" and ?s = "take 4 (drop 12 b)" and ?d = "take 4 (drop 16 b)"
  let ?c = "unat pr + (length b - ofs) mod 65536"
  have T: "drop ofs ?b = overlay ?T k s''"
    using assms(1,5,6) l by (auto simp: drop_overlay_low drop_overlay_high)
  have t: "take 4 (drop c ?b) = (if c = a then n4 else take 4 (drop c b))" if "c = 12 \<or> c = 16" for c
    using that assms(1,3,5,6) l
    by (auto simp: drop_overlay_low drop_overlay_high take_overlay_low overlay_0)
  have ck: "take 2 (drop k ?T) = take 2 (drop (ofs + k) b)" by (simp add: add.commute)
  note rw = rewrite_sum_dvd [of k ?T s'' _ "take 4 (drop a b)" n4, unfolded ck, OF assms(2) _ l(2) _ s'']
  have *: "65535 dvd sum16 ?T + (sum16 ?d + ?c) + sum16 ?s"
    using v assms pseudo4_verifies_iff [of ?s ?d ?T pr "length b - ofs"]
    by (simp add: ip4_l4_valid_def add.assoc)
  have "65535 dvd sum16 (overlay ?T k s'') + (sum16 (take 4 (drop 16 ?b)) + ?c) + sum16 (take 4 (drop 12 ?b))"
    using assms(5)
  proof
    assume a: "a = 12"
    show ?thesis using rw [of "sum16 ?d + ?c"] * assms(3) a t [of 12] t [of 16] by simp
  next
    assume a: "a = 16"
    show ?thesis using rw [of "sum16 ?s + ?c"] * assms(3) a t [of 12] t [of 16] by (simp add: ac_simps)
  qed
  then show ?thesis
    using assms(1,3,4,7) T pseudo4_verifies_iff [of "take 4 (drop 12 ?b)" "take 4 (drop 16 ?b)" "overlay ?T k s''" pr "length b - ofs"]
    by (simp add: ip4_l4_valid_def add.assoc)
qed

lemma with_ports_some:
  "4 \<le> length sub \<Longrightarrow> with_ports q sub = Some (q\<lparr>p_Src := withPort (p_Src q) (of_nat (256 * unat (sub ! 0) + unat (sub ! 1))),
     p_Dst := withPort (p_Dst q) (of_nat (256 * unat (sub ! 2) + unat (sub ! 3)))\<rparr>)"
  by (simp add: with_ports_def get16_some numeral_2_eq_2 numeral_3_eq_3 del: of_nat_add)

subsection \<open>Decoding, evaluated\<close>

text \<open>What the protocol switches leave alone.\<close>

definition same_frame :: "Parsed \<Rightarrow> Parsed \<Rightarrow> bool" where
  "same_frame q q' \<longleftrightarrow> p_b q' = p_b q \<and> p_subofs q' = p_subofs q \<and> p_length q' = p_length q \<and>
    p_trunc q' = p_trunc q \<and> p_IPVersion q' = p_IPVersion q \<and> fst (p_Src q') = fst (p_Src q) \<and>
    fst (p_Dst q') = fst (p_Dst q) \<and> p_CaptureMeta q' = p_CaptureMeta q \<and>
    (p_IPProto q' = p_IPProto q \<or> p_IPProto q' = UnknownProto)"

lemma decode4_first_frame: "\<exists>q'. decode4_first q sub mf = Some q' \<and> same_frame q q'"
  by (simp add: decode4_first_def with_ports_some set_unknown_def len_defs TCPFlagsOffset_def withPort_def same_frame_def)

definition l4_min :: "u8 \<Rightarrow> nat" where
  \<comment> \<open>the transport bytes the decoder insists on\<close>
  "l4_min pr = (if pr = ICMPv4 then 4 else if pr = IGMP \<or> pr = UDP then 8 else if pr = TCP then 20 else if pr = SCTP then 12 else 0)"

lemma decode4_first_min:
  "decode4_first q sub mf = Some q' \<Longrightarrow> p_IPProto q' \<noteq> UnknownProto \<Longrightarrow> l4_min (p_IPProto q') \<le> length sub"
  by (auto simp: decode4_first_def with_ports_some set_unknown_def len_defs TCPFlagsOffset_def l4_min_def proto_defs split: if_splits)

lemma decode6_sub_frame: "\<exists>q'. decode6_sub q sub = Some q' \<and> same_frame q q'"
  by (simp add: decode6_sub_def with_ports_some set_unknown_def len_defs TCPFlagsOffset_def withPort_def same_frame_def)

text \<open>Decoding an IPv4 buffer of header size, with every access evaluated.\<close>

definition v4_len :: "bytes \<Rightarrow> nat" where "v4_len b = 256 * unat (b ! 2) + unat (b ! 3)"
definition v4_ihl :: "bytes \<Rightarrow> nat" where "v4_ihl b = unat (push_bit 2 (b ! 0 AND 0x0F))"
definition v4_frag :: "bytes \<Rightarrow> u16" where "v4_frag b = of_nat (256 * unat (b ! 6) + unat (b ! 7))"
definition v4_src :: "bytes \<Rightarrow> addr" where "v4_src b = addr_from4 (take 4 (drop 12 b))"
definition v4_dst :: "bytes \<Rightarrow> addr" where "v4_dst b = addr_from4 (take 4 (drop 16 b))"

lemma be16_bound: "256 * unat (x :: u8) + unat (y :: u8) < 65536"
  using unat_u8 [of x] unat_u8 [of y] by linarith

lemma unat_shl2: "unat (push_bit 2 (w :: u8)) = 4 * unat w mod 256"
  by (simp add: push_bit_eq_mult unat_word_ariths mult.commute)

lemma v4_ihl_eq: "v4_ihl b = 4 * (unat (b ! 0) mod 16)"
proof -
  have "(0x0F :: u8) = mask 4" by (simp add: mask_eq_exp_minus_1)
  then have "unat (b ! 0 AND 0x0F) = unat (b ! 0) mod 16"
    by (simp only: flip: take_bit_eq_mask) (simp add: unsigned_take_bit_eq take_bit_eq_mod unat_mod_distrib)
  moreover have "4 * (unat (b ! 0) mod 16) < 256" by (rule order.strict_trans1 [of _ "4 * 15"]) simp_all
  ultimately show ?thesis unfolding v4_ihl_def unat_shl2 by simp
qed

lemma decode4_eq:
  assumes "20 \<le> length b"
  shows "decode4 q b =
    (let q1 = q\<lparr>p_IPProto := b ! 9, p_length := v4_len b\<rparr>;
         q2 = q1\<lparr>p_Src := withIP (p_Src q) (v4_src b), p_Dst := withIP (p_Dst q) (v4_dst b), p_subofs := v4_ihl b\<rparr>
     in if \<not> p_trunc q \<and> length b < v4_len b then Some (set_unknown q1)
        else if v4_len b < v4_ihl b then Some (set_unknown q2)
        else if length b < v4_ihl b then None
        else if v4_frag b AND 0x1FFF = 0 then decode4_first q2 (drop (v4_ihl b) b) (v4_frag b AND 0x2000 \<noteq> 0)
        else if unat (v4_frag b AND 0x1FFF) < minFragBlks then Some (set_unknown q2)
        else Some (q2\<lparr>p_IPProto := Fragment\<rparr>))"
proof -
  have "b \<noteq> []" using assms by auto
  then show ?thesis
    using assms unat_of_nat_u16 [OF be16_bound, of "b ! 2" "b ! 3"]
    by (simp add: decode4_def len_defs get16_some slice_def slice_from_def Let_def v4_len_def v4_ihl_def v4_src_def v4_dst_def
        v4_frag_def del: of_nat_add of_nat_mult cong: if_cong)
qed

lemma decode_v4:
  assumes "20 \<le> length b" "drop_bit 4 (b ! 0) = 4"
  shows "decode q b tr = decode4 (q\<lparr>p_b := b, p_trunc := tr, p_CaptureMeta := empty_meta, p_IPVersion := 4\<rparr>) b"
proof -
  have "b \<noteq> []" using assms by auto
  then show ?thesis using assms by (simp add: decode_def Let_def)
qed

lemma decode_v6:
  assumes "40 \<le> length b" "drop_bit 4 (b ! 0) = 6"
  shows "decode q b tr = decode6 (q\<lparr>p_b := b, p_trunc := tr, p_CaptureMeta := empty_meta, p_IPVersion := 6\<rparr>) b"
proof -
  have "b \<noteq> []" using assms by auto
  then show ?thesis using assms by (simp add: decode_def Let_def)
qed

lemma decode6_eq:
  assumes "40 \<le> length b"
  shows "decode6 q b =
    (let len = 256 * unat (b ! 4) + unat (b ! 5) + 40;
         q1 = q\<lparr>p_IPProto := b ! 6, p_length := len\<rparr>;
         q2 = q1\<lparr>p_Src := withIP (p_Src q) (Addr6 (of_nat (be_val (take 16 (drop 8 b))))),
                p_Dst := withIP (p_Dst q) (Addr6 (of_nat (be_val (take 16 (drop 24 b))))), p_subofs := 40\<rparr>
     in if \<not> p_trunc q \<and> length b < len then Some (set_unknown q1)
        else decode6_sub q2 (drop 40 b))"
  using assms unat_of_nat_u16 [OF be16_bound, of "b ! 4" "b ! 5"]
  by (simp add: decode6_def len_defs get16_some slice_def slice_from_def Let_def addr_from_slice_def
      del: of_nat_add of_nat_mult cong: if_cong)

lemma decode_cases:
  assumes "decode q b tr = Some p" "p_IPVersion p \<noteq> 0"
  obtains "20 \<le> length b" "drop_bit 4 (b ! 0) = 4" | "40 \<le> length b" "drop_bit 4 (b ! 0) = 6"
  using assms
  by (auto simp: decode_def decode4_def decode6_def Let_def len_defs not_less Suc_le_eq split: if_splits)

lemma Decode_v4_frame:
  assumes "20 \<le> length b" "drop_bit 4 (b ! 0) = 4"
  obtains p where "Decode q b = Some p" "p_b p = b" "p_IPVersion p = 4" "p_length p = v4_len b" "p_trunc p = False"
    and "p_CaptureMeta p = empty_meta"
    and "p_IPProto p \<noteq> UnknownProto \<Longrightarrow> v4_len b \<le> length b \<and> v4_ihl b \<le> v4_len b \<and> p_subofs p = v4_ihl b \<and>
       fst (p_Src p) = v4_src b \<and> fst (p_Dst p) = v4_dst b \<and> v4_ihl b + l4_min (p_IPProto p) \<le> length b"
proof -
  let ?q = "q\<lparr>p_b := b, p_trunc := False, p_CaptureMeta := empty_meta, p_IPVersion := 4\<rparr>"
  let ?q2 = "?q\<lparr>p_IPProto := b ! 9, p_length := v4_len b, p_Src := withIP (p_Src q) (v4_src b),
    p_Dst := withIP (p_Dst q) (v4_dst b), p_subofs := v4_ihl b\<rparr>"
  obtain q' where q': "decode4_first ?q2 (drop (v4_ihl b) b) (v4_frag b AND 0x2000 \<noteq> 0) = Some q'" "same_frame ?q2 q'"
    using decode4_first_frame by blast
  have e: "Decode q b =
      (if length b < v4_len b then Some (set_unknown (?q\<lparr>p_IPProto := b ! 9, p_length := v4_len b\<rparr>))
       else if v4_len b < v4_ihl b then Some (set_unknown ?q2)
       else if v4_frag b AND 0x1FFF = 0 then Some q'
       else if unat (v4_frag b AND 0x1FFF) < minFragBlks then Some (set_unknown ?q2)
       else Some (?q2\<lparr>p_IPProto := Fragment\<rparr>))"
    using q'(1) by (simp add: Decode_def decode_v4 assms decode4_eq)
  then obtain p where p: "Decode q b = Some p" by (auto split: if_splits)
  have frag: "l4_min Fragment = 0" by (simp add: l4_min_def proto_defs)
  have "p_b p = b \<and> p_IPVersion p = 4 \<and> p_length p = v4_len b \<and> p_trunc p = False \<and> p_CaptureMeta p = empty_meta \<and>
    (p_IPProto p \<noteq> UnknownProto \<longrightarrow> v4_len b \<le> length b \<and> v4_ihl b \<le> v4_len b \<and> p_subofs p = v4_ihl b \<and>
       fst (p_Src p) = v4_src b \<and> fst (p_Dst p) = v4_dst b \<and> v4_ihl b + l4_min (p_IPProto p) \<le> length b)"
    using e [unfolded p] q'(2) decode4_first_min [OF q'(1)]
    by (auto simp: set_unknown_def withIP_def same_frame_def frag split: if_splits)
  with p that show ?thesis by blast
qed

lemma Decode_v6_frame:
  assumes "40 \<le> length b" "drop_bit 4 (b ! 0) = 6"
  obtains p where "Decode q b = Some p" "p_b p = b" "p_IPVersion p = 6" "p_trunc p = False"
proof -
  let ?q = "q\<lparr>p_b := b, p_trunc := False, p_CaptureMeta := empty_meta, p_IPVersion := 6,
    p_IPProto := b ! 6, p_length := 256 * unat (b ! 4) + unat (b ! 5) + 40\<rparr>"
  let ?q2 = "?q\<lparr>p_Src := withIP (p_Src q) (Addr6 (of_nat (be_val (take 16 (drop 8 b))))),
                p_Dst := withIP (p_Dst q) (Addr6 (of_nat (be_val (take 16 (drop 24 b))))), p_subofs := 40\<rparr>"
  obtain q' where q': "decode6_sub ?q2 (drop 40 b) = Some q'" "same_frame ?q2 q'"
    using decode6_sub_frame by blast
  have e: "Decode q b = (if length b < 256 * unat (b ! 4) + unat (b ! 5) + 40 then Some (set_unknown ?q) else Some q')"
    using q'(1) by (simp add: Decode_def decode_v6 assms decode6_eq)
  then obtain p where p: "Decode q b = Some p" by (auto split: if_splits)
  have "p_b p = b \<and> p_IPVersion p = 6 \<and> p_trunc p = False"
    using e [unfolded p] q'(2) by (simp add: set_unknown_def same_frame_def split: if_splits)
  with p that show ?thesis by blast
qed

text \<open>
  C21: Decoding a packet that is not marked truncated never panics, whatever the bytes and whatever
  the pooled record holds.
\<close>

theorem Decode_total: "Decode q b \<noteq> None"
proof -
  have "Decode q b \<noteq> None" if "\<not> (20 \<le> length b \<and> drop_bit 4 (b ! 0) = 4)" "\<not> (40 \<le> length b \<and> drop_bit 4 (b ! 0) = 6)"
    using that by (cases "b = []") (auto simp: Decode_def decode_def decode4_def decode6_def len_defs Let_def Suc_le_eq not_le)
  then show ?thesis by (metis Decode_v4_frame Decode_v6_frame option.distinct(1))
qed

lemma Decode_v4_fields:
  assumes "Decode q b = Some p" "p_IPVersion p = 4" "p_IPProto p \<noteq> UnknownProto"
  shows "p_b p = b" "20 \<le> length b" "drop_bit 4 (b ! 0) = 4" "p_subofs p = v4_ihl b" "p_length p = v4_len b"
    "fst (p_Src p) = v4_src b" "fst (p_Dst p) = v4_dst b" "v4_len b \<le> length b" "v4_ihl b \<le> v4_len b"
    "v4_ihl b + l4_min (p_IPProto p) \<le> length b" "p_CaptureMeta p = empty_meta"
proof -
  have "\<not> (40 \<le> length b \<and> drop_bit 4 (b ! 0) = 6)"
    using assms(1,2) Decode_v6_frame [of b q] by force
  then have b: "20 \<le> length b" "drop_bit 4 (b ! 0) = 4"
    using assms(1,2) decode_cases [of q b False p] by (auto simp: Decode_def)
  obtain p' where "Decode q b = Some p'" "p_b p' = b" "p_length p' = v4_len b" "p_CaptureMeta p' = empty_meta"
    "p_IPProto p' \<noteq> UnknownProto \<Longrightarrow> v4_len b \<le> length b \<and> v4_ihl b \<le> v4_len b \<and> p_subofs p' = v4_ihl b \<and>
       fst (p_Src p') = v4_src b \<and> fst (p_Dst p') = v4_dst b \<and> v4_ihl b + l4_min (p_IPProto p') \<le> length b"
    using Decode_v4_frame [OF b, of q] by blast
  with assms b show "p_b p = b" "20 \<le> length b" "drop_bit 4 (b ! 0) = 4" "p_subofs p = v4_ihl b" "p_length p = v4_len b"
    "fst (p_Src p) = v4_src b" "fst (p_Dst p) = v4_dst b" "v4_len b \<le> length b" "v4_ihl b \<le> v4_len b"
    "v4_ihl b + l4_min (p_IPProto p) \<le> length b" "p_CaptureMeta p = empty_meta"
    by simp_all
qed

lemma as4_addr_from4: "length s = 4 \<Longrightarrow> as4 (addr_from4 s) = Some s"
proof -
  assume s: "length s = 4"
  have "be_val s < 4294967296" using be_val_bound [of s] s by simp
  then show ?thesis using s by (simp add: addr_from4_def be_bytes_be_val)
qed

text \<open>Documented sizes of gVisor's headers.\<close>

definition gv_sizes :: "gvisor \<Rightarrow> bool" where
  "gv_sizes g \<longleftrightarrow> UDPMinimumSize g = 8 \<and> TCPMinimumSize g = 20 \<and> ICMPv4MinimumSize g = 8 \<and> IPv4MinimumSize g = 20"

definition l4_sum_ofs :: "u8 \<Rightarrow> nat" where
  "l4_sum_ofs pr = (if pr = TCP then 16 else 6)"

lemma rewrite_v4:
  fixes b :: bytes
  assumes g: "gv_sizes g" and pr: "p_IPProto q = UDP \<or> p_IPProto q = TCP"
    and ofs: "20 \<le> p_subofs q" "even (p_subofs q)" "p_subofs q + l4_min (p_IPProto q) \<le> length b" "length b \<le> 65535"
    and a: "a = 12 \<or> a = 16" and o4: "as4 old = Some (take 4 (drop a b))" and n4: "as4 new = Some n4"
    and nz: "b ! 0 \<noteq> 0" and v: "ip4_header_valid b (p_subofs q)" "ip4_l4_valid b (p_subofs q) (p_IPProto q)"
  obtains s' s'' where "length s' = 2" "length s'' = 2"
    and "updateV4PacketChecksums g (q\<lparr>p_b := overlay b a n4\<rparr>) old new =
      Some (q\<lparr>p_b := overlay (overlay (overlay b a n4) 10 s') (p_subofs q + l4_sum_ofs (p_IPProto q)) s''\<rparr>)"
    and "ip4_header_valid (overlay (overlay (overlay b a n4) 10 s') (p_subofs q + l4_sum_ofs (p_IPProto q)) s'') (p_subofs q)"
    and "ip4_l4_valid (overlay (overlay (overlay b a n4) 10 s') (p_subofs q + l4_sum_ofs (p_IPProto q)) s'') (p_subofs q) (p_IPProto q)"
proof -
  let ?k = "l4_sum_ofs (p_IPProto q)" and ?b1 = "overlay b a n4" and ?ofs = "p_subofs q"
  have ln: "length n4 = 4" using length_as4 [OF n4] .
  have len: "?ofs + ?k + 2 \<le> length b" "20 \<le> length b" "even ?k"
    using ofs pr by (auto simp: l4_min_def l4_sum_ofs_def proto_defs)
  have lo: "length (take 4 (drop a b)) = 4" using len a by auto
  have l10: "10 + 2 \<le> length ?b1" using len by simp
  obtain s' where s': "update_sum_at ?b1 10 (take 4 (drop a b)) n4 = Some (overlay ?b1 10 s')" "length s' = 2"
    and d1: "\<forall>R. 65535 dvd R + sum16 (take 2 (drop 10 ?b1)) + sum16 (take 4 (drop a b)) \<longrightarrow> 65535 dvd R + sum16 s' + sum16 n4"
    by (rule update_sum_at_some [OF l10 lo ln])
  let ?b2 = "overlay ?b1 10 s'"
  have lk: "?ofs + ?k + 2 \<le> length ?b2" using len by simp
  obtain s'' where s'': "update_sum_at ?b2 (?ofs + ?k) (take 4 (drop a b)) n4 = Some (overlay ?b2 (?ofs + ?k) s'')" "length s'' = 2"
    and d2: "\<forall>R. 65535 dvd R + sum16 (take 2 (drop (?ofs + ?k) ?b2)) + sum16 (take 4 (drop a b)) \<longrightarrow> 65535 dvd R + sum16 s'' + sum16 n4"
    by (rule update_sum_at_some [OF lk lo ln])
  have c1: "take 2 (drop 10 ?b1) = take 2 (drop 10 b)"
    using a by (auto simp: drop_overlay_low take_overlay_low)
  have c2: "drop (?ofs + ?k) ?b2 = drop (?ofs + ?k) b"
    using a ofs(1) ln s'(2) by (auto simp: drop_overlay_high)
  show thesis
  proof (rule that [OF s'(2) s''(2)])
    show "updateV4PacketChecksums g (q\<lparr>p_b := ?b1\<rparr>) old new = Some (q\<lparr>p_b := overlay ?b2 (?ofs + ?k) s''\<rparr>)"
      using g pr ofs(1,3) len(1,2) o4 n4 s'(1) s''(1)
      by (auto simp: updateV4PacketChecksums_def Let_def Transport_def slice_from_def gv_sizes_def l4_sum_ofs_def l4_min_def proto_defs)
    have "ip4_header_valid ?b2 ?ofs"
      using a by (intro header_rewrite) (use ofs len nz v(1) ln s'(2) d1 [unfolded c1, rule_format] in auto)
    then show "ip4_header_valid (overlay ?b2 (?ofs + ?k) s'') ?ofs"
      by (simp add: ip4_header_valid_def take_overlay_low)
    show "ip4_l4_valid (overlay ?b2 (?ofs + ?k) s'') ?ofs (p_IPProto q)"
      by (rule l4_rewrite) (use ofs len pr a v(2) ln s'(2) s''(2) d2 [unfolded c2, rule_format] in \<open>auto simp: proto_defs\<close>)
  qed
qed

text \<open>
  C2: Source rewriting (SNAT) of a decoded TCP or UDP packet over IPv4 that arrived with valid
  checksums: the new address is in the packet and in the record, the old one in the capture
  metadata, and both the IP header checksum and the transport checksum verify again, with no other
  byte changed.
\<close>

theorem UpdateSrcAddr_valid:
  assumes "Decode q b = Some p" "p_IPVersion p = 4" "p_IPProto p = UDP \<or> p_IPProto p = TCP"
    and "20 \<le> p_subofs p" "length b \<le> 65535" "gv_sizes g"
    and "ip4_header_valid b (p_subofs p)" "ip4_l4_valid b (p_subofs p) (p_IPProto p)"
  shows "\<exists>p' s' s''. UpdateSrcAddr g p (Addr4 n) = Some p' \<and> length s' = 2 \<and> length s'' = 2 \<and>
    p_b p' = overlay (overlay (overlay b 12 (be_bytes 4 (unat n))) 10 s') (p_subofs p + l4_sum_ofs (p_IPProto p)) s'' \<and>
    p_Src p' = (Addr4 n, snd (p_Src p)) \<and> p_Dst p' = p_Dst p \<and> cm_OriginalSrc (p_CaptureMeta p') = p_Src p \<and>
    ip4_header_valid (p_b p') (p_subofs p) \<and> ip4_l4_valid (p_b p') (p_subofs p) (p_IPProto p)"
proof -
  have pr: "p_IPProto p \<noteq> UnknownProto" using assms(3) by (auto simp: proto_defs)
  note f = Decode_v4_fields [OF assms(1,2) pr]
  have nz: "b ! 0 \<noteq> 0" using f(3) by auto
  let ?q = "p\<lparr>p_CaptureMeta := (p_CaptureMeta p)\<lparr>cm_DidSNAT := True, cm_OriginalSrc := p_Src p\<rparr>, p_Src := (Addr4 n, snd (p_Src p))\<rparr>"
  have o4: "as4 (fst (p_Src p)) = Some (take 4 (drop 12 b))"
    using f(2) by (simp add: f(6) v4_src_def as4_addr_from4)
  obtain s' s'' where "length s' = 2" "length s'' = 2"
    and "updateV4PacketChecksums g (?q\<lparr>p_b := overlay b 12 (be_bytes 4 (unat n))\<rparr>) (fst (p_Src p)) (Addr4 n) =
      Some (?q\<lparr>p_b := overlay (overlay (overlay b 12 (be_bytes 4 (unat n))) 10 s') (p_subofs p + l4_sum_ofs (p_IPProto p)) s''\<rparr>)"
    and "ip4_header_valid (overlay (overlay (overlay b 12 (be_bytes 4 (unat n))) 10 s') (p_subofs p + l4_sum_ofs (p_IPProto p)) s'') (p_subofs p)"
    and "ip4_l4_valid (overlay (overlay (overlay b 12 (be_bytes 4 (unat n))) 10 s') (p_subofs p + l4_sum_ofs (p_IPProto p)) s'') (p_subofs p) (p_IPProto p)"
    using rewrite_v4 [of g ?q b 12 "fst (p_Src p)" "Addr4 n"] assms(3-8) nz o4 f(4,10) by (auto simp: v4_ihl_eq)
  then show ?thesis
    using f(1,2) assms(2) by (simp add: UpdateSrcAddr_def is4_def is6_def) blast
qed

text \<open>
  C17: Destination rewriting (DNAT) of a decoded TCP or UDP packet over IPv4 that arrived with valid
  checksums: the new address is in the packet and in the record, the old one in the capture
  metadata, and both the IP header checksum and the transport checksum verify again, with no other
  byte changed.
\<close>

theorem UpdateDstAddr_valid:
  assumes "Decode q b = Some p" "p_IPVersion p = 4" "p_IPProto p = UDP \<or> p_IPProto p = TCP"
    and "20 \<le> p_subofs p" "length b \<le> 65535" "gv_sizes g"
    and "ip4_header_valid b (p_subofs p)" "ip4_l4_valid b (p_subofs p) (p_IPProto p)"
  shows "\<exists>p' s' s''. UpdateDstAddr g p (Addr4 n) = Some p' \<and> length s' = 2 \<and> length s'' = 2 \<and>
    p_b p' = overlay (overlay (overlay b 16 (be_bytes 4 (unat n))) 10 s') (p_subofs p + l4_sum_ofs (p_IPProto p)) s'' \<and>
    p_Dst p' = (Addr4 n, snd (p_Dst p)) \<and> p_Src p' = p_Src p \<and> cm_OriginalDst (p_CaptureMeta p') = p_Dst p \<and>
    ip4_header_valid (p_b p') (p_subofs p) \<and> ip4_l4_valid (p_b p') (p_subofs p) (p_IPProto p)"
proof -
  have pr: "p_IPProto p \<noteq> UnknownProto" using assms(3) by (auto simp: proto_defs)
  note f = Decode_v4_fields [OF assms(1,2) pr]
  have nz: "b ! 0 \<noteq> 0" using f(3) by auto
  let ?q = "p\<lparr>p_CaptureMeta := (p_CaptureMeta p)\<lparr>cm_DidDNAT := True, cm_OriginalDst := p_Dst p\<rparr>, p_Dst := (Addr4 n, snd (p_Dst p))\<rparr>"
  have o4: "as4 (fst (p_Dst p)) = Some (take 4 (drop 16 b))"
    using f(2) by (simp add: f(7) v4_dst_def as4_addr_from4)
  obtain s' s'' where "length s' = 2" "length s'' = 2"
    and "updateV4PacketChecksums g (?q\<lparr>p_b := overlay b 16 (be_bytes 4 (unat n))\<rparr>) (fst (p_Dst p)) (Addr4 n) =
      Some (?q\<lparr>p_b := overlay (overlay (overlay b 16 (be_bytes 4 (unat n))) 10 s') (p_subofs p + l4_sum_ofs (p_IPProto p)) s''\<rparr>)"
    and "ip4_header_valid (overlay (overlay (overlay b 16 (be_bytes 4 (unat n))) 10 s') (p_subofs p + l4_sum_ofs (p_IPProto p)) s'') (p_subofs p)"
    and "ip4_l4_valid (overlay (overlay (overlay b 16 (be_bytes 4 (unat n))) 10 s') (p_subofs p + l4_sum_ofs (p_IPProto p)) s'') (p_subofs p) (p_IPProto p)"
    using rewrite_v4 [of g ?q b 16 "fst (p_Dst p)" "Addr4 n"] assms(3-8) nz o4 f(4,10) by (auto simp: v4_ihl_eq)
  then show ?thesis
    using f(1,2) assms(2) by (simp add: UpdateDstAddr_def is4_def is6_def) blast
qed

subsection \<open>Generated packets decode, and echo requests are answered\<close>

lemma be16_split: "v < 65536 \<Longrightarrow> 256 * (v div 256 mod 256) + v mod 256 = (v :: nat)"
  by simp

lemma ip4_bytes_access:
  assumes "length s = 4" "length d = 4" "l < 65536" and b_def: "b = ip4_bytes pr i l s d c @ r"
  shows "b ! 0 = 0x45" "b ! 9 = pr" "v4_len b = l" "v4_ihl b = 20" "v4_frag b = 0"
    "v4_src b = addr_from4 s" "v4_dst b = addr_from4 d" "drop 20 b = r" "get16 b 4 = Some i" "20 \<le> length b"
proof -
  have i: "256 * (unat i div 256 mod 256) + unat i mod 256 = unat i" by (rule be16_split) simp
  show "b ! 0 = 0x45" "b ! 9 = pr" "v4_len b = l" "v4_ihl b = 20" "v4_frag b = 0"
    "v4_src b = addr_from4 s" "v4_dst b = addr_from4 d" "drop 20 b = r" "20 \<le> length b"
    using assms(1-3) be16_split [OF assms(3)]
    by (simp_all add: b_def ip4_bytes_def be_bytes_2 v4_len_def v4_ihl_def v4_frag_def v4_src_def v4_dst_def)
  show "get16 b 4 = Some i"
    using assms(1,2) i by (simp add: b_def ip4_bytes_def be_bytes_2 get16_some del: of_nat_add of_nat_mult)
qed

lemma udp_bytes_access:
  "with_ports q (udp_bytes sp dp l c @ r) = Some (q\<lparr>p_Src := withPort (p_Src q) sp, p_Dst := withPort (p_Dst q) dp\<rparr>)"
proof -
  have i: "256 * (unat i div 256 mod 256) + unat i mod 256 = unat i" for i :: u16 by (rule be16_split) simp
  show ?thesis by (simp add: with_ports_some udp_bytes_def be_bytes_2 i del: of_nat_add of_nat_mult)
qed

text \<open>
  C16: Decoding inverts generating: a UDP packet generated over IPv4 decodes, whatever record the
  pool hands out, to its protocol, endpoints, ports, identification and payload.
\<close>

theorem Decode_Generate_UDP4:
  assumes "length pay \<le> 65507" "h4_Src (u4_IP h) = Addr4 s" "h4_Dst (u4_IP h) = Addr4 d"
  shows "\<exists>out p. Generate (HUDP4 h) pay = Some out \<and> Decode q out = Some p \<and> p_IPVersion p = 4 \<and> p_IPProto p = UDP \<and>
    UDP4Header_of p = Some (h\<lparr>u4_IP := (u4_IP h)\<lparr>h4_IPProto := UDP\<rparr>\<rparr>) \<and> Payload p = Some (pay, False)"
proof -
  let ?sb = "be_bytes 4 (unat s)" and ?db = "be_bytes 4 (unat d)"
  obtain c c' where out: "Generate (HUDP4 h) pay = Some (ip4_bytes UDP (h4_IPID (u4_IP h)) (28 + length pay) ?sb ?db c @
      udp_bytes (u4_SrcPort h) (u4_DstPort h) (8 + length pay) c' @ pay)"
    using assms by (auto simp: Generate_def len_defs UDP4_Marshal_bytes)
  let ?r = "udp_bytes (u4_SrcPort h) (u4_DstPort h) (8 + length pay) c' @ pay"
  let ?out = "ip4_bytes UDP (h4_IPID (u4_IP h)) (28 + length pay) ?sb ?db c @ ?r"
  have l: "28 + length pay < 65536" using assms(1) by simp
  note a = ip4_bytes_access [OF _ _ l refl, of ?sb ?db UDP "h4_IPID (u4_IP h)" c ?r, simplified]
  have "Decode q ?out = Some (q\<lparr>p_b := ?out, p_trunc := False, p_CaptureMeta := empty_meta, p_IPVersion := 4,
     p_IPProto := UDP, p_length := 28 + length pay, p_Src := (Addr4 s, u4_SrcPort h), p_Dst := (Addr4 d, u4_DstPort h),
     p_subofs := 20, p_dataofs := 28\<rparr>)"
    by (simp add: Decode_def decode_v4 decode4_eq a Let_def decode4_first_def udp_bytes_access len_defs withIP_def withPort_def)
  then show ?thesis
    using out assms a by (simp add: UDP4Header_of_def IP4Header_of_def Payload_def slice_def)
qed

lemma Decode_v4_icmp:
  assumes "Decode q b = Some p" "p_IPVersion p = 4" "p_IPProto p = ICMPv4"
  shows "p_dataofs p = p_subofs p + 4" "snd (p_Src p) = 0" "snd (p_Dst p) = 0" "p_trunc p = False"
proof -
  have pr: "p_IPProto p \<noteq> UnknownProto" using assms(3) by simp
  note f = Decode_v4_fields [OF assms(1,2) pr]
  have "p_dataofs p = p_subofs p + 4 \<and> snd (p_Src p) = 0 \<and> snd (p_Dst p) = 0 \<and> p_trunc p = False"
    using assms f(2,3,8,9)
    by (simp add: Decode_def decode_v4 decode4_eq Let_def decode4_first_def set_unknown_def withPort_def len_defs split: if_splits)
       (auto simp: with_ports_def Option.bind_eq_Some_conv)
  then show "p_dataofs p = p_subofs p + 4" "snd (p_Src p) = 0" "snd (p_Dst p) = 0" "p_trunc p = False" by auto
qed

text \<open>Decoding a generated ICMPv4 message.\<close>

lemma Decode_icmp4_bytes:
  assumes "4 \<le> length m" "length m + 20 < 65536" "length sb = 4" "length db = 4"
  shows "Decode q (ip4_bytes ICMPv4 i (20 + length m) sb db c @ m) =
    Some (q\<lparr>p_b := ip4_bytes ICMPv4 i (20 + length m) sb db c @ m, p_trunc := False, p_CaptureMeta := empty_meta, p_IPVersion := 4,
     p_IPProto := ICMPv4, p_length := 20 + length m, p_Src := (addr_from4 sb, 0), p_Dst := (addr_from4 db, 0),
     p_subofs := 20, p_dataofs := 24\<rparr>)"
proof -
  have l: "20 + length m < 65536" using assms(2) by simp
  note a = ip4_bytes_access [OF assms(3,4) l refl, of ICMPv4 i c m]
  show ?thesis
    using assms by (simp add: Decode_def decode_v4 decode4_eq a Let_def decode4_first_def len_defs withIP_def withPort_def)
qed


subsection \<open>Independence of the pool, and the panics\<close>

text \<open>Equal up to what a pooled record may carry over: the data offset, the TCP flags and the ports.\<close>

definition stale_eq :: "Parsed \<Rightarrow> Parsed \<Rightarrow> bool" where
  "stale_eq q q' \<longleftrightarrow> (\<exists>d t sp dp. q' = q\<lparr>p_dataofs := d, p_TCPFlags := t,
     p_Src := (fst (p_Src q), sp), p_Dst := (fst (p_Dst q), dp)\<rparr>)"

definition own_icmp :: "u8 \<Rightarrow> u8" where
  "own_icmp v = (if v = 4 then ICMPv4 else ICMPv6)"

definition agree :: "Parsed \<Rightarrow> Parsed \<Rightarrow> bool" where
  "agree p p' \<longleftrightarrow> p_IPVersion p' = p_IPVersion p \<and> p_IPProto p' = p_IPProto p \<and>
    (p_IPVersion p \<noteq> 0 \<and> p_IPProto p \<in> {TCP, UDP, own_icmp (p_IPVersion p)} \<longrightarrow>
       p' = p\<lparr>p_TCPFlags := (if p_IPProto p = TCP then p_TCPFlags p else p_TCPFlags p')\<rparr>)"

lemma decode4_first_indep_aux:
  assumes "decode4_first q1 sub mf = Some p1" "decode4_first q2 sub mf = Some p2"
    and "q2 = q1\<lparr>p_dataofs := d, p_TCPFlags := t, p_Src := (fst (p_Src q1), sp), p_Dst := (fst (p_Dst q1), dp)\<rparr>"
  shows "p_IPProto p2 = p_IPProto p1 \<and>
    (p_IPProto p1 \<in> {TCP, UDP, ICMPv4} \<longrightarrow> p2 = p1\<lparr>p_TCPFlags := (if p_IPProto p1 = TCP then p_TCPFlags p1 else p_TCPFlags p2)\<rparr>)"
  using assms
  by (auto simp: decode4_first_def with_ports_some set_unknown_def len_defs withPort_def TCPFlagsOffset_def split: if_splits)

lemma decode6_sub_indep_aux:
  assumes "decode6_sub q1 sub = Some p1" "decode6_sub q2 sub = Some p2"
    and "q2 = q1\<lparr>p_dataofs := d, p_TCPFlags := t, p_Src := (fst (p_Src q1), sp), p_Dst := (fst (p_Dst q1), dp)\<rparr>"
  shows "p_IPProto p2 = p_IPProto p1 \<and>
    (p_IPProto p1 \<in> {TCP, UDP, ICMPv6} \<longrightarrow> p2 = p1\<lparr>p_TCPFlags := (if p_IPProto p1 = TCP then p_TCPFlags p1 else p_TCPFlags p2)\<rparr>)"
  using assms
  by (auto simp: decode6_sub_def with_ports_some set_unknown_def len_defs withPort_def split: if_splits)

lemma decode4_first_version: "decode4_first q sub mf = Some p \<Longrightarrow> p_IPVersion p = p_IPVersion q"
  using decode4_first_frame [of q sub mf] by (auto simp: same_frame_def)

lemma decode6_sub_version: "decode6_sub q sub = Some p \<Longrightarrow> p_IPVersion p = p_IPVersion q"
  using decode6_sub_frame [of q sub] by (auto simp: same_frame_def)

lemma decode4_first_indep:
  assumes "decode4_first q sub mf = Some p" "decode4_first q' sub mf = Some p'" "stale_eq q q'" "p_IPVersion q = 4"
  shows "agree p p'"
proof -
  obtain d t sp dp where q': "q' = q\<lparr>p_dataofs := d, p_TCPFlags := t, p_Src := (fst (p_Src q), sp), p_Dst := (fst (p_Dst q), dp)\<rparr>"
    using assms(3) unfolding stale_eq_def by blast
  have "p_IPVersion p = 4" "p_IPVersion p' = 4"
    using decode4_first_version [OF assms(1)] decode4_first_version [OF assms(2)] assms(4) by (simp_all add: q')
  then show ?thesis
    using decode4_first_indep_aux [OF assms(1,2) q'] by (simp add: agree_def own_icmp_def)
qed

lemma decode6_sub_indep:
  assumes "decode6_sub q sub = Some p" "decode6_sub q' sub = Some p'" "stale_eq q q'" "p_IPVersion q = 6"
  shows "agree p p'"
proof -
  obtain d t sp dp where q': "q' = q\<lparr>p_dataofs := d, p_TCPFlags := t, p_Src := (fst (p_Src q), sp), p_Dst := (fst (p_Dst q), dp)\<rparr>"
    using assms(3) unfolding stale_eq_def by blast
  have "p_IPVersion p = 6" "p_IPVersion p' = 6"
    using decode6_sub_version [OF assms(1)] decode6_sub_version [OF assms(2)] assms(4) by (simp_all add: q')
  then show ?thesis
    using decode6_sub_indep_aux [OF assms(1,2) q'] by (simp add: agree_def own_icmp_def)
qed

definition v4_start :: "Parsed \<Rightarrow> bytes \<Rightarrow> Parsed" where
  "v4_start q b = q\<lparr>p_b := b, p_trunc := False, p_CaptureMeta := empty_meta, p_IPVersion := 4,
    p_IPProto := b ! 9, p_length := v4_len b, p_Src := withIP (p_Src q) (v4_src b),
    p_Dst := withIP (p_Dst q) (v4_dst b), p_subofs := v4_ihl b\<rparr>"

definition v6_start :: "Parsed \<Rightarrow> bytes \<Rightarrow> Parsed" where
  "v6_start q b = q\<lparr>p_b := b, p_trunc := False, p_CaptureMeta := empty_meta, p_IPVersion := 6,
    p_IPProto := b ! 6, p_length := 256 * unat (b ! 4) + unat (b ! 5) + 40,
    p_Src := withIP (p_Src q) (Addr6 (of_nat (be_val (take 16 (drop 8 b))))),
    p_Dst := withIP (p_Dst q) (Addr6 (of_nat (be_val (take 16 (drop 24 b))))), p_subofs := 40\<rparr>"

lemma stale_eq_start: "stale_eq (v4_start q b) (v4_start q' b)" "stale_eq (v6_start q b) (v6_start q' b)"
proof -
  have "v4_start q' b = (v4_start q b)\<lparr>p_dataofs := p_dataofs q', p_TCPFlags := p_TCPFlags q',
      p_Src := (fst (p_Src (v4_start q b)), snd (p_Src q')), p_Dst := (fst (p_Dst (v4_start q b)), snd (p_Dst q'))\<rparr>"
    by (cases q; cases q') (simp add: v4_start_def withIP_def)
  then show "stale_eq (v4_start q b) (v4_start q' b)" unfolding stale_eq_def by blast
  have "v6_start q' b = (v6_start q b)\<lparr>p_dataofs := p_dataofs q', p_TCPFlags := p_TCPFlags q',
      p_Src := (fst (p_Src (v6_start q b)), snd (p_Src q')), p_Dst := (fst (p_Dst (v6_start q b)), snd (p_Dst q'))\<rparr>"
    by (cases q; cases q') (simp add: v6_start_def withIP_def)
  then show "stale_eq (v6_start q b) (v6_start q' b)" unfolding stale_eq_def by blast
qed

lemma start_version [simp]: "p_IPVersion (v4_start q b) = 4" "p_IPVersion (v6_start q b) = 6"
  by (simp_all add: v4_start_def v6_start_def)

lemma Decode_v4_start:
  assumes "20 \<le> length b" "drop_bit 4 (b ! 0) = 4"
  shows "Decode q b =
    (if length b < v4_len b then Some (set_unknown (q\<lparr>p_b := b, p_trunc := False, p_CaptureMeta := empty_meta, p_IPVersion := 4,
       p_IPProto := b ! 9, p_length := v4_len b\<rparr>))
     else if v4_len b < v4_ihl b then Some (set_unknown (v4_start q b))
     else if v4_frag b AND 0x1FFF = 0 then decode4_first (v4_start q b) (drop (v4_ihl b) b) (v4_frag b AND 0x2000 \<noteq> 0)
     else if unat (v4_frag b AND 0x1FFF) < minFragBlks then Some (set_unknown (v4_start q b))
     else Some ((v4_start q b)\<lparr>p_IPProto := Fragment\<rparr>))"
  by (simp add: Decode_def decode_v4 assms decode4_eq v4_start_def)

lemma Decode_v6_start:
  assumes "40 \<le> length b" "drop_bit 4 (b ! 0) = 6"
  shows "Decode q b =
    (if length b < 256 * unat (b ! 4) + unat (b ! 5) + 40
     then Some (set_unknown (q\<lparr>p_b := b, p_trunc := False, p_CaptureMeta := empty_meta, p_IPVersion := 6,
       p_IPProto := b ! 6, p_length := 256 * unat (b ! 4) + unat (b ! 5) + 40\<rparr>))
     else decode6_sub (v6_start q b) (drop 40 b))"
  by (simp add: Decode_def decode_v6 assms decode6_eq v6_start_def)

lemma agree_unknown:
  "p_IPVersion p = p_IPVersion p' \<Longrightarrow> agree (set_unknown p) (set_unknown p')"
  "p_IPVersion p = p_IPVersion p' \<Longrightarrow> agree (p\<lparr>p_IPProto := Fragment\<rparr>) (p'\<lparr>p_IPProto := Fragment\<rparr>)"
  by (auto simp: agree_def own_icmp_def set_unknown_def split: if_splits)

text \<open>
  C23: Decoding does not depend on the record the pool hands out: for TCP, UDP and the ICMP of the
  packet's own version, every field but the TCP flags is a function of the bytes, and for TCP the
  flags are too.
\<close>

theorem Decode_pool_independent:
  assumes "Decode q b = Some p" "Decode q' b = Some p'"
  shows "p_IPVersion p' = p_IPVersion p \<and> p_IPProto p' = p_IPProto p \<and>
    (p_IPVersion p \<noteq> 0 \<and> p_IPProto p \<in> {TCP, UDP, own_icmp (p_IPVersion p)} \<longrightarrow>
       p' = p\<lparr>p_TCPFlags := (if p_IPProto p = TCP then p_TCPFlags p else p_TCPFlags p')\<rparr>)"
proof -
  consider (v4) "20 \<le> length b" "drop_bit 4 (b ! 0) = 4" | (v6) "40 \<le> length b" "drop_bit 4 (b ! 0) = 6"
    | (none) "\<not> (20 \<le> length b \<and> drop_bit 4 (b ! 0) = 4)" "\<not> (40 \<le> length b \<and> drop_bit 4 (b ! 0) = 6)"
    by blast
  then have "agree p p'"
  proof cases
    case v4
    then show ?thesis
      using assms decode4_first_indep [OF _ _ stale_eq_start(1)]
      by (auto simp: Decode_v4_start intro: agree_unknown split: if_splits)
  next
    case v6
    then show ?thesis
      using assms decode6_sub_indep [OF _ _ stale_eq_start(2)]
      by (auto simp: Decode_v6_start intro: agree_unknown split: if_splits)
  next
    case none
    then have "p_IPVersion p = 0 \<and> p_IPVersion p' = 0 \<and> p_IPProto p = UnknownProto \<and> p_IPProto p' = UnknownProto"
      using assms
      by (cases "b = []") (auto simp: Decode_def decode_def decode4_def decode6_def len_defs Let_def Suc_le_eq not_le split: if_splits)
    then show ?thesis by (simp add: agree_def)
  qed
  then show ?thesis unfolding agree_def .
qed


text \<open>
  A bare 40-byte IPv6 header that announces ICMPv4 as its payload crashes the echo responder:
  the decoder keeps the foreign protocol without a length check and the logging of the request
  reads the ICMP type behind the end of the packet.
\<close>

theorem handle_icmp_foreign_panics:
  assumes "length b = 40" "drop_bit 4 (b ! 0) = 6" "b ! 4 = 0" "b ! 5 = 0" "b ! 6 = ICMPv4"
    and "r_open r" "r_handler r" "gv_sizes g"
  shows "handle_icmp g r q b = None"
proof -
  have b: "40 \<le> length b" using assms(1) by simp
  have "Decode q b = Some (v6_start q b)"
    using assms by (simp add: Decode_v6_start [OF b] decode6_sub_def) (simp add: v6_start_def)
  moreover have "p_IPProto (v6_start q b) = ICMPv4" "p_b (v6_start q b) = b" "p_subofs (v6_start q b) = 40"
    using assms by (simp_all add: v6_start_def)
  ultimately show ?thesis
    using assms by (simp add: handle_icmp_def ICMPHeaderString_def ICMP4Header_of_def IP4Header_of_def get8_def gv_sizes_def)
qed

theorem handle_icmp_foreign_panics_witness:
  "handle_icmp \<lparr>UDPMinimumSize = 8, TCPMinimumSize = 20, ICMPv4MinimumSize = 8, ICMPv6MinimumSize = 8, IPv4MinimumSize = 20,
       AddrFrom16Slice = Some, ICMPv6_update = (\<lambda>t _ _. t), UDP_update = (\<lambda>t _ _ _. t), TCP_update = (\<lambda>t _ _ _. t)\<rparr>
     \<lparr>r_open = True, r_ep = True, r_handler = True, r_useForwarder = False, r_forward = (\<lambda>_ _ _. False), r_allow = True,
       r_ping = (\<lambda>_ _ _. True)\<rparr> new_Parsed ([0x60, 0, 0, 0, 0, 0, 1, 64] @ replicate 32 0) = None"
  by (rule handle_icmp_foreign_panics) (simp_all add: proto_defs gv_sizes_def)


subsection \<open>Sample packets\<close>

definition sample_gvisor :: gvisor where
  "sample_gvisor = \<lparr>UDPMinimumSize = 8, TCPMinimumSize = 20, ICMPv4MinimumSize = 8, ICMPv6MinimumSize = 8, IPv4MinimumSize = 20,
     AddrFrom16Slice = Some, ICMPv6_update = (\<lambda>t _ _. t), UDP_update = (\<lambda>t _ _ _. t), TCP_update = (\<lambda>t _ _ _. t)\<rparr>"

definition sample_udp :: bytes where
  "sample_udp = [69, 0, 0, 31, 0, 7, 0, 0, 64, 17, 96, 183, 10, 0, 0, 1, 8, 8, 8, 8, 20,
     233, 0, 53, 0, 11, 204, 167, 1, 2, 3]"

definition sample_echo :: bytes where
  "sample_echo = [69, 0, 0, 32, 0, 7, 0, 0, 64, 1, 96, 198, 10, 0, 0, 1, 8, 8, 8, 8, 8, 0, 243, 248, 0, 1, 0, 2, 1, 2, 3, 4]"

lemma length_sample: "length sample_udp = 31" "length sample_echo = 32"
  by (simp_all add: sample_udp_def sample_echo_def)

lemma Decode_sample_udp:
  "Decode new_Parsed sample_udp = Some (new_Parsed\<lparr>p_b := sample_udp, p_IPVersion := 4, p_IPProto := UDP, p_length := 31,
     p_Src := (Addr4 167772161, 5353), p_Dst := (Addr4 134744072, 53), p_subofs := 20, p_dataofs := 28\<rparr>)"
proof -
  have b: "20 \<le> length sample_udp" "drop_bit 4 (sample_udp ! 0) = 4" by (simp_all add: sample_udp_def)
  have "sample_udp ! 9 = UDP" "v4_len sample_udp = 31" "v4_ihl sample_udp = 20" "v4_frag sample_udp = 0"
    "v4_src sample_udp = Addr4 167772161" "v4_dst sample_udp = Addr4 134744072"
    by (simp_all add: sample_udp_def UDP_def v4_len_def v4_ihl_def v4_frag_def v4_src_def v4_dst_def addr_from4_def be_val_def)
  moreover have "with_ports q (drop 20 sample_udp) = Some (q\<lparr>p_Src := withPort (p_Src q) 5353, p_Dst := withPort (p_Dst q) 53\<rparr>)" for q
    by (simp add: with_ports_some sample_udp_def)
  ultimately show ?thesis
    by (simp add: Decode_v4_start [OF b] length_sample v4_start_def decode4_first_def len_defs withIP_def withPort_def new_Parsed_def)
qed

lemma Decode_sample_echo:
  "Decode new_Parsed sample_echo = Some (new_Parsed\<lparr>p_b := sample_echo, p_IPVersion := 4, p_IPProto := ICMPv4, p_length := 32,
     p_Src := (Addr4 167772161, 0), p_Dst := (Addr4 134744072, 0), p_subofs := 20, p_dataofs := 24\<rparr>)"
proof -
  have b: "20 \<le> length sample_echo" "drop_bit 4 (sample_echo ! 0) = 4" by (simp_all add: sample_echo_def)
  have "sample_echo ! 9 = ICMPv4" "v4_len sample_echo = 32" "v4_ihl sample_echo = 20" "v4_frag sample_echo = 0"
    "v4_src sample_echo = Addr4 167772161" "v4_dst sample_echo = Addr4 134744072"
    by (simp_all add: sample_echo_def ICMPv4_def v4_len_def v4_ihl_def v4_frag_def v4_src_def v4_dst_def addr_from4_def be_val_def)
  then show ?thesis
    by (simp add: Decode_v4_start [OF b] length_sample v4_start_def decode4_first_def len_defs withIP_def withPort_def new_Parsed_def)
qed

lemma sample_udp_valid: "ip4_header_valid sample_udp 20" "ip4_l4_valid sample_udp 20 UDP"
  by (simp_all add: ip4_header_valid_def ip4_l4_valid_def sample_udp_def ip4Checksum_zero_iff pseudo4_def be_bytes_2 UDP_def)

lemma gv_sizes_sample: "gv_sizes sample_gvisor"
  by (simp add: gv_sizes_def sample_gvisor_def)

theorem UpdateSrcAddr_valid_witness:
  "\<exists>p p'. Decode new_Parsed sample_udp = Some p \<and> UpdateSrcAddr sample_gvisor p (Addr4 0x0A000002) = Some p' \<and>
     ip4_header_valid (p_b p') 20 \<and> ip4_l4_valid (p_b p') 20 UDP"
  using UpdateSrcAddr_valid [OF Decode_sample_udp, of sample_gvisor "0x0A000002"] sample_udp_valid gv_sizes_sample
  by (auto simp: Decode_sample_udp length_sample)

theorem UpdateDstAddr_valid_witness:
  "\<exists>p p'. Decode new_Parsed sample_udp = Some p \<and> UpdateDstAddr sample_gvisor p (Addr4 0x01010101) = Some p' \<and>
     ip4_header_valid (p_b p') 20 \<and> ip4_l4_valid (p_b p') 20 UDP"
  using UpdateDstAddr_valid [OF Decode_sample_udp, of sample_gvisor "0x01010101"] sample_udp_valid gv_sizes_sample
  by (auto simp: Decode_sample_udp length_sample)

theorem Decode_Generate_UDP4_witness:
  "\<exists>out p. Generate (HUDP4 \<lparr>u4_IP = \<lparr>h4_IPProto = 0, h4_IPID = 7, h4_Src = Addr4 1, h4_Dst = Addr4 2\<rparr>,
      u4_SrcPort = 5353, u4_DstPort = 53\<rparr>) [1, 2, 3] = Some out \<and> Decode new_Parsed out = Some p \<and> Payload p = Some ([1, 2, 3], False)"
  using Decode_Generate_UDP4 [where pay = "[1, 2, 3]" and s = 1 and d = 2 and q = new_Parsed and h = "\<lparr>u4_IP = \<lparr>h4_IPProto = 0, h4_IPID = 7,
      h4_Src = Addr4 1, h4_Dst = Addr4 2\<rparr>, u4_SrcPort = 5353, u4_DstPort = 53\<rparr>"] by auto

theorem Decode_pool_independent_witness:
  "\<exists>p. Decode (new_Parsed\<lparr>p_dataofs := 99, p_Src := (Addr6 5, 7)\<rparr>) sample_udp = Some p \<and>
     p_dataofs p = 28 \<and> p_Src p = (Addr4 167772161, 5353)"
proof -
  obtain p where p: "Decode (new_Parsed\<lparr>p_dataofs := 99, p_Src := (Addr6 5, 7)\<rparr>) sample_udp = Some p"
    using Decode_v4_frame [of sample_udp] by (auto simp: length_sample sample_udp_def)
  have e: "p = new_Parsed\<lparr>p_b := sample_udp, p_IPVersion := 4, p_IPProto := UDP, p_length := 31,
     p_Src := (Addr4 167772161, 5353), p_Dst := (Addr4 134744072, 53), p_subofs := 20, p_dataofs := 28,
     p_TCPFlags := p_TCPFlags p\<rparr>"
    using Decode_pool_independent [OF Decode_sample_udp p] by simp
  show ?thesis using p arg_cong [OF e, of p_dataofs] arg_cong [OF e, of p_Src] by simp
qed

definition sample_responder :: responder where
  "sample_responder = \<lparr>r_open = True, r_ep = True, r_handler = True, r_useForwarder = False, r_forward = (\<lambda>_ _ _. False),
     r_allow = True, r_ping = (\<lambda>_ _ _. True)\<rparr>"


end
