(* ===== verification/Ring.thy ===== *)
theory Ring
  imports Main
begin

text \<open>
  The log ring of \<^verbatim>\<open>intra/log/ring.go\<close>: a slot array with a head and a tail, an input channel that
  \<^verbatim>\<open>Push\<close> fills without blocking and the \<^verbatim>\<open>process\<close> goroutine drains, and an eviction callback. The
  record keeps what the callback was called with. The contract is a bounded queue that drops its
  oldest element when full (locale \<open>bounded_queue\<close>); the ring implements it with one slot less than
  it has. \<open>push_outcome\<close> is the relation of what one \<^verbatim>\<open>Push\<close> may do when the context is cancelled
  between its two selects.
\<close>

subsection \<open>State\<close>

record 'a ring =
  r_b :: "'a list"
  r_inC :: "'a list"
  r_inCap :: nat
  r_head :: nat
  r_tail :: nat
  r_done :: bool
  r_closed :: bool
  r_evicted :: "'a list"

definition newRing :: "'a \<Rightarrow> int \<Rightarrow> 'a ring" where
  "newRing zero capacity =
     (let capacity = (if capacity \<le> 1 then 256 else nat capacity)
      in \<lparr>r_b = replicate capacity zero, r_inC = [], r_inCap = capacity div 2, r_head = 0, r_tail = 0,
          r_done = False, r_closed = False, r_evicted = []\<rparr>)"

subsection \<open>Operations\<close>

text \<open>One round of the loop of \<^verbatim>\<open>process\<close>, on the value it received.\<close>

definition ring_put :: "'a ring \<Rightarrow> 'a \<Rightarrow> 'a ring" where
  "ring_put r v =
     (let r = r\<lparr>r_b := (r_b r)[r_head r := v]\<rparr>;
          r = r\<lparr>r_head := (r_head r + 1) mod length (r_b r)\<rparr>
      in if r_head r = r_tail r
         then r\<lparr>r_evicted := r_evicted r @ [r_b r ! r_tail r], r_tail := (r_tail r + 1) mod length (r_b r)\<rparr>
         else r)"

fun ring_process :: "'a ring \<Rightarrow> 'a list \<Rightarrow> 'a ring" where
  "ring_process r [] = r"
| "ring_process r (v # vs) = ring_process (ring_put r v) vs"

definition ring_drain :: "'a ring \<Rightarrow> 'a ring" where
  \<comment> \<open>\<^verbatim>\<open>process\<close> run on everything the channel holds\<close>
  "ring_drain r = ring_process (r\<lparr>r_inC := []\<rparr>) (r_inC r)"

definition ring_Pop :: "'a \<Rightarrow> 'a ring \<Rightarrow> 'a \<times> 'a ring" where
  "ring_Pop zero r =
     (if r_head r = r_tail r then (zero, r)
      else (r_b r ! r_tail r, r\<lparr>r_tail := (r_tail r + 1) mod length (r_b r)\<rparr>))"

definition lenLocked :: "'a ring \<Rightarrow> nat" where
  "lenLocked r = (if r_tail r \<le> r_head r then r_head r - r_tail r else length (r_b r) - r_tail r + r_head r)"

definition ring_Cap :: "'a ring \<Rightarrow> nat" where
  "ring_Cap r = length (r_b r)"

definition ring_Peek :: "'a \<Rightarrow> 'a ring \<Rightarrow> 'a" where
  "ring_Peek zero r = (if r_head r = r_tail r then zero else r_b r ! r_tail r)"

text \<open>The loops of \<^verbatim>\<open>Reset\<close> and \<^verbatim>\<open>All\<close> walk from the tail until they meet the head; \<open>None\<close>: they never do.\<close>

partial_function (option) walk :: "'a list \<Rightarrow> nat \<Rightarrow> nat \<Rightarrow> 'a list \<Rightarrow> 'a list option" where
  "walk b i head acc = (if i = head then Some acc else walk b ((i + 1) mod length b) head (acc @ [b ! i]))"

definition ring_Reset :: "'a ring \<Rightarrow> 'a ring option" where
  "ring_Reset r = (case walk (r_b r) (r_tail r) (r_head r) (r_evicted r) of
     None \<Rightarrow> None
   | Some ev \<Rightarrow> Some (r\<lparr>r_evicted := ev, r_head := 0, r_tail := 0\<rparr>))"

definition ring_All :: "'a ring \<Rightarrow> 'a list option" where
  "ring_All r = walk (r_b r) (r_tail r) (r_head r) []"

text \<open>
  \<^verbatim>\<open>Push\<close> looks at the context, then selects between the context, the channel and the default. The
  context may be cancelled, and its callback may close the channel, in between: the first select
  sees \<open>r\<close>, the second one \<open>r'\<close>. A send on a closed channel is ready, and panics when chosen.
\<close>

datatype push_result = Pushed bool | PushPanics

definition cancel :: "'a ring \<Rightarrow> 'a ring" where
  "cancel r = r\<lparr>r_done := True, r_closed := True\<rparr>"

inductive push_outcome :: "'a ring \<Rightarrow> 'a ring \<Rightarrow> 'a \<Rightarrow> push_result \<Rightarrow> 'a ring \<Rightarrow> bool" where
  done_first: "r_done r \<Longrightarrow> push_outcome r r' v (Pushed False) r'"
| done_second: "\<not> r_done r \<Longrightarrow> r_done r' \<Longrightarrow> push_outcome r r' v (Pushed False) r'"
| send: "\<not> r_done r \<Longrightarrow> \<not> r_closed r' \<Longrightarrow> length (r_inC r') < r_inCap r' \<Longrightarrow>
    push_outcome r r' v (Pushed True) (r'\<lparr>r_inC := r_inC r' @ [v]\<rparr>)"
| send_closed: "\<not> r_done r \<Longrightarrow> r_closed r' \<Longrightarrow> push_outcome r r' v PushPanics r'"
| full: "\<not> r_done r \<Longrightarrow> \<not> r_done r' \<Longrightarrow> \<not> r_closed r' \<Longrightarrow> r_inCap r' \<le> length (r_inC r') \<Longrightarrow>
    push_outcome r r' v (Pushed False) r'"

inductive_cases push_panics_cases: "push_outcome r r' v PushPanics r''"
inductive_cases pushed_cases: "push_outcome r r' v (Pushed ok) r''"

text \<open>\<^verbatim>\<open>Push\<close> when nothing happens between its selects.\<close>

definition ring_Push :: "'a ring \<Rightarrow> 'a \<Rightarrow> bool \<times> 'a ring" where
  "ring_Push r v =
     (if r_done r then (False, r)
      else if length (r_inC r) < r_inCap r then (True, r\<lparr>r_inC := r_inC r @ [v]\<rparr>)
      else (False, r))"

subsection \<open>Invariant and abstraction\<close>

definition ring_inv :: "'a ring \<Rightarrow> bool" where
  "ring_inv r \<longleftrightarrow> 2 \<le> length (r_b r) \<and> r_head r < length (r_b r) \<and> r_tail r < length (r_b r)"

definition ring_list :: "'a ring \<Rightarrow> 'a list" where
  "ring_list r = map (\<lambda>k. r_b r ! ((r_tail r + k) mod length (r_b r))) [0..<lenLocked r]"

lemma length_ring_list [simp]: "length (ring_list r) = lenLocked r"
  by (simp add: ring_list_def)

lemma lenLocked_less: "ring_inv r \<Longrightarrow> lenLocked r < length (r_b r)"
  by (auto simp: ring_inv_def lenLocked_def)

lemma lenLocked_0_iff: "ring_inv r \<Longrightarrow> lenLocked r = 0 \<longleftrightarrow> r_head r = r_tail r"
  by (auto simp: ring_inv_def lenLocked_def)

lemma tail_plus_len: "ring_inv r \<Longrightarrow> (r_tail r + lenLocked r) mod length (r_b r) = r_head r"
  by (auto simp: ring_inv_def lenLocked_def)

lemma mod_step: "i < n \<Longrightarrow> Suc i mod n = (if Suc i = n then 0 else Suc i)"
  by (auto simp: mod_Suc)

lemma newRing_inv: "ring_inv (newRing zero c)"
  by (auto simp: ring_inv_def newRing_def Let_def)

lemma newRing_list: "ring_list (newRing zero c) = []"
  by (simp add: ring_list_def lenLocked_def newRing_def Let_def)

lemma ring_put_inv: "ring_inv r \<Longrightarrow> ring_inv (ring_put r v)"
  by (auto simp: ring_inv_def ring_put_def Let_def intro: mod_less_divisor)

lemma ring_Pop_inv: "ring_inv r \<Longrightarrow> ring_inv (snd (ring_Pop zero r))"
  by (auto simp: ring_inv_def ring_Pop_def intro: mod_less_divisor)

subsection \<open>The ring as a list\<close>

lemma ring_list_Cons:
  assumes "ring_inv r" "r_head r \<noteq> r_tail r"
  shows "ring_list r = r_b r ! r_tail r # ring_list (r\<lparr>r_tail := (r_tail r + 1) mod length (r_b r)\<rparr>)"
proof -
  let ?n = "length (r_b r)" and ?r = "r\<lparr>r_tail := (r_tail r + 1) mod length (r_b r)\<rparr>"
  have l: "lenLocked r = Suc (lenLocked ?r)"
    using assms by (auto simp: ring_inv_def lenLocked_def mod_step)
  have "(Suc (r_tail r) mod ?n + k) mod ?n = (r_tail r + Suc k) mod ?n" for k
    by (simp add: mod_add_left_eq)
  then show ?thesis using assms
    by (simp add: ring_list_def l upt_conv_Cons map_Suc_upt [symmetric] del: upt_Suc map_Suc_upt)
      (simp add: ring_inv_def)
qed

lemma ring_Pop_list:
  assumes "ring_inv r"
  shows "ring_list (snd (ring_Pop zero r)) = tl (ring_list r)"
    and "fst (ring_Pop zero r) = (if ring_list r = [] then zero else hd (ring_list r))"
proof -
  have "ring_list r = [] \<longleftrightarrow> r_head r = r_tail r"
    using lenLocked_0_iff [OF assms] by (simp flip: length_0_conv)
  then show "ring_list (snd (ring_Pop zero r)) = tl (ring_list r)"
    "fst (ring_Pop zero r) = (if ring_list r = [] then zero else hd (ring_list r))"
    using ring_list_Cons [OF assms] by (auto simp: ring_Pop_def)
qed

text \<open>Writing the head slot before it is counted does not show.\<close>

lemma ring_list_snoc:
  assumes inv: "ring_inv r" and room: "(r_head r + 1) mod length (r_b r) \<noteq> r_tail r"
  shows "ring_list (r\<lparr>r_b := (r_b r)[r_head r := v], r_head := (r_head r + 1) mod length (r_b r)\<rparr>) = ring_list r @ [v]"
proof -
  let ?n = "length (r_b r)"
  let ?r = "r\<lparr>r_b := (r_b r)[r_head r := v], r_head := (r_head r + 1) mod ?n\<rparr>"
  have l: "lenLocked ?r = Suc (lenLocked r)"
    using assms by (auto simp: ring_inv_def lenLocked_def mod_step)
  have ne: "(r_tail r + k) mod ?n \<noteq> r_head r" if "k < lenLocked r" for k
  proof
    assume a: "(r_tail r + k) mod ?n = r_head r"
    have "lenLocked r < ?n" using inv by (rule lenLocked_less)
    then show False using a that inv
      by (auto simp: ring_inv_def lenLocked_def mod_if split: if_splits)
  qed
  have h: "r_head r < ?n" using inv by (simp add: ring_inv_def)
  show ?thesis
    using ne [THEN not_sym] h tail_plus_len [OF inv] by (auto simp: ring_list_def l [simplified])
qed

lemma ring_put_list:
  assumes inv: "ring_inv r"
  shows "ring_list (ring_put r v) =
      (if lenLocked r < length (r_b r) - 1 then ring_list r @ [v] else tl (ring_list r) @ [v])"
    and "r_evicted (ring_put r v) =
      (if lenLocked r < length (r_b r) - 1 then r_evicted r else r_evicted r @ [hd (ring_list r)])"
proof -
  let ?n = "length (r_b r)"
  have full: "(r_head r + 1) mod ?n = r_tail r \<longleftrightarrow> \<not> lenLocked r < ?n - 1"
    using inv by (auto simp: ring_inv_def lenLocked_def mod_step)
  let ?r = "r\<lparr>r_tail := (r_tail r + 1) mod ?n\<rparr>"
  have "ring_list (ring_put r v) = tl (ring_list r) @ [v] \<and> r_evicted (ring_put r v) = r_evicted r @ [hd (ring_list r)]"
    if f: "(r_head r + 1) mod ?n = r_tail r"
  proof -
    have ne: "r_head r \<noteq> r_tail r" and ne2: "(r_head r + 1) mod ?n \<noteq> (r_tail r + 1) mod ?n"
      using inv f by (auto simp: ring_inv_def mod_step split: if_splits)
    have inv': "ring_inv ?r" using inv by (auto simp: ring_inv_def intro: mod_less_divisor)
    have c: "ring_list r = r_b r ! r_tail r # ring_list ?r" using ring_list_Cons [OF inv ne] .
    have "ring_list (?r\<lparr>r_b := (r_b r)[r_head r := v], r_head := (r_head r + 1) mod ?n\<rparr>) = ring_list ?r @ [v]"
      using ring_list_snoc [OF inv', of v] ne2 by simp
    moreover have "ring_put r v = ?r\<lparr>r_b := (r_b r)[r_head r := v], r_head := (r_head r + 1) mod ?n,
        r_evicted := r_evicted r @ [r_b r ! r_tail r]\<rparr>"
      using f ne by (simp add: ring_put_def Let_def)
    moreover have "ring_list (q\<lparr>r_evicted := e\<rparr>) = ring_list q" for q :: "'a ring" and e
      by (simp add: ring_list_def lenLocked_def)
    ultimately show ?thesis by (simp add: c)
  qed
  moreover have "ring_list (ring_put r v) = ring_list r @ [v] \<and> r_evicted (ring_put r v) = r_evicted r"
    if f: "(r_head r + 1) mod ?n \<noteq> r_tail r"
    using ring_list_snoc [OF inv f, of v] f by (simp add: ring_put_def Let_def)
  ultimately show "ring_list (ring_put r v) =
      (if lenLocked r < length (r_b r) - 1 then ring_list r @ [v] else tl (ring_list r) @ [v])"
    and "r_evicted (ring_put r v) =
      (if lenLocked r < length (r_b r) - 1 then r_evicted r else r_evicted r @ [hd (ring_list r)])"
    using full by auto
qed

lemma ring_put_Cap [simp]: "length (r_b (ring_put r v)) = length (r_b r)"
  by (simp add: ring_put_def Let_def)

lemma walk_ring:
  assumes "ring_inv r"
  shows "walk (r_b r) (r_tail r) (r_head r) acc = Some (acc @ ring_list r)"
  using assms
proof (induction "lenLocked r" arbitrary: r acc)
  case 0
  then have "r_tail r = r_head r" "ring_list r = []" using lenLocked_0_iff [of r] by (simp_all add: ring_list_def)
  then show ?case by (simp add: walk.simps)
next
  case (Suc k)
  let ?r = "r\<lparr>r_tail := (r_tail r + 1) mod length (r_b r)\<rparr>"
  have ne: "r_head r \<noteq> r_tail r" using Suc lenLocked_0_iff by fastforce
  have c: "ring_list r = r_b r ! r_tail r # ring_list ?r" using ring_list_Cons [OF Suc.prems ne] .
  then have "k = lenLocked ?r" using Suc.hyps(2) by (metis length_Cons length_ring_list nat.inject)
  moreover have "ring_inv ?r" using Suc.prems by (auto simp: ring_inv_def intro: mod_less_divisor)
  ultimately have "walk (r_b ?r) (r_tail ?r) (r_head ?r) (acc @ [r_b r ! r_tail r]) = Some ((acc @ [r_b r ! r_tail r]) @ ring_list ?r)"
    by (rule Suc.hyps(1))
  then show ?case using ne c by (subst walk.simps) simp
qed

subsection \<open>The contract: a bounded queue that drops its oldest element\<close>

locale bounded_queue =
  fixes inv :: "'q \<Rightarrow> bool"
    and contents :: "'q \<Rightarrow> 'a list"
    and dropped :: "'q \<Rightarrow> 'a list"
    and bound :: "'q \<Rightarrow> nat"
    and put :: "'q \<Rightarrow> 'a \<Rightarrow> 'q"
  assumes put_inv: "inv q \<Longrightarrow> inv (put q v)"
    and put_bound: "inv q \<Longrightarrow> bound (put q v) = bound q"
    and bound_pos: "inv q \<Longrightarrow> 0 < bound q"
    and contents_bound: "inv q \<Longrightarrow> length (contents q) \<le> bound q"
    and put_contents: "inv q \<Longrightarrow> contents (put q v) = (if length (contents q) < bound q then contents q @ [v] else tl (contents q) @ [v])"
    and put_dropped: "inv q \<Longrightarrow> dropped (put q v) = (if length (contents q) < bound q then dropped q else dropped q @ [hd (contents q)])"
begin

lemma puts_inv: "inv q \<Longrightarrow> inv (foldl put q vs)"
  by (induction vs arbitrary: q) (simp_all add: put_inv)

lemma puts_bound: "inv q \<Longrightarrow> bound (foldl put q vs) = bound q"
  by (induction vs arbitrary: q) (simp_all add: put_inv put_bound)

lemma put_conserves:
  assumes "inv q"
  shows "dropped (put q v) @ contents (put q v) = dropped q @ contents q @ [v]"
proof (cases "length (contents q) < bound q")
  case False
  then have "contents q \<noteq> []" using bound_pos [OF assms] by auto
  with False assms show ?thesis by (simp add: put_contents put_dropped)
qed (simp add: assms put_contents put_dropped)

lemma puts_conserve: "inv q \<Longrightarrow> dropped (foldl put q vs) @ contents (foldl put q vs) = dropped q @ contents q @ vs"
proof (induction vs arbitrary: q)
  case (Cons v vs)
  then have "dropped (foldl put (put q v) vs) @ contents (foldl put (put q v) vs) = (dropped (put q v) @ contents (put q v)) @ vs"
    by (simp add: put_inv)
  then show ?case using put_conserves [OF Cons.prems] by simp
qed simp

lemma put_latest:
  assumes "inv q"
  shows "contents (put q v) = drop (Suc (length (contents q)) - bound q) (contents q @ [v])"
proof (cases "length (contents q) < bound q")
  case False
  then have "Suc (length (contents q)) - bound q = 1" "contents q \<noteq> []"
    using contents_bound [OF assms] bound_pos [OF assms] by auto
  with False assms show ?thesis by (cases "contents q") (simp_all add: put_contents)
qed (simp add: assms put_contents)

lemma puts_latest:
  "inv q \<Longrightarrow> contents (foldl put q vs) = drop (length (contents q @ vs) - bound q) (contents q @ vs)"
proof (induction vs arbitrary: q)
  case Nil
  then show ?case using contents_bound [OF Nil] by simp
next
  case (Cons v vs)
  let ?k = "Suc (length (contents q)) - bound q"
  have "contents (foldl put (put q v) vs) =
      drop (length (contents (put q v) @ vs) - bound q) (contents (put q v) @ vs)"
    using Cons put_inv put_bound by simp
  also have "contents (put q v) @ vs = drop ?k (contents q @ v # vs)"
    using Cons.prems bound_pos [OF Cons.prems] by (simp add: put_latest Suc_diff_le)
  finally have "contents (foldl put (put q v) vs) =
      drop (length (drop ?k (contents q @ v # vs)) - bound q + ?k) (contents q @ v # vs)"
    by (simp only: drop_drop)
  also have "length (drop ?k (contents q @ v # vs)) - bound q + ?k = length (contents q @ v # vs) - bound q"
    using contents_bound [OF Cons.prems] bound_pos [OF Cons.prems] by simp
  finally show ?case by simp
qed

end

interpretation rq: bounded_queue ring_inv ring_list r_evicted "\<lambda>r. length (r_b r) - 1" ring_put
proof unfold_locales
  fix r :: "'a ring" and v
  assume r: "ring_inv r"
  then show "ring_inv (ring_put r v)" by (rule ring_put_inv)
  show "length (r_b (ring_put r v)) - 1 = length (r_b r) - 1" by simp
  show "0 < length (r_b r) - 1" using r by (auto simp: ring_inv_def)
  show "length (ring_list r) \<le> length (r_b r) - 1" using lenLocked_less [OF r] by simp
  show "ring_list (ring_put r v) =
      (if length (ring_list r) < length (r_b r) - 1 then ring_list r @ [v] else tl (ring_list r) @ [v])"
    using ring_put_list(1) [OF r] by simp
  show "r_evicted (ring_put r v) =
      (if length (ring_list r) < length (r_b r) - 1 then r_evicted r else r_evicted r @ [hd (ring_list r)])"
    using ring_put_list(2) [OF r] by simp
qed

lemma ring_process_foldl: "ring_process r vs = foldl ring_put r vs"
  by (induction vs arbitrary: r) simp_all

lemma ring_drain_facts:
  assumes "ring_inv r"
  shows "ring_inv (ring_drain r)" "length (r_b (ring_drain r)) = length (r_b r)"
    and "ring_list (ring_drain r) = drop (length (ring_list r @ r_inC r) - (length (r_b r) - 1)) (ring_list r @ r_inC r)"
    and "r_evicted (ring_drain r) @ ring_list (ring_drain r) = r_evicted r @ ring_list r @ r_inC r"
proof -
  let ?r = "r\<lparr>r_inC := []\<rparr>"
  have i: "ring_inv ?r" using assms by (simp add: ring_inv_def)
  have l: "ring_list ?r = ring_list r" by (simp add: ring_list_def lenLocked_def)
  have "length (r_b (foldl ring_put q vs)) = length (r_b q)" for q :: "'a ring" and vs
    by (induction vs arbitrary: q) simp_all
  then show "ring_inv (ring_drain r)" "length (r_b (ring_drain r)) = length (r_b r)"
    "ring_list (ring_drain r) = drop (length (ring_list r @ r_inC r) - (length (r_b r) - 1)) (ring_list r @ r_inC r)"
    "r_evicted (ring_drain r) @ ring_list (ring_drain r) = r_evicted r @ ring_list r @ r_inC r"
    using rq.puts_inv [OF i] rq.puts_latest [OF i] rq.puts_conserve [OF i] l
    by (simp_all add: ring_drain_def ring_process_foldl)
qed

text \<open>
  C6: Once the goroutine has drained the input channel, \<^verbatim>\<open>All\<close> terminates and returns the latest
  \<^verbatim>\<open>cap-1\<close> of the elements the ring held followed by those that were waiting, oldest first, \<^verbatim>\<open>Len\<close> is
  their number, and the eviction callback has been called with exactly the others, in order.
\<close>

theorem ring_keeps_latest:
  assumes "ring_inv r"
  defines "xs \<equiv> ring_list r @ r_inC r" and "r' \<equiv> ring_drain r"
  shows "ring_inv r' \<and> ring_All r' = Some (drop (length xs - (ring_Cap r - 1)) xs) \<and>
    lenLocked r' = min (length xs) (ring_Cap r - 1) \<and>
    r_evicted r' = r_evicted r @ take (length xs - (ring_Cap r - 1)) xs"
proof -
  note f = ring_drain_facts [OF assms(1), folded xs_def r'_def]
  let ?k = "length xs - (ring_Cap r - 1)"
  have l: "ring_list r' = drop ?k xs" using f(3) by (simp add: ring_Cap_def)
  have "r_evicted r' @ drop ?k xs = (r_evicted r @ take ?k xs) @ drop ?k xs"
    using f(4) unfolding l append_assoc append_take_drop_id by (simp add: xs_def)
  then have "r_evicted r' = r_evicted r @ take ?k xs" by (simp only: append_same_eq)
  moreover have "lenLocked r' = length (drop ?k xs)" using l by (metis length_ring_list)
  ultimately show ?thesis
    using f(1) walk_ring [OF f(1), of "[]"] l by (simp add: ring_All_def min_def)
qed

theorem ring_keeps_latest_witness:
  "ring_All (ring_drain (newRing (0 :: nat) 3 \<lparr>r_inC := [7, 8, 9]\<rparr>)) = Some [8, 9]"
proof -
  let ?r = "newRing (0 :: nat) 3 \<lparr>r_inC := [7, 8, 9]\<rparr>"
  have r: "ring_inv ?r" "ring_list ?r = []" "ring_Cap ?r = 3"
    by (simp_all add: ring_inv_def ring_list_def lenLocked_def newRing_def Let_def ring_Cap_def)
  show ?thesis using ring_keeps_latest [OF r(1)] r by simp
qed

text \<open>
  C32: Popping returns the oldest element and removes it alone (or returns the zero value on an
  empty ring), \<^verbatim>\<open>Peek\<close> returns the same without removing it, and \<^verbatim>\<open>Reset\<close> terminates, evicts what is
  left in order and empties the ring.
\<close>

theorem ring_Pop_Reset:
  assumes "ring_inv r"
  shows "fst (ring_Pop z r) = (if ring_list r = [] then z else hd (ring_list r)) \<and> ring_Peek z r = fst (ring_Pop z r) \<and>
    ring_list (snd (ring_Pop z r)) = tl (ring_list r) \<and> ring_inv (snd (ring_Pop z r)) \<and>
    (\<exists>r'. ring_Reset r = Some r' \<and> ring_inv r' \<and> ring_list r' = [] \<and> r_evicted r' = r_evicted r @ ring_list r)"
proof -
  let ?r = "r\<lparr>r_evicted := r_evicted r @ ring_list r, r_head := 0, r_tail := 0\<rparr>"
  have "ring_Reset r = Some ?r" using walk_ring [OF assms] by (simp add: ring_Reset_def)
  moreover have "ring_inv ?r" "ring_list ?r = []"
    using assms by (auto simp: ring_inv_def ring_list_def lenLocked_def)
  moreover have "ring_Peek z r = fst (ring_Pop z r)" by (simp add: ring_Peek_def ring_Pop_def)
  ultimately show ?thesis using ring_Pop_list [OF assms] ring_Pop_inv [OF assms] by auto
qed

theorem ring_Pop_Reset_witness:
  "\<exists>r'. ring_Reset (newRing (0 :: nat) 3 \<lparr>r_b := [7, 8, 0], r_head := 2\<rparr>) = Some r' \<and> r_evicted r' = [7, 8]"
proof -
  let ?r = "newRing (0 :: nat) 3 \<lparr>r_b := [7, 8, 0], r_head := 2\<rparr>"
  have "ring_inv ?r" "ring_list ?r = [7, 8]" "r_evicted ?r = []"
    by (simp_all add: ring_inv_def ring_list_def lenLocked_def newRing_def Let_def upt_rec)
  then show ?thesis using ring_Pop_Reset [of ?r 0] by auto
qed


end
