(* ===== verification/Gomap.thy ===== *)
theory Gomap
  imports "HOL-Library.AList"
begin

text \<open>
  Go maps as association lists with distinct keys: \<^verbatim>\<open>m[k]\<close> is \<open>map_of m k\<close>, \<^verbatim>\<open>m[k] = v\<close> is \<open>AList.update\<close>,
  \<^verbatim>\<open>delete(m, k)\<close> is \<open>AList.delete\<close>, \<^verbatim>\<open>len(m)\<close> is the length and \<^verbatim>\<open>range m\<close> visits the list. Go leaves
  the order of a range open; what the components prove about a loop over a map does not depend on
  it. The lemmas give the effect of every operation on lookups, the keys and the size.
\<close>

type_synonym ('k, 'v) gomap = "('k \<times> 'v) list"

definition gm_wf :: "('k, 'v) gomap \<Rightarrow> bool" where
  "gm_wf m \<longleftrightarrow> distinct (map fst m)"

abbreviation gm_put :: "'k \<Rightarrow> 'v \<Rightarrow> ('k, 'v) gomap \<Rightarrow> ('k, 'v) gomap" where
  "gm_put \<equiv> AList.update"

abbreviation gm_del :: "'k \<Rightarrow> ('k, 'v) gomap \<Rightarrow> ('k, 'v) gomap" where
  "gm_del \<equiv> AList.delete"

abbreviation gm_keys :: "('k, 'v) gomap \<Rightarrow> 'k set" where
  "gm_keys m \<equiv> fst ` set m"

lemma gm_wf_Nil [simp]: "gm_wf []"
  by (simp add: gm_wf_def)

lemma gm_wf_put [simp]: "gm_wf m \<Longrightarrow> gm_wf (gm_put k v m)"
  by (simp add: gm_wf_def distinct_update)

lemma gm_wf_del [simp]: "gm_wf m \<Longrightarrow> gm_wf (gm_del k m)"
  by (simp add: gm_wf_def distinct_delete)

lemma gm_get_put: "map_of (gm_put k v m) k' = (if k' = k then Some v else map_of m k')"
  by (simp add: update_conv')

lemma gm_get_put_same [simp]: "map_of (gm_put k v m) k = Some v"
  by (simp add: gm_get_put)

lemma gm_get_put_other [simp]: "k' \<noteq> k \<Longrightarrow> map_of (gm_put k v m) k' = map_of m k'"
  by (simp add: gm_get_put)

lemma gm_get_del: "map_of (gm_del k m) k' = (if k' = k then None else map_of m k')"
  by (simp add: delete_conv')

lemma gm_get_del_same [simp]: "map_of (gm_del k m) k = None"
  by (simp add: gm_get_del)

lemma gm_get_del_other [simp]: "k' \<noteq> k \<Longrightarrow> map_of (gm_del k m) k' = map_of m k'"
  by (simp add: gm_get_del)

lemma gm_dom: "map_of m k = None \<longleftrightarrow> k \<notin> gm_keys m"
  by (simp add: map_of_eq_None_iff)

lemma gm_length_card: "gm_wf m \<Longrightarrow> length m = card (gm_keys m)"
  using distinct_card [of "map fst m"] by (simp add: gm_wf_def)

lemma gm_put_new: "map_of m k = None \<Longrightarrow> gm_put k v m = m @ [(k, v)]"
  by (induction m) (auto split: if_splits)

lemma gm_put_length: "length (gm_put k v m) = (if map_of m k = None then Suc (length m) else length m)"
  by (induction m) (auto split: if_splits)

lemma gm_del_none: "map_of m k = None \<Longrightarrow> gm_del k m = m"
  by (induction m) (auto split: if_splits)

lemma gm_del_length:
  "gm_wf m \<Longrightarrow> length (gm_del k m) = (if map_of m k = None then length m else length m - 1)"
proof (induction m)
  case (Cons p m)
  obtain k' v where p: "p = (k', v)" by (cases p)
  have m: "gm_wf m" "map_of m k' = None" using Cons.prems p by (auto simp: gm_wf_def map_of_eq_None_iff)
  show ?case
  proof (cases "k' = k")
    case True
    then show ?thesis using m(2) p by (simp add: gm_del_none)
  next
    case False
    have "m \<noteq> []" if "map_of m k \<noteq> None" using that by auto
    then show ?thesis using Cons.IH [OF m(1)] False p by (auto simp: Suc_diff_Suc)
  qed
qed simp

lemma gm_filter_wf: "gm_wf m \<Longrightarrow> gm_wf (filter P m)"
  unfolding gm_wf_def by (induction m) auto

lemma gm_get_filter:
  "gm_wf m \<Longrightarrow> map_of (filter (\<lambda>(k, v). P k v) m) k =
     (case map_of m k of None \<Rightarrow> None | Some v \<Rightarrow> if P k v then Some v else None)"
  by (induction m) (auto simp: gm_wf_def map_of_eq_None_iff image_iff split: option.splits if_splits)

lemma gm_in_set: "gm_wf m \<Longrightarrow> (k, v) \<in> set m \<longleftrightarrow> map_of m k = Some v"
  by (simp add: gm_wf_def)

end
