(* ===== verification/Expmap.thy ===== *)
theory Expmap
  imports Prelude Gomap
begin

text \<open>
  Expiring maps of \<^verbatim>\<open>intra/core\<close>: \<^verbatim>\<open>ExpMap\<close> (expiringmap.go), \<^verbatim>\<open>Sieve\<close> and \<^verbatim>\<open>Sieve2K\<close> (expiringsieve.go)
  and \<^verbatim>\<open>Hangover\<close> (hangover.go). Instants and durations are integers (nanoseconds), the clock reading of
  an operation is an argument; an operation is atomic because it holds the mutex. \<^verbatim>\<open>Sieve2K\<close> keeps its
  inner maps in an explicit store, because a \<^verbatim>\<open>Put\<close> holds on to an inner map after releasing the lock.
  The contract is the locale \<open>expiring_map\<close>, interpreted on \<^verbatim>\<open>ExpMap\<close>.
\<close>

subsection \<open>ExpMap\<close>

record 'v eval =
  e_v :: 'v
  e_expiry :: int
  e_hits :: u32

record ('k, 'v) ExpMap =
  em_m :: "('k, 'v eval) gomap"
  em_lastreap :: int
  em_minlife :: int
  em_done :: bool
  em_ngets :: u64
  em_nsets :: u64
  em_ndels :: u64

definition reapthreshold :: int where
  "reapthreshold = 5 * 60 * 1000000000"

definition NewExpiringMapLifetime :: "int \<Rightarrow> int \<Rightarrow> ('k, 'v) ExpMap" where
  "NewExpiringMapLifetime now life = \<lparr>em_m = [], em_lastreap = now, em_minlife = life, em_done = False,
     em_ngets = 0, em_nsets = 0, em_ndels = 0\<rparr>"

definition em_Get :: "'v \<Rightarrow> int \<Rightarrow> 'k \<Rightarrow> ('k, 'v) ExpMap \<Rightarrow> u32 \<times> ('k, 'v) ExpMap" where
  "em_Get zz now key m =
     (if em_done m then (0, m)
      else
        let m = m\<lparr>em_ngets := em_ngets m + 1\<rparr>
        in case map_of (em_m m) key of
             None \<Rightarrow> (0, m\<lparr>em_m := gm_put key \<lparr>e_v = zz, e_expiry = now, e_hits = 0\<rparr> (em_m m)\<rparr>)
           | Some v \<Rightarrow>
               let v = (if e_expiry v < now then v\<lparr>e_hits := 0\<rparr> else v\<lparr>e_hits := e_hits v + 1\<rparr>)
               in (e_hits v, m\<lparr>em_m := gm_put key v (em_m m)\<rparr>))"

definition em_upsert :: "int \<Rightarrow> 'k \<Rightarrow> 'v \<Rightarrow> int \<Rightarrow> ('k, 'v) ExpMap \<Rightarrow> (u32 \<times> bool) \<times> ('k, 'v) ExpMap" where
  "em_upsert now key value expiry m =
     (let expiry = (if expiry < em_minlife m then em_minlife m else expiry);
          n = now + expiry;
          m = m\<lparr>em_nsets := em_nsets m + 1\<rparr>;
          old = map_of (em_m m) key;
          replaced = (case old of Some v \<Rightarrow> now < e_expiry v | None \<Rightarrow> False);
          v = (case old of
                 None \<Rightarrow> \<lparr>e_v = value, e_expiry = n, e_hits = 0\<rparr>
               | Some v \<Rightarrow>
                   let v = (if e_expiry v < now then v\<lparr>e_hits := 0\<rparr> else v);
                       v = (if e_expiry v < n then v\<lparr>e_expiry := n\<rparr> else v)
                   in v\<lparr>e_v := value\<rparr>)
      in ((e_hits v, replaced), m\<lparr>em_m := gm_put key v (em_m m)\<rparr>))"

definition em_Set :: "'v \<Rightarrow> int \<Rightarrow> 'k \<Rightarrow> int \<Rightarrow> ('k, 'v) ExpMap \<Rightarrow> u32 \<times> ('k, 'v) ExpMap" where
  "em_Set zz now key expiry m =
     (if em_done m then (0, m)
      else case em_upsert now key zz expiry m of ((hits, _), m) \<Rightarrow> (hits, m))"

definition em_SetMin :: "'v \<Rightarrow> int \<Rightarrow> 'k \<Rightarrow> ('k, 'v) ExpMap \<Rightarrow> u32 \<times> ('k, 'v) ExpMap" where
  "em_SetMin zz now key m =
     (if em_done m \<or> em_minlife m \<le> 0 then (0, m) else em_Set zz now key (em_minlife m) m)"

definition em_K :: "int \<Rightarrow> 'k \<Rightarrow> 'v \<Rightarrow> int \<Rightarrow> ('k, 'v) ExpMap \<Rightarrow> u32 \<times> ('k, 'v) ExpMap" where
  "em_K now key value expiry m =
     (if em_done m then (0, m)
      else case em_upsert now key value expiry m of ((hits, _), m) \<Rightarrow> (hits, m))"

definition em_V :: "'v \<Rightarrow> int \<Rightarrow> 'k \<Rightarrow> ('k, 'v) ExpMap \<Rightarrow> 'v \<times> bool" where
  "em_V zz now key m =
     (if em_done m then (zz, False)
      else case map_of (em_m m) key of Some v \<Rightarrow> (e_v v, now < e_expiry v) | None \<Rightarrow> (zz, False))"

definition em_Alive :: "int \<Rightarrow> 'k \<Rightarrow> ('k, 'v) ExpMap \<Rightarrow> bool" where
  "em_Alive now key m =
     (if em_done m then False
      else case map_of (em_m m) key of Some v \<Rightarrow> now < e_expiry v | None \<Rightarrow> False)"

definition em_Delete :: "'k \<Rightarrow> ('k, 'v) ExpMap \<Rightarrow> bool \<times> ('k, 'v) ExpMap" where
  "em_Delete key m =
     (case map_of (em_m m) key of
        Some _ \<Rightarrow> (True, m\<lparr>em_ndels := em_ndels m + 1, em_m := gm_del key (em_m m)\<rparr>)
      | None \<Rightarrow> (False, m))"

definition em_Len :: "('k, 'v) ExpMap \<Rightarrow> nat" where
  "em_Len m = length (em_m m)"

definition em_Clear :: "('k, 'v) ExpMap \<Rightarrow> nat \<times> ('k, 'v) ExpMap" where
  "em_Clear m =
     (let l = length (em_m m) in (l, m\<lparr>em_ndels := em_ndels m + of_nat l, em_m := []\<rparr>))"

fun purge_loop :: "int \<Rightarrow> ('k, 'v eval) gomap \<Rightarrow> ('k, 'v eval) gomap \<Rightarrow> nat \<Rightarrow> ('k, 'v eval) gomap \<times> nat" where
  "purge_loop now [] m n = (m, n)"
| "purge_loop now ((k, v) # r) m n =
     (if e_expiry v < now then purge_loop now r (gm_del k m) (n + 1) else purge_loop now r m n)"

definition em_purgeLocked :: "int \<Rightarrow> ('k, 'v) ExpMap \<Rightarrow> nat \<times> ('k, 'v) ExpMap" where
  "em_purgeLocked now m =
     (if length (em_m m) = 0 then (0, m)
      else case purge_loop now (em_m m) (em_m m) 0 of
             (m', n) \<Rightarrow>
               let m = m\<lparr>em_m := m'\<rparr>
               in (n, if n > 0 then m\<lparr>em_ndels := em_ndels m + of_nat n, em_lastreap := now\<rparr> else m))"

text \<open>
  One round of the reaper: on the end of the context it clears the map and is done; on a signal it
  sweeps when the last sweep is long enough ago. The flag tells whether \<^verbatim>\<open>clearall\<close> is called.
\<close>

definition em_reap_done :: "('k, 'v) ExpMap \<Rightarrow> bool \<times> ('k, 'v) ExpMap" where
  "em_reap_done m = (True, snd (em_Clear m))"

definition em_reap :: "int \<Rightarrow> ('k, 'v) ExpMap \<Rightarrow> bool \<times> ('k, 'v) ExpMap" where
  "em_reap now m =
     (if now - (em_lastreap m + reapthreshold) \<le> 0 then (False, m)
      else let m = snd (em_purgeLocked now m) in (length (em_m m) = 0, m))"

record MapState =
  ms_Len :: u64
  ms_Gets :: u64
  ms_Puts :: u64
  ms_Dels :: u64

definition em_Stat :: "('k, 'v) ExpMap \<Rightarrow> MapState" where
  "em_Stat m = \<lparr>ms_Len = of_nat (length (em_m m)), ms_Gets = em_ngets m, ms_Puts = em_nsets m, ms_Dels = em_ndels m\<rparr>"

subsection \<open>Sieve\<close>

definition sv_Get :: "'v \<Rightarrow> int \<Rightarrow> 'k \<Rightarrow> ('k, 'v) ExpMap \<Rightarrow> 'v \<times> bool" where
  "sv_Get zz now k s = em_V zz now k s"

definition sv_Put :: "int \<Rightarrow> 'k \<Rightarrow> 'v \<Rightarrow> ('k, 'v) ExpMap \<Rightarrow> bool \<times> ('k, 'v) ExpMap" where
  "sv_Put now k v s = (case em_upsert now k v (em_minlife s) s of ((_, replaced), s) \<Rightarrow> (replaced, s))"

definition sv_Del :: "'k \<Rightarrow> ('k, 'v) ExpMap \<Rightarrow> bool \<times> ('k, 'v) ExpMap" where
  "sv_Del k s = em_Delete k s"

definition sv_Len :: "('k, 'v) ExpMap option \<Rightarrow> nat" where
  \<comment> \<open>called on a nil sieve by \<^verbatim>\<open>Sieve2K.Del\<close>\<close>
  "sv_Len s = (case s of None \<Rightarrow> 0 | Some s \<Rightarrow> em_Len s)"

definition sv_Clear :: "('k, 'v) ExpMap option \<Rightarrow> nat \<times> ('k, 'v) ExpMap option" where
  "sv_Clear s = (case s of None \<Rightarrow> (0, None) | Some s \<Rightarrow> (case em_Clear s of (n, s) \<Rightarrow> (n, Some s)))"

subsection \<open>Sieve2K\<close>

record ('k1, 'k2, 'v) Sieve2K =
  s2_heap :: "('k2, 'v) ExpMap list"
  s2_m :: "('k1, nat) gomap"
  s2_d :: "('k1, nat) gomap"
  s2_life :: int
  s2_done :: bool
  s2_nputs :: u64
  s2_ngets :: u64
  s2_ndels :: u64

definition NewSieve2K :: "int \<Rightarrow> ('k1, 'k2, 'v) Sieve2K" where
  "NewSieve2K dur = \<lparr>s2_heap = [], s2_m = [], s2_d = [], s2_life = dur, s2_done = False,
     s2_nputs = 0, s2_ngets = 0, s2_ndels = 0\<rparr>"

definition s2_inner :: "('k1, 'k2, 'v) Sieve2K \<Rightarrow> 'k1 \<Rightarrow> ('k2, 'v) ExpMap option" where
  "s2_inner s k1 = map_option (\<lambda>a. s2_heap s ! a) (map_of (s2_m s) k1)"

definition s2_Get :: "'v \<Rightarrow> int \<Rightarrow> 'k1 \<Rightarrow> 'k2 \<Rightarrow> ('k1, 'k2, 'v) Sieve2K \<Rightarrow> ('v \<times> bool) \<times> ('k1, 'k2, 'v) Sieve2K" where
  "s2_Get zz now k1 k2 s =
     (let s = s\<lparr>s2_ngets := s2_ngets s + 1\<rparr>
      in case s2_inner s k1 of Some inn \<Rightarrow> (sv_Get zz now k2 inn, s) | None \<Rightarrow> ((zz, False), s))"

text \<open>\<^verbatim>\<open>Put\<close> finds or makes the inner map under the lock, and writes into it after releasing the lock.\<close>

definition s2_put_find :: "int \<Rightarrow> 'k1 \<Rightarrow> ('k1, 'k2, 'v) Sieve2K \<Rightarrow> nat \<times> ('k1, 'k2, 'v) Sieve2K" where
  "s2_put_find now k1 s =
     (let s = s\<lparr>s2_nputs := s2_nputs s + 1\<rparr>
      in case map_of (s2_m s) k1 of
           Some a \<Rightarrow> (a, s)
         | None \<Rightarrow>
             let a = length (s2_heap s);
                 inn = (NewExpiringMapLifetime now (s2_life s))\<lparr>em_done := s2_done s\<rparr>
             in (a, s\<lparr>s2_heap := s2_heap s @ [inn], s2_m := gm_put k1 a (s2_m s), s2_d := gm_put k1 a (s2_d s)\<rparr>))"

definition s2_put_write :: "int \<Rightarrow> nat \<Rightarrow> 'k2 \<Rightarrow> 'v \<Rightarrow> ('k1, 'k2, 'v) Sieve2K \<Rightarrow> bool \<times> ('k1, 'k2, 'v) Sieve2K" where
  "s2_put_write now a k2 v s =
     (case sv_Put now k2 v (s2_heap s ! a) of (replaced, inn) \<Rightarrow> (replaced, s\<lparr>s2_heap := (s2_heap s)[a := inn]\<rparr>))"

definition s2_Put :: "int \<Rightarrow> 'k1 \<Rightarrow> 'k2 \<Rightarrow> 'v \<Rightarrow> ('k1, 'k2, 'v) Sieve2K \<Rightarrow> bool \<times> ('k1, 'k2, 'v) Sieve2K" where
  "s2_Put now k1 k2 v s = (case s2_put_find now k1 s of (a, s) \<Rightarrow> s2_put_write now a k2 v s)"

definition s2_cancel :: "nat option \<Rightarrow> ('k1, 'k2, 'v) Sieve2K \<Rightarrow> ('k1, 'k2, 'v) Sieve2K" where
  \<comment> \<open>\<^verbatim>\<open>if done != nil { done() }\<close>: ends the context of the inner map\<close>
  "s2_cancel d s = (case d of None \<Rightarrow> s | Some a \<Rightarrow> s\<lparr>s2_heap := (s2_heap s)[a := (s2_heap s ! a)\<lparr>em_done := True\<rparr>]\<rparr>)"

definition s2_drop :: "'k1 \<Rightarrow> ('k1, 'k2, 'v) Sieve2K \<Rightarrow> ('k1, 'k2, 'v) Sieve2K" where
  "s2_drop k1 s = s2_cancel (map_of (s2_d s) k1) (s\<lparr>s2_m := gm_del k1 (s2_m s), s2_d := gm_del k1 (s2_d s)\<rparr>)"

definition s2_Del :: "'k1 \<Rightarrow> 'k2 \<Rightarrow> ('k1, 'k2, 'v) Sieve2K \<Rightarrow> bool \<times> ('k1, 'k2, 'v) Sieve2K" where
  "s2_Del k1 k2 s =
     (let (deleted, s) = (case map_of (s2_m s) k1 of
                            Some a \<Rightarrow> (case sv_Del k2 (s2_heap s ! a) of
                                        (del, inn) \<Rightarrow> (del, s\<lparr>s2_heap := (s2_heap s)[a := inn]\<rparr>))
                          | None \<Rightarrow> (False, s));
          empty = (sv_Len (s2_inner s k1) = 0);
          s = (if deleted then s\<lparr>s2_ndels := s2_ndels s + 1\<rparr> else s);
          s = (if empty then if sv_Len (s2_inner s k1) = 0 then s2_drop k1 s else s else s)
      in (deleted, s))"

definition s2_Len :: "('k1, 'k2, 'v) Sieve2K \<Rightarrow> nat" where
  "s2_Len s = (\<Sum>(k1, a) \<leftarrow> s2_m s. em_Len (s2_heap s ! a))"

fun clear_loop :: "('k1 \<times> nat) list \<Rightarrow> ('k1, 'k2, 'v) Sieve2K \<Rightarrow> nat \<Rightarrow> nat \<times> ('k1, 'k2, 'v) Sieve2K" where
  "clear_loop [] s n = (n, s)"
| "clear_loop ((k1, a) # r) s n =
     (case em_Clear (s2_heap s ! a) of
        (d, inn) \<Rightarrow> clear_loop r (s\<lparr>s2_heap := (s2_heap s)[a := inn], s2_ndels := s2_ndels s + of_nat d\<rparr>) (n + d))"

fun cancel_loop :: "('k1 \<times> nat) list \<Rightarrow> ('k1, 'k2, 'v) Sieve2K \<Rightarrow> ('k1, 'k2, 'v) Sieve2K" where
  "cancel_loop [] s = s"
| "cancel_loop ((k1, a) # r) s = cancel_loop r (s2_cancel (Some a) s)"

definition s2_Clear :: "('k1, 'k2, 'v) Sieve2K \<Rightarrow> nat \<times> ('k1, 'k2, 'v) Sieve2K" where
  "s2_Clear s =
     (case clear_loop (s2_m s) s 0 of
        (n, s) \<Rightarrow> let s = cancel_loop (s2_d s) s in (n, s\<lparr>s2_m := [], s2_d := []\<rparr>))"

definition s2_reclaimIfEmpty :: "'k1 \<Rightarrow> ('k1, 'k2, 'v) Sieve2K \<Rightarrow> ('k1, 'k2, 'v) Sieve2K" where
  "s2_reclaimIfEmpty k1 s =
     (case s2_inner s k1 of
        None \<Rightarrow> s2_drop k1 s
      | Some inn \<Rightarrow> if em_Len inn = 0 then s2_drop k1 s else s)"

definition s2_Stat :: "('k1, 'k2, 'v) Sieve2K \<Rightarrow> MapState" where
  "s2_Stat s = \<lparr>ms_Len = of_nat (s2_Len s), ms_Gets = s2_ngets s, ms_Puts = s2_nputs s, ms_Dels = s2_ndels s\<rparr>"

text \<open>A round of the reaper of the inner map at \<open>a\<close>, whose hook was made for \<open>k1\<close>.\<close>

definition s2_reap :: "int \<Rightarrow> 'k1 \<Rightarrow> nat \<Rightarrow> ('k1, 'k2, 'v) Sieve2K \<Rightarrow> ('k1, 'k2, 'v) Sieve2K" where
  "s2_reap now k1 a s =
     (case em_reap now (s2_heap s ! a) of
        (hook, inn) \<Rightarrow>
          let s = s\<lparr>s2_heap := (s2_heap s)[a := inn]\<rparr>
          in if hook then s2_reclaimIfEmpty k1 s else s)"

definition s2_reap_done :: "'k1 \<Rightarrow> nat \<Rightarrow> ('k1, 'k2, 'v) Sieve2K \<Rightarrow> ('k1, 'k2, 'v) Sieve2K" where
  \<comment> \<open>the last round, when the context of the inner map has ended\<close>
  "s2_reap_done k1 a s =
     (case em_reap_done (s2_heap s ! a) of
        (_, inn) \<Rightarrow> s2_reclaimIfEmpty k1 (s\<lparr>s2_heap := (s2_heap s)[a := inn]\<rparr>))"

subsection \<open>Hangover\<close>

text \<open>The instant of a hangover, or \<open>None\<close> for the zero time.\<close>

definition NewHangover :: "int option" where
  "NewHangover = None"

definition ho_Note :: "int \<Rightarrow> int option \<Rightarrow> int option" where
  "ho_Note now h = (case h of None \<Rightarrow> Some now | Some s \<Rightarrow> Some s)"

definition ho_Break :: "int option \<Rightarrow> int option" where
  "ho_Break h = (case h of Some s \<Rightarrow> None | None \<Rightarrow> None)"

definition ho_Within :: "int \<Rightarrow> int \<Rightarrow> int option \<Rightarrow> bool" where
  "ho_Within now d h = (case h of None \<Rightarrow> True | Some s \<Rightarrow> now - s \<le> d)"

definition ho_Exceeds :: "int \<Rightarrow> int \<Rightarrow> int option \<Rightarrow> bool" where
  "ho_Exceeds now d h = (\<not> ho_Within now d h)"

subsection \<open>What an expiring map is: a map to values with an expiry\<close>

definition em_wf :: "('k, 'v) ExpMap \<Rightarrow> bool" where
  "em_wf m \<longleftrightarrow> gm_wf (em_m m) \<and> 0 \<le> em_minlife m"

definition em_look :: "('k, 'v) ExpMap \<Rightarrow> 'k \<Rightarrow> ('v \<times> int) option" where
  "em_look m k = map_option (\<lambda>e. (e_v e, e_expiry e)) (map_of (em_m m) k)"

datatype ('k, 'v, 'i) em_op = OpPut 'k 'v | OpDel 'k | OpSweep 'i

fun sorted_times :: "int \<Rightarrow> (int \<times> ('k, 'v, 'i) em_op) list \<Rightarrow> bool" where
  "sorted_times t [] = True"
| "sorted_times t ((t', _) # r) = (t \<le> t' \<and> sorted_times t' r)"

fun last_time :: "int \<Rightarrow> (int \<times> ('k, 'v, 'i) em_op) list \<Rightarrow> int" where
  "last_time t [] = t"
| "last_time t ((t', _) # r) = last_time t' r"

fun no_sweeps :: "(int \<times> ('k, 'v, 'i) em_op) list \<Rightarrow> (int \<times> ('k, 'v, 'i) em_op) list" where
  "no_sweeps [] = []"
| "no_sweeps ((t, OpSweep i) # r) = no_sweeps r"
| "no_sweeps ((t, OpPut k v) # r) = (t, OpPut k v) # no_sweeps r"
| "no_sweeps ((t, OpDel k) # r) = (t, OpDel k) # no_sweeps r"

text \<open>Time is the only thing that kills an entry: the contract, and that sweeping is invisible.\<close>

locale expiring_map =
  fixes wf :: "'m \<Rightarrow> bool"
    and look :: "'m \<Rightarrow> 'k \<Rightarrow> ('v \<times> int) option"
    and life :: "'m \<Rightarrow> int"
    and put :: "int \<Rightarrow> 'k \<Rightarrow> 'v \<Rightarrow> 'm \<Rightarrow> 'm"
    and del :: "'k \<Rightarrow> 'm \<Rightarrow> 'm"
    and sweep :: "'i \<Rightarrow> int \<Rightarrow> 'm \<Rightarrow> 'm"
  assumes put_wf: "wf m \<Longrightarrow> wf (put t k v m)"
    and del_wf: "wf m \<Longrightarrow> wf (del k m)"
    and sweep_wf: "wf m \<Longrightarrow> wf (sweep i t m)"
    and life_nonneg: "wf m \<Longrightarrow> 0 \<le> life m"
    and put_life: "life (put t k v m) = life m"
    and del_life: "life (del k m) = life m"
    and sweep_life: "life (sweep i t m) = life m"
    and put_look: "wf m \<Longrightarrow> look (put t k v m) k' =
      (if k' = k then Some (v, case look m k of None \<Rightarrow> t + life m | Some (_, e) \<Rightarrow> max e (t + life m)) else look m k')"
    and del_look: "wf m \<Longrightarrow> look (del k m) k' = (if k' = k then None else look m k')"
    and sweep_look: "wf m \<Longrightarrow> look (sweep i t m) k = look m k \<or>
      look (sweep i t m) k = None \<and> (\<exists>v e. look m k = Some (v, e) \<and> e < t)"
begin

definition live :: "int \<Rightarrow> 'm \<Rightarrow> 'k \<Rightarrow> 'v option" where
  "live t m k = (case look m k of Some (v, e) \<Rightarrow> if t < e then Some v else None | None \<Rightarrow> None)"

fun step :: "'m \<Rightarrow> int \<times> ('k, 'v, 'i) em_op \<Rightarrow> 'm" where
  "step m (t, OpPut k v) = put t k v m"
| "step m (t, OpDel k) = del k m"
| "step m (t, OpSweep i) = sweep i t m"

definition stale :: "int \<Rightarrow> 'm \<Rightarrow> 'k \<Rightarrow> bool" where
  "stale t m k \<longleftrightarrow> (case look m k of Some (_, e) \<Rightarrow> e < t | None \<Rightarrow> True)"

definition sim :: "int \<Rightarrow> 'm \<Rightarrow> 'm \<Rightarrow> bool" where
  "sim t m m' \<longleftrightarrow> wf m \<and> wf m' \<and> life m = life m' \<and> (\<forall>k. look m k = look m' k \<or> stale t m k \<and> stale t m' k)"

lemma put_live:
  "wf m \<Longrightarrow> t \<le> t' \<Longrightarrow> t' < t + life m \<Longrightarrow> live t' (put t k v m) k = Some v"
  by (auto simp: live_def put_look split: option.splits)

lemma put_live_other: "wf m \<Longrightarrow> k' \<noteq> k \<Longrightarrow> live t' (put t k v m) k' = live t' m k'"
  by (simp add: live_def put_look)

lemma stale_mono: "stale t m k \<Longrightarrow> t \<le> t' \<Longrightarrow> stale t' m k"
  by (auto simp: stale_def split: option.splits)

lemma sim_mono: "sim t m m' \<Longrightarrow> t \<le> t' \<Longrightarrow> sim t' m m'"
  using stale_mono unfolding sim_def by meson

lemma sim_live:
  assumes "sim t m m'" "t \<le> t'"
  shows "live t' m k = live t' m' k"
proof (cases "look m k = look m' k")
  case False
  then have "stale t m k" "stale t m' k" using assms(1) by (auto simp: sim_def)
  then have "live t' m k = None" "live t' m' k = None"
    using assms(2) by (auto simp: live_def stale_def split: option.splits)
  then show ?thesis by simp
qed (simp add: live_def)

lemma sim_sweep:
  assumes "sim t m m'"
  shows "sim t (sweep i t m) m'"
proof -
  have w: "wf m" and k: "\<And>k. look m k = look m' k \<or> stale t m k \<and> stale t m' k"
    using assms by (auto simp: sim_def)
  have "look (sweep i t m) k = look m' k \<or> stale t (sweep i t m) k \<and> stale t m' k" for k
  proof (cases "look (sweep i t m) k = look m k")
    case True
    then show ?thesis using k [of k] by (simp add: stale_def)
  next
    case False
    then obtain v e where "look (sweep i t m) k = None" "look m k = Some (v, e)" "e < t"
      using sweep_look [OF w, of i t k] by blast
    moreover from this have "stale t m' k"
      using k [of k] by (auto simp: stale_def split: option.splits)
    ultimately show ?thesis by (simp add: stale_def)
  qed
  then show ?thesis using assms sweep_wf [OF w, of i t] sweep_life [of i t m] by (simp add: sim_def)
qed

lemma sim_put:
  assumes "sim t m m'"
  shows "sim t (put t k v m) (put t k v m')"
proof -
  have w: "wf m" "wf m'" and l: "life m = life m'" and lk: "look m k = look m' k \<or> stale t m k \<and> stale t m' k"
    using assms by (auto simp: sim_def)
  have "(case look m k of None \<Rightarrow> t + life m | Some (_, e) \<Rightarrow> max e (t + life m)) =
      (case look m' k of None \<Rightarrow> t + life m' | Some (_, e) \<Rightarrow> max e (t + life m'))"
    using lk l life_nonneg [OF w(1)] by (auto simp: stale_def max_def split: option.splits)
  then show ?thesis
    using assms l put_wf [OF w(1)] put_wf [OF w(2)]
    by (auto simp: sim_def put_life stale_def put_look w)
qed

lemma sim_del: "sim t m m' \<Longrightarrow> sim t (del k m) (del k m')"
  by (auto simp: sim_def del_look del_wf del_life stale_def)

lemma sim_run:
  "sim t m m' \<Longrightarrow> sorted_times t ops \<Longrightarrow> sim (last_time t ops) (foldl step m ops) (foldl step m' (no_sweeps ops))"
proof (induction ops arbitrary: t m m' rule: no_sweeps.induct)
  case (2 t' i r)
  then have "sim t' (sweep i t' m) m'" by (auto intro: sim_sweep sim_mono)
  then show ?case using 2 by simp
next
  case (3 t' k v r)
  then have "sim t' (put t' k v m) (put t' k v m')" by (auto intro: sim_put sim_mono)
  then show ?case using 3 by simp
next
  case (4 t' k r)
  then have "sim t' (del k m) (del k m')" by (auto intro: sim_del sim_mono)
  then show ?case using 4 by simp
qed simp

lemma sweeps_invisible:
  assumes "wf m" "sorted_times t ops" "last_time t ops \<le> t'"
  shows "live t' (foldl step m ops) k = live t' (foldl step m (no_sweeps ops)) k"
proof -
  have "sim t m m" using assms(1) by (simp add: sim_def)
  then show ?thesis using sim_live [OF sim_run] assms(2,3) by blast
qed

end

subsection \<open>ExpMap keeps the contract\<close>

lemma em_upsert_look:
  "em_look (snd (em_upsert t k v x m)) k' =
    (if k' = k then Some (v, case em_look m k of None \<Rightarrow> t + max x (em_minlife m) | Some (_, e) \<Rightarrow> max e (t + max x (em_minlife m)))
     else em_look m k')"
  by (auto simp: em_upsert_def em_look_def Let_def gm_get_put max_def split: option.splits)

lemma em_upsert_frame:
  "em_minlife (snd (em_upsert t k v x m)) = em_minlife m" "em_done (snd (em_upsert t k v x m)) = em_done m"
  "gm_wf (em_m m) \<Longrightarrow> gm_wf (em_m (snd (em_upsert t k v x m)))"
  by (simp_all add: em_upsert_def Let_def)

lemma sv_Put_snd: "snd (sv_Put t k v m) = snd (em_upsert t k v (em_minlife m) m)"
  by (simp add: sv_Put_def split: prod.splits)

lemma em_Delete_frame:
  "em_minlife (snd (em_Delete k m)) = em_minlife m" "em_done (snd (em_Delete k m)) = em_done m"
  "gm_wf (em_m m) \<Longrightarrow> gm_wf (em_m (snd (em_Delete k m)))"
  by (auto simp: em_Delete_def split: option.splits)

lemma em_Delete_look: "em_look (snd (em_Delete k m)) k' = (if k' = k then None else em_look m k')"
  by (auto simp: em_Delete_def em_look_def gm_get_del split: option.splits)

lemma purge_loop_get:
  "map_of (fst (purge_loop now r m n)) k = (if \<exists>v. (k, v) \<in> set r \<and> e_expiry v < now then None else map_of m k)"
  by (induction now r m n rule: purge_loop.induct) (auto simp: gm_get_del)

lemma purge_loop_wf: "gm_wf m \<Longrightarrow> gm_wf (fst (purge_loop now r m n))"
  by (induction now r m n rule: purge_loop.induct) auto

lemma em_purge_frame:
  "em_minlife (snd (em_purgeLocked t m)) = em_minlife m" "em_done (snd (em_purgeLocked t m)) = em_done m"
  by (auto simp: em_purgeLocked_def Let_def split: prod.splits)

lemma em_purge_m: "em_m (snd (em_purgeLocked t m)) = fst (purge_loop t (em_m m) (em_m m) 0)"
  by (auto simp: em_purgeLocked_def Let_def split: prod.splits)

lemma em_purge_look:
  "gm_wf (em_m m) \<Longrightarrow> em_look (snd (em_purgeLocked t m)) k =
     (case em_look m k of None \<Rightarrow> None | Some (v, e) \<Rightarrow> if e < t then None else Some (v, e))"
  by (auto simp: em_look_def em_purge_m purge_loop_get gm_in_set split: option.splits)

lemma em_reap_frame:
  "em_minlife (snd (em_reap t m)) = em_minlife m" "em_done (snd (em_reap t m)) = em_done m"
  "gm_wf (em_m m) \<Longrightarrow> gm_wf (em_m (snd (em_reap t m)))"
  by (auto simp: em_reap_def Let_def em_purge_frame em_purge_m purge_loop_wf)

lemma em_reap_look:
  "gm_wf (em_m m) \<Longrightarrow> em_look (snd (em_reap t m)) k = em_look m k \<or>
     em_look (snd (em_reap t m)) k = None \<and> (\<exists>v e. em_look m k = Some (v, e) \<and> e < t)"
  by (auto simp: em_reap_def Let_def em_purge_look split: option.splits)

interpretation xm: expiring_map em_wf em_look em_minlife "\<lambda>t k v m. snd (sv_Put t k v m)" "\<lambda>k m. snd (sv_Del k m)" "\<lambda>_ t m. snd (em_reap t m)"
  by unfold_locales
    (auto simp: em_wf_def sv_Put_snd sv_Del_def em_upsert_frame em_upsert_look em_Delete_frame em_Delete_look
      em_reap_frame em_reap_look split: option.splits dest: em_reap_look)

fun em_step :: "('k, 'v) ExpMap \<Rightarrow> int \<times> ('k, 'v, unit) em_op \<Rightarrow> ('k, 'v) ExpMap" where
  "em_step m (t, OpPut k v) = snd (sv_Put t k v m)"
| "em_step m (t, OpDel k) = snd (sv_Del k m)"
| "em_step m (t, OpSweep _) = snd (em_reap t m)"

lemma em_step_eq: "em_step = xm.step"
proof (intro ext)
  show "em_step m x = xm.step m x" for m :: "('a, 'b) ExpMap" and x by (cases "(m, x)" rule: em_step.cases) simp_all
qed

lemma em_step_done [simp]: "em_done (em_step m x) = em_done m"
  by (cases "(m, x)" rule: em_step.cases) (simp_all add: sv_Put_snd sv_Del_def em_upsert_frame em_Delete_frame em_reap_frame)

lemma em_run_done [simp]: "em_done (foldl em_step m ops) = em_done m"
  by (induction ops arbitrary: m) simp_all

lemma sv_Get_live:
  "\<not> em_done m \<Longrightarrow> snd (sv_Get zz t k m) = (xm.live t m k \<noteq> None)"
  "\<not> em_done m \<Longrightarrow> xm.live t m k = Some v \<Longrightarrow> sv_Get zz t k m = (v, True)"
  by (auto simp: sv_Get_def em_V_def xm.live_def em_look_def split: option.splits if_splits)

text \<open>
  C24: A value put into a sieve is found, fresh, until its lifetime is over; the put reports whether
  it replaced a fresh entry, never shortens the life of the key, and leaves every other key alone.
\<close>

theorem sieve_put_get:
  assumes "em_wf m" "\<not> em_done m"
  shows "(if t \<le> t' \<and> t' < t + em_minlife m then sv_Get zz t' k (snd (sv_Put t k v m)) = (v, True) else True) \<and>
    fst (sv_Put t k v m) = snd (sv_Get zz t k m) \<and>
    (if snd (sv_Get zz t' k m) then sv_Get zz t' k (snd (sv_Put t k v m)) = (v, True) else True) \<and>
    (if k' \<noteq> k then sv_Get zz t' k' (snd (sv_Put t k v m)) = sv_Get zz t' k' m else True)"
  using assms
  by (auto simp: sv_Get_def em_V_def sv_Put_def em_upsert_def Let_def gm_get_put split: option.splits)

theorem sieve_put_get_witness:
  "sv_Get (0 :: nat) 14 ''k'' (snd (sv_Put 5 ''k'' 7 (NewExpiringMapLifetime 0 10))) = (7, True)"
  using sieve_put_get [of "NewExpiringMapLifetime 0 10 :: (string, nat) ExpMap" 5 14 0 "''k''" 7 "''l''"]
  by (simp add: em_wf_def NewExpiringMapLifetime_def)

text \<open>
  C11: Reaping is invisible: in any sequence of puts, deletes and reaper rounds with a clock that does
  not go back, leaving out every reaper round changes neither which keys are fresh at any later
  instant nor their values.
\<close>

theorem reaping_invisible:
  assumes "em_wf m" "\<not> em_done m" "sorted_times t ops" "last_time t ops \<le> t'"
  shows "snd (sv_Get zz t' k (foldl em_step m ops)) = snd (sv_Get zz t' k (foldl em_step m (no_sweeps ops))) \<and>
    (snd (sv_Get zz t' k (foldl em_step m ops)) \<longrightarrow>
       sv_Get zz t' k (foldl em_step m ops) = sv_Get zz t' k (foldl em_step m (no_sweeps ops)))"
proof -
  have e: "xm.live t' (foldl em_step m ops) k = xm.live t' (foldl em_step m (no_sweeps ops)) k"
    using xm.sweeps_invisible [OF assms(1,3,4)] by (simp add: em_step_eq)
  show ?thesis
    using sv_Get_live [of "foldl em_step m ops"] sv_Get_live [of "foldl em_step m (no_sweeps ops)"] assms(2) e
    by (cases "xm.live t' (foldl em_step m ops) k") auto
qed

theorem reaping_invisible_witness:
  "sv_Get (0 :: nat) 400000000009 ''k'' (foldl em_step (NewExpiringMapLifetime 0 10)
     [(5, OpPut ''k'' 7), (400000000000, OpSweep ()), (400000000001, OpPut ''k'' 8)]) = (8, True)"
  using reaping_invisible [of "NewExpiringMapLifetime 0 10 :: (string, nat) ExpMap" 0
      "[(5, OpPut ''k'' 7), (400000000000, OpSweep ()), (400000000001, OpPut ''k'' 8)]" 400000000009 0 "''k''"]
  by (simp add: em_wf_def NewExpiringMapLifetime_def sv_Put_def em_upsert_def Let_def sv_Get_def em_V_def split: prod.splits)

subsection \<open>The two-level sieve\<close>

definition inner_ok :: "('k1, 'k2, 'v) Sieve2K \<Rightarrow> ('k2, 'v) ExpMap \<Rightarrow> bool" where
  "inner_ok s inn \<longleftrightarrow> em_wf inn \<and> em_minlife inn = s2_life s \<and> em_done inn = s2_done s"

definition s2_inv :: "('k1, 'k2, 'v) Sieve2K \<Rightarrow> bool" where
  "s2_inv s \<longleftrightarrow> gm_wf (s2_m s) \<and> gm_wf (s2_d s) \<and> map_of (s2_d s) = map_of (s2_m s) \<and> 0 \<le> s2_life s \<and>
    (\<forall>a \<in> ran (map_of (s2_m s)). a < length (s2_heap s) \<and> inner_ok s (s2_heap s ! a)) \<and>
    inj_on (map_of (s2_m s)) (dom (map_of (s2_m s)))"

definition s2_look :: "('k1, 'k2, 'v) Sieve2K \<Rightarrow> 'k1 \<times> 'k2 \<Rightarrow> ('v \<times> int) option" where
  "s2_look s p = (case map_of (s2_m s) (fst p) of None \<Rightarrow> None | Some a \<Rightarrow> em_look (s2_heap s ! a) (snd p))"

lemma s2_invD:
  assumes "s2_inv s"
  shows "gm_wf (s2_m s)" "gm_wf (s2_d s)" "map_of (s2_d s) = map_of (s2_m s)" "0 \<le> s2_life s"
    "inj_on (map_of (s2_m s)) (dom (map_of (s2_m s)))"
  using assms by (simp_all add: s2_inv_def)

lemma s2_inv_inner:
  assumes "s2_inv s" "map_of (s2_m s) k = Some a"
  shows "a < length (s2_heap s)" "inner_ok s (s2_heap s ! a)"
  using assms by (auto simp: s2_inv_def intro: ranI)

lemma s2_inv_inj: "s2_inv s \<Longrightarrow> map_of (s2_m s) k = Some a \<Longrightarrow> map_of (s2_m s) k' = Some a \<Longrightarrow> k' = k"
  by (metis s2_invD(5) domI inj_onD)

lemma s2_inv_New: "0 \<le> life \<Longrightarrow> s2_inv (NewSieve2K life)"
  by (simp add: s2_inv_def NewSieve2K_def)

text \<open>Replacing an inner map, in use or not, by one that is in order if it is in use.\<close>

lemma s2_set_inner:
  assumes "s2_inv s" "a \<in> ran (map_of (s2_m s)) \<Longrightarrow> inner_ok s inn"
  shows "s2_inv (s\<lparr>s2_heap := (s2_heap s)[a := inn]\<rparr>)"
proof -
  have "inner_ok (s\<lparr>s2_heap := h\<rparr>) = inner_ok s" for h by (simp add: inner_ok_def fun_eq_iff)
  moreover have "inner_ok s ((s2_heap s)[a := inn] ! b)" if "b \<in> ran (map_of (s2_m s))" for b
    using that assms by (cases "b = a") (auto simp: s2_inv_def)
  ultimately show ?thesis using assms(1) unfolding s2_inv_def by simp
qed

lemma s2_counters [simp]:
  "s2_inv (s\<lparr>s2_ndels := n\<rparr>) = s2_inv s" "s2_look (s\<lparr>s2_ndels := n\<rparr>) p = s2_look s p" "s2_inner (s\<lparr>s2_ndels := n\<rparr>) k = s2_inner s k"
  by (simp_all add: s2_inv_def inner_ok_def s2_look_def s2_inner_def split: option.splits)

lemma s2_look_inner:
  assumes "s2_inv s" "map_of (s2_m s) k = Some a"
  shows "s2_look (s\<lparr>s2_heap := (s2_heap s)[a := inn]\<rparr>) p = (if fst p = k then em_look inn (snd p) else s2_look s p)"
proof (cases "map_of (s2_m s) (fst p)")
  case (Some b)
  have "fst p \<noteq> k \<Longrightarrow> b \<noteq> a" using s2_inv_inj [OF assms(1,2), of "fst p"] Some by auto
  then show ?thesis using Some assms(2) s2_inv_inner(1) [OF assms] by (auto simp: s2_look_def)
qed (use assms(2) in \<open>auto simp: s2_look_def\<close>)

lemma s2_look_orphan:
  assumes "a \<notin> ran (map_of (s2_m s))"
  shows "s2_look (s\<lparr>s2_heap := (s2_heap s)[a := inn]\<rparr>) p = s2_look s p"
proof (cases "map_of (s2_m s) (fst p)")
  case (Some b)
  then have "b \<noteq> a" using assms by (auto simp: ran_def)
  then show ?thesis using Some by (simp add: s2_look_def)
qed (simp add: s2_look_def)

lemma s2_put_find_facts:
  assumes "s2_inv s" "s2_put_find t k1 s = (a, s')"
  shows "s2_inv s' \<and> map_of (s2_m s') k1 = Some a \<and> (\<forall>p. s2_look s' p = s2_look s p) \<and> s2_life s' = s2_life s \<and> s2_done s' = s2_done s"
proof (cases "map_of (s2_m s) k1")
  case (Some b)
  then have "s' = s\<lparr>s2_nputs := s2_nputs s + 1\<rparr>" "b = a" using assms(2) by (simp_all add: s2_put_find_def)
  then show ?thesis using assms(1) Some by (simp add: s2_inv_def s2_look_def inner_ok_def split: option.splits)
next
  case None
  let ?i = "(NewExpiringMapLifetime t (s2_life s))\<lparr>em_done := s2_done s\<rparr> :: ('b, 'c) ExpMap"
  have a: "a = length (s2_heap s)" and s': "s' = s\<lparr>s2_nputs := s2_nputs s + 1, s2_heap := s2_heap s @ [?i],
      s2_m := gm_put k1 a (s2_m s), s2_d := gm_put k1 a (s2_d s)\<rparr>"
    using assms(2) None by (auto simp: s2_put_find_def Let_def)
  have lt: "b < a" if "map_of (s2_m s) k = Some b" for k b using s2_inv_inner(1) [OF assms(1) that] by (simp add: a)
  have m: "map_of (s2_m s') = (map_of (s2_m s))(k1 \<mapsto> a)" by (simp add: s' update_conv')
  have "inj_on (map_of (s2_m s')) (dom (map_of (s2_m s')))"
    using s2_invD(5) [OF assms(1)] lt unfolding m by (auto simp: inj_on_def dom_def) (metis less_irrefl)+
  moreover have "\<forall>b \<in> ran (map_of (s2_m s')). b < length (s2_heap s') \<and> inner_ok s' (s2_heap s' ! b)"
  proof
    fix b assume "b \<in> ran (map_of (s2_m s'))"
    then consider "b = a" | k where "map_of (s2_m s) k = Some b" by (auto simp: m ran_def split: if_splits)
    then show "b < length (s2_heap s') \<and> inner_ok s' (s2_heap s' ! b)"
    proof cases
      case 1
      then show ?thesis using s2_invD(4) [OF assms(1)] by (simp add: s' a inner_ok_def em_wf_def NewExpiringMapLifetime_def)
    next
      case (2 k)
      then show ?thesis using s2_inv_inner [OF assms(1) 2] by (simp add: s' nth_append inner_ok_def)
    qed
  qed
  ultimately have "s2_inv s'"
    using s2_invD [OF assms(1)] by (simp add: s2_inv_def) (simp add: s' update_conv')
  moreover have "s2_look s' p = s2_look s p" for p
    using None lt a by (auto simp: s2_look_def m) (auto simp: s' nth_append em_look_def NewExpiringMapLifetime_def split: option.splits)
  ultimately show ?thesis using m by (simp add: s')
qed

lemma s2_Put_facts:
  assumes "s2_inv s" and s'_def: "s' = snd (s2_Put t k1 k2 v s)"
  shows "s2_inv s'" "s2_life s' = s2_life s" "s2_done s' = s2_done s"
    and "s2_look s' p =
      (if p = (k1, k2) then Some (v, case s2_look s (k1, k2) of None \<Rightarrow> t + s2_life s | Some (_, e) \<Rightarrow> max e (t + s2_life s)) else s2_look s p)"
proof -
  obtain a s1 where f: "s2_put_find t k1 s = (a, s1)" by fastforce
  have g: "s2_inv s1" "map_of (s2_m s1) k1 = Some a" "\<And>p. s2_look s1 p = s2_look s p" "s2_life s1 = s2_life s" "s2_done s1 = s2_done s"
    using s2_put_find_facts [OF assms(1) f] by auto
  let ?i = "s2_heap s1 ! a"
  have i: "inner_ok s1 ?i" by (rule s2_inv_inner(2) [OF g(1,2)])
  let ?n = "snd (sv_Put t k2 v ?i)"
  have n: "inner_ok s1 ?n" using i by (simp add: inner_ok_def em_wf_def sv_Put_snd em_upsert_frame)
  have e: "s' = s1\<lparr>s2_heap := (s2_heap s1)[a := ?n]\<rparr>"
    by (simp add: s'_def s2_Put_def f s2_put_write_def split: prod.splits)
  have l: "s2_look s (k1, x) = em_look ?i x" for x
    using g(2) by (simp flip: g(3)) (simp add: s2_look_def)
  have ml: "em_minlife ?i = s2_life s" using i g(4) by (simp add: inner_ok_def)
  show "s2_inv s'" unfolding e by (rule s2_set_inner [OF g(1) n])
  show "s2_life s' = s2_life s" "s2_done s' = s2_done s" using g(4,5) by (simp_all add: e)
  show "s2_look s' p =
      (if p = (k1, k2) then Some (v, case s2_look s (k1, k2) of None \<Rightarrow> t + s2_life s | Some (_, e) \<Rightarrow> max e (t + s2_life s)) else s2_look s p)"
  proof (cases p)
    case (Pair x y)
    show ?thesis unfolding e s2_look_inner [OF g(1,2)] Pair
      using l g(3) by (simp add: sv_Put_snd em_upsert_look ml split: option.splits)
  qed
qed

text \<open>Dropping a key whose inner map is empty.\<close>

lemma s2_drop_facts:
  assumes "s2_inv s" "sv_Len (s2_inner s k1) = 0"
  shows "s2_inv (s2_drop k1 s) \<and> (\<forall>p. s2_look (s2_drop k1 s) p = s2_look s p) \<and>
    s2_life (s2_drop k1 s) = s2_life s \<and> s2_done (s2_drop k1 s) = s2_done s"
proof -
  let ?s = "s\<lparr>s2_m := gm_del k1 (s2_m s), s2_d := gm_del k1 (s2_d s)\<rparr>"
  have m: "map_of (s2_m ?s) = (map_of (s2_m s))(k1 := None)" by (simp add: delete_conv')
  have r: "ran (map_of (s2_m ?s)) \<subseteq> ran (map_of (s2_m s))" unfolding m by (auto simp: ran_def split: if_splits)
  have ij: "inj_on (map_of (s2_m ?s)) (dom (map_of (s2_m ?s)))"
    using s2_invD(5) [OF assms(1)] unfolding m by (auto simp: inj_on_def dom_def)
  have inv: "s2_inv ?s"
    using assms(1) r ij unfolding s2_inv_def by (auto simp: inner_ok_def delete_conv')
  have l: "s2_look ?s p = s2_look s p" for p
    using assms(2) by (auto simp: s2_look_def gm_get_del s2_inner_def sv_Len_def em_Len_def em_look_def split: option.splits)
  have "a \<notin> ran (map_of (s2_m ?s))" if "map_of (s2_m s) k1 = Some a" for a
    using s2_inv_inj [OF assms(1) that] unfolding m by (auto simp: ran_def split: if_splits)
  then have "s2_inv (s2_cancel (map_of (s2_m s) k1) ?s) \<and> (\<forall>p. s2_look (s2_cancel (map_of (s2_m s) k1) ?s) p = s2_look ?s p)"
    using s2_set_inner [OF inv] s2_look_orphan [of _ ?s] inv by (cases "map_of (s2_m s) k1") (auto simp: s2_cancel_def)
  then show ?thesis
    using l by (simp add: s2_drop_def s2_invD(3) [OF assms(1)]) (simp add: s2_cancel_def split: option.splits)
qed

lemma s2_reclaim_facts:
  assumes "s2_inv s"
  shows "s2_inv (s2_reclaimIfEmpty k1 s) \<and> (\<forall>p. s2_look (s2_reclaimIfEmpty k1 s) p = s2_look s p) \<and>
    s2_life (s2_reclaimIfEmpty k1 s) = s2_life s \<and> s2_done (s2_reclaimIfEmpty k1 s) = s2_done s"
  using assms s2_drop_facts [OF assms, of k1] by (cases "s2_inner s k1") (simp_all add: s2_reclaimIfEmpty_def sv_Len_def)

lemma s2_reap_facts:
  assumes "s2_inv s" and s'_def: "s' = s2_reap t k1 a s"
  shows "s2_inv s'" "s2_life s' = s2_life s" "s2_done s' = s2_done s"
    and "s2_look s' p = s2_look s p \<or> s2_look s' p = None \<and> (\<exists>v e. s2_look s p = Some (v, e) \<and> e < t)"
proof -
  let ?n = "snd (em_reap t (s2_heap s ! a))"
  let ?s = "s\<lparr>s2_heap := (s2_heap s)[a := ?n]\<rparr>"
  have r: "s' = ?s \<or> s' = s2_reclaimIfEmpty k1 ?s"
    by (auto simp: s'_def s2_reap_def Let_def split: prod.splits)
  have n: "a \<in> ran (map_of (s2_m s)) \<Longrightarrow> inner_ok s ?n"
    using assms(1) by (auto simp: s2_inv_def inner_ok_def em_wf_def em_reap_frame)
  have i: "s2_inv ?s" by (rule s2_set_inner [OF assms(1) n])
  have l: "s2_look ?s p = s2_look s p \<or> s2_look ?s p = None \<and> (\<exists>v e. s2_look s p = Some (v, e) \<and> e < t)"
  proof (cases "a \<in> ran (map_of (s2_m s))")
    case True
    then obtain k where k: "map_of (s2_m s) k = Some a" by (auto simp: ran_def)
    have w: "gm_wf (em_m (s2_heap s ! a))" using s2_inv_inner(2) [OF assms(1) k] by (simp add: inner_ok_def em_wf_def)
    have lk: "fst p = k \<Longrightarrow> s2_look s p = em_look (s2_heap s ! a) (snd p)" using k by (simp add: s2_look_def)
    show ?thesis
      unfolding s2_look_inner [OF assms(1) k] using em_reap_look [OF w, of t "snd p"] lk by simp
  next
    case False
    then show ?thesis by (simp add: s2_look_orphan)
  qed
  show "s2_inv s'" "s2_life s' = s2_life s" "s2_done s' = s2_done s"
    and "s2_look s' p = s2_look s p \<or> s2_look s' p = None \<and> (\<exists>v e. s2_look s p = Some (v, e) \<and> e < t)"
    using r s2_reclaim_facts [OF i, of k1] i l by (cases p; auto)+
qed

lemma s2_Del_facts:
  assumes "s2_inv s" and s'_def: "s' = snd (s2_Del k1 k2 s)"
  shows "s2_inv s'" "s2_life s' = s2_life s" "s2_done s' = s2_done s"
    and "s2_look s' p = (if p = (k1, k2) then None else s2_look s p)"
proof -
  define s1 where "s1 = (case map_of (s2_m s) k1 of
      Some a \<Rightarrow> s\<lparr>s2_heap := (s2_heap s)[a := snd (sv_Del k2 (s2_heap s ! a))]\<rparr> | None \<Rightarrow> s)"
  have s1: "s2_inv s1 \<and> s2_life s1 = s2_life s \<and> s2_done s1 = s2_done s \<and>
    (\<forall>p. s2_look s1 p = (if p = (k1, k2) then None else s2_look s p))"
  proof (cases "map_of (s2_m s) k1")
    case None
    then show ?thesis using assms(1) by (auto simp: s1_def s2_look_def)
  next
    case (Some a)
    let ?n = "snd (sv_Del k2 (s2_heap s ! a))"
    have e: "s1 = s\<lparr>s2_heap := (s2_heap s)[a := ?n]\<rparr>" using Some by (simp add: s1_def)
    have n: "inner_ok s ?n" using s2_inv_inner(2) [OF assms(1) Some] by (simp add: inner_ok_def em_wf_def sv_Del_def em_Delete_frame)
    have "s2_inv s1" unfolding e by (rule s2_set_inner [OF assms(1) n])
    moreover have "s2_look s1 p = (if p = (k1, k2) then None else s2_look s p)" for p
      unfolding e s2_look_inner [OF assms(1) Some] using Some
      by (cases p) (auto simp: sv_Del_def em_Delete_look s2_look_def)
    ultimately show ?thesis by (simp add: e)
  qed
  define s2 where "s2 = s1\<lparr>s2_ndels := s2_ndels s1 + 1\<rparr>"
  have s2: "s2_inv s2 \<and> s2_life s2 = s2_life s1 \<and> s2_done s2 = s2_done s1 \<and> (\<forall>p. s2_look s2 p = s2_look s1 p)"
    using s1 by (simp add: s2_def)
  have "s' \<in> {s1, s2} \<or> (\<exists>x \<in> {s1, s2}. s' = s2_drop k1 x \<and> sv_Len (s2_inner x k1) = 0)"
    by (auto simp: s'_def s2_Del_def Let_def s1_def s2_def split: option.splits prod.splits)
  then have "s2_inv s' \<and> s2_life s' = s2_life s1 \<and> s2_done s' = s2_done s1 \<and> (\<forall>p. s2_look s' p = s2_look s1 p)"
    using s1 s2 s2_drop_facts [of s1 k1] s2_drop_facts [of s2 k1] by (elim disjE bexE insertE; force)
  then show "s2_inv s'" "s2_life s' = s2_life s" "s2_done s' = s2_done s"
    and "s2_look s' p = (if p = (k1, k2) then None else s2_look s p)"
    using s1 by (cases p; auto)+
qed

interpretation x2: expiring_map s2_inv s2_look s2_life "\<lambda>t p v s. snd (s2_Put t (fst p) (snd p) v s)"
  "\<lambda>p s. snd (s2_Del (fst p) (snd p) s)" "\<lambda>i t s. s2_reap t (fst i) (snd i) s"
proof unfold_locales
  fix s :: "('a, 'b, 'c) Sieve2K" and t k v k' i
  show "s2_life (snd (s2_Put t (fst k) (snd k) v s)) = s2_life s"
    by (auto simp: s2_Put_def s2_put_find_def s2_put_write_def Let_def split: option.splits prod.splits)
  show "s2_life (snd (s2_Del (fst k) (snd k) s)) = s2_life s"
    by (auto simp: s2_Del_def s2_drop_def s2_cancel_def Let_def split: option.splits prod.splits)
  show "s2_life (s2_reap t (fst i) (snd i) s) = s2_life s"
    by (auto simp: s2_reap_def s2_reclaimIfEmpty_def s2_drop_def s2_cancel_def Let_def split: option.splits prod.splits)
  assume s: "s2_inv s"
  then show "0 \<le> s2_life s" by (rule s2_invD)
  show "s2_inv (snd (s2_Put t (fst k) (snd k) v s))" "s2_inv (snd (s2_Del (fst k) (snd k) s))" "s2_inv (s2_reap t (fst i) (snd i) s)"
    using s2_Put_facts(1) [OF s refl] s2_Del_facts(1) [OF s refl] s2_reap_facts(1) [OF s refl] by auto
  show "s2_look (snd (s2_Put t (fst k) (snd k) v s)) k' =
      (if k' = k then Some (v, case s2_look s k of None \<Rightarrow> t + s2_life s | Some (_, e) \<Rightarrow> max e (t + s2_life s)) else s2_look s k')"
    using s2_Put_facts(4) [OF s refl, of t "fst k" "snd k" v k'] by simp
  show "s2_look (snd (s2_Del (fst k) (snd k) s)) k' = (if k' = k then None else s2_look s k')"
    using s2_Del_facts(4) [OF s refl, of "fst k" "snd k" k'] by simp
  show "s2_look (s2_reap t (fst i) (snd i) s) k = s2_look s k \<or>
      s2_look (s2_reap t (fst i) (snd i) s) k = None \<and> (\<exists>v e. s2_look s k = Some (v, e) \<and> e < t)"
    by (rule s2_reap_facts(4) [OF s refl])
qed

text \<open>
  C4: The two-level sieve keeps its invariant (inner maps and their cancel functions are registered
  for the same keys, no two keys share an inner map, every registered inner map is live) under
  every operation and is a flat expiring map on pairs of keys: a put sets exactly its pair, a delete
  removes exactly its pair, and a reaper round with the reclaiming of empty inner maps removes
  expired entries only.
\<close>

theorem sieve2k_refines:
  assumes "s2_inv s"
  shows "s2_inv (snd (s2_Put t k1 k2 v s)) \<and> s2_inv (snd (s2_Del k1 k2 s)) \<and> s2_inv (s2_reap t k1 a s) \<and>
    s2_look (snd (s2_Put t k1 k2 v s)) = (s2_look s)((k1, k2) \<mapsto>
       (v, case s2_look s (k1, k2) of None \<Rightarrow> t + s2_life s | Some (_, e) \<Rightarrow> max e (t + s2_life s))) \<and>
    s2_look (snd (s2_Del k1 k2 s)) = (s2_look s)((k1, k2) := None) \<and>
    (\<forall>p. s2_look (s2_reap t k1 a s) p = s2_look s p \<or>
       s2_look (s2_reap t k1 a s) p = None \<and> (\<exists>v e. s2_look s p = Some (v, e) \<and> e < t))"
  using s2_Put_facts [OF assms refl] s2_Del_facts [OF assms refl] s2_reap_facts [OF assms refl]
  by (auto simp: fun_eq_iff)

theorem sieve2k_refines_witness:
  "s2_look (snd (s2_Put 5 ''a'' ''b'' (7 :: nat) (NewSieve2K 10))) (''a'', ''b'') = Some (7, 15)"
  using sieve2k_refines [OF s2_inv_New, of 10 5 "''a''" "''b''" "7 :: nat"]
  by (simp add: s2_look_def NewSieve2K_def)

text \<open>
  C38: A put is not atomic: a reaper round or a delete between the lookup of the inner map and the
  write into it can unregister that inner map, and the value is written where no lookup finds it.
\<close>

theorem sieve2k_put_lost:
  "\<exists>s a s1 s2 s3. s2_inv s \<and> s2_put_find 5 k1 s = (a, s1) \<and> s2_Del k1 k2 s1 = (False, s2) \<and>
     s2_put_write 5 a k2 v s2 = (False, s3) \<and> s2_inv s3 \<and> s2_look s3 (k1, k2) = None \<and> em_look (s2_heap s3 ! a) k2 \<noteq> None"
proof -
  let ?i = "NewExpiringMapLifetime 5 10 :: ('b, 'c) ExpMap"
  let ?s1 = "\<lparr>s2_heap = [?i], s2_m = [(k1, 0)], s2_d = [(k1, 0)], s2_life = 10, s2_done = False, s2_nputs = 1,
      s2_ngets = 0, s2_ndels = 0\<rparr> :: ('a, 'b, 'c) Sieve2K"
  let ?s2 = "?s1\<lparr>s2_heap := [?i\<lparr>em_done := True\<rparr>], s2_m := [], s2_d := []\<rparr>"
  let ?s3 = "?s2\<lparr>s2_heap := [snd (sv_Put 5 k2 v (?i\<lparr>em_done := True\<rparr>))]\<rparr>"
  have "s2_inv (NewSieve2K 10 :: ('a, 'b, 'c) Sieve2K)" by (simp add: s2_inv_New)
  moreover have "s2_put_find 5 k1 (NewSieve2K 10) = (0, ?s1)"
    by (simp add: s2_put_find_def NewSieve2K_def NewExpiringMapLifetime_def)
  moreover have "s2_Del k1 k2 ?s1 = (False, ?s2)"
    by (simp add: s2_Del_def sv_Del_def em_Delete_def s2_inner_def sv_Len_def em_Len_def s2_drop_def s2_cancel_def NewExpiringMapLifetime_def)
  moreover have "s2_put_write 5 0 k2 v ?s2 = (False, ?s3)"
    by (simp add: s2_put_write_def sv_Put_def em_upsert_def NewExpiringMapLifetime_def)
  moreover have "s2_inv ?s3" "s2_look ?s3 (k1, k2) = None" by (simp_all add: s2_inv_def s2_look_def)
  moreover have "em_look (s2_heap ?s3 ! 0) k2 \<noteq> None" by (simp add: sv_Put_snd em_upsert_look)
  ultimately show ?thesis by blast
qed

end
