(* ===== verification/Slices.thy ===== *)
theory Slices
  imports Main
begin

text \<open>
  The slice helpers of \<^verbatim>\<open>intra/core/slices.go\<close> that do not draw random numbers, with their loops as
  written, and what they compute: a stable removal of duplicates, a filter, a map, the removal and
  the addition of one element.
\<close>

fun copy_uniq_loop :: "'a list \<Rightarrow> 'a list \<Rightarrow> 'a set \<Rightarrow> 'a list \<times> 'a set" where
  "copy_uniq_loop [] out acc = (out, acc)"
| "copy_uniq_loop (x # xs) out acc =
     (if x \<in> acc then copy_uniq_loop xs out acc else copy_uniq_loop xs (out @ [x]) (insert x acc))"

fun copy_uniq_outer :: "'a list list \<Rightarrow> 'a list \<Rightarrow> 'a set \<Rightarrow> 'a list" where
  "copy_uniq_outer [] out acc = out"
| "copy_uniq_outer (x # a) out acc = (case copy_uniq_loop x out acc of (out, acc) \<Rightarrow> copy_uniq_outer a out acc)"

definition CopyUniq :: "'a list list \<Rightarrow> 'a list" where
  "CopyUniq a = (if length a \<le> 0 then [] else copy_uniq_outer a [] {})"

fun filter_left_loop :: "'a list \<Rightarrow> ('a \<Rightarrow> bool) \<Rightarrow> 'a list \<Rightarrow> 'a list" where
  "filter_left_loop [] test out = out"
| "filter_left_loop (x # xs) test out = filter_left_loop xs test (if test x then out @ [x] else out)"

definition FilterLeft :: "'a list \<Rightarrow> ('a \<Rightarrow> bool) \<Rightarrow> 'a list" where
  "FilterLeft arr test = filter_left_loop arr test []"

definition FirstOf :: "'a \<Rightarrow> 'a list \<Rightarrow> 'a" where
  "FirstOf zz c = (if length c \<le> 0 then zz else c ! 0)"

fun map2_loop :: "'a list \<Rightarrow> ('a \<Rightarrow> 'b) \<Rightarrow> ('a \<Rightarrow> bool) \<Rightarrow> 'b list \<Rightarrow> 'b list" where
  "map2_loop [] transform test out = out"
| "map2_loop (x # xs) transform test out =
     map2_loop xs transform test (if test x then out @ [transform x] else out)"

definition Map2 :: "'a list \<Rightarrow> ('a \<Rightarrow> 'b) \<Rightarrow> ('a \<Rightarrow> bool) \<Rightarrow> 'b list" where
  "Map2 arr transform test = map2_loop arr transform test []"

definition Map_slice :: "'a list \<Rightarrow> ('a \<Rightarrow> 'b) \<Rightarrow> 'b list" where
  "Map_slice arr transform = map2_loop arr transform (\<lambda>_. True) []"

definition WithoutElem :: "'a list \<Rightarrow> 'a \<Rightarrow> 'a list" where
  "WithoutElem arr elem = (if elem \<notin> set arr then arr else filter_left_loop arr (\<lambda>x. x \<noteq> elem) [])"

definition WithElem :: "'a list \<Rightarrow> 'a \<Rightarrow> 'a list" where
  "WithElem s add = (if length s \<le> 0 then [add] else if add \<in> set s then s else s @ [add])"

fun IsAll :: "'a list \<Rightarrow> ('a \<Rightarrow> bool) \<Rightarrow> bool" where
  "IsAll [] test = True"
| "IsAll (x # xs) test = (if \<not> test x then False else IsAll xs test)"

subsection \<open>What they compute\<close>

text \<open>Keeping the first occurrence of every element.\<close>

fun uniq_left :: "'a list \<Rightarrow> 'a list" where
  "uniq_left [] = []"
| "uniq_left (x # xs) = x # filter (\<lambda>y. y \<noteq> x) (uniq_left xs)"

lemma uniq_left_set [simp]: "set (uniq_left xs) = set xs"
  by (induction xs) auto

lemma uniq_left_distinct [simp]: "distinct (uniq_left xs)"
  by (induction xs) auto

lemma uniq_left_id: "distinct xs \<Longrightarrow> uniq_left xs = xs"
  by (induction xs) (auto intro: filter_True)

lemma uniq_left_append: "uniq_left (xs @ ys) = uniq_left xs @ filter (\<lambda>y. y \<notin> set xs) (uniq_left ys)"
  by (induction xs) (simp_all add: conj_commute)

lemma copy_uniq_loop_eq:
  "copy_uniq_loop xs out acc = (out @ filter (\<lambda>y. y \<notin> acc) (uniq_left xs), acc \<union> set xs)"
proof (induction xs out acc rule: copy_uniq_loop.induct)
  case (2 x xs out acc)
  have "filter (\<lambda>y. y \<notin> acc) (filter (\<lambda>y. y \<noteq> x) ys) = filter (\<lambda>y. y \<notin> acc) ys" if "x \<in> acc" for ys
    using that by (induction ys) auto
  moreover have "filter (\<lambda>y. y \<notin> insert x acc) ys = filter (\<lambda>y. y \<notin> acc) (filter (\<lambda>y. y \<noteq> x) ys)" for ys
    by (induction ys) auto
  ultimately show ?case using 2 by (auto simp del: filter_filter insert_iff)
qed simp

lemma copy_uniq_outer_eq: "copy_uniq_outer a out acc = out @ filter (\<lambda>y. y \<notin> acc) (uniq_left (concat a))"
  by (induction a out acc rule: copy_uniq_outer.induct)
    (simp_all add: copy_uniq_loop_eq uniq_left_append conj_commute)

lemma CopyUniq_eq: "CopyUniq a = uniq_left (concat a)"
  by (simp add: CopyUniq_def copy_uniq_outer_eq)

lemma CopyUniq_add: "distinct xs \<Longrightarrow> CopyUniq [xs, [x]] = (if x \<in> set xs then xs else xs @ [x])"
  by (simp add: CopyUniq_eq uniq_left_append uniq_left_id)

lemma filter_left_loop_eq: "filter_left_loop xs test out = out @ filter test xs"
  by (induction xs test out rule: filter_left_loop.induct) auto

lemma map2_loop_eq: "map2_loop xs f test out = out @ map f (filter test xs)"
  by (induction xs f test out rule: map2_loop.induct) auto

lemma WithoutElem_eq: "WithoutElem arr e = removeAll e arr"
proof -
  have "filter (\<lambda>x. x \<noteq> e) xs = removeAll e xs" for xs :: "'a list" by (induction xs) auto
  then show ?thesis by (simp add: WithoutElem_def filter_left_loop_eq)
qed

lemma IsAll_eq: "IsAll xs test = list_all test xs"
  by (induction xs) auto

text \<open>
  \<^verbatim>\<open>CopyUniq\<close> returns the elements of its slices in order of their first occurrence, each once;
  the filtering and mapping helpers compute the filter and the map; removing an element that was
  added to a slice without it gives the slice back.
\<close>

theorem slices_reference:
  "CopyUniq a = uniq_left (concat a) \<and> distinct (CopyUniq a) \<and> set (CopyUniq a) = set (concat a) \<and>
   FilterLeft xs p = filter p xs \<and> Map2 xs f p = map f (filter p xs) \<and> Map_slice xs f = map f xs \<and>
   WithoutElem (WithElem xs e) e = removeAll e xs \<and> IsAll xs p = list_all p xs"
  by (auto simp: CopyUniq_eq FilterLeft_def filter_left_loop_eq Map2_def Map_slice_def map2_loop_eq WithoutElem_eq
      WithElem_def IsAll_eq)

end
