(* ===== verification/Connmap.thy ===== *)
theory Connmap
  imports Expmap Slices
begin

text \<open>
  The connection tracker of \<^verbatim>\<open>intra/core/connmap.go\<close>: connections by connection id, with an index from
  process ids and from user ids to connection ids. \<^verbatim>\<open>delLocked\<close> and \<^verbatim>\<open>untrackBatchLocked\<close> call each other,
  and nothing in the code bounds their depth; the model runs them on fuel (\<open>None\<close>: out of fuel) and
  the lemmas show that two levels are enough whenever the indexes agree with the connections, and
  that no fuel is enough in a state the code can reach otherwise. The record keeps the connections
  that were closed. The loops that delete from an index shift the array they range over, as
  \<^verbatim>\<open>slices.Delete\<close> does.
\<close>

subsection \<open>State\<close>

record 'c connstat =
  cs_c :: "'c list"
  cs_t :: int
  cs_uid :: string
  cs_pid :: string

record 'c cm =
  cm_tracc :: "(string, 'c connstat) gomap"
  cm_tracp :: "(string, string list) gomap"
  cm_tracu :: "(string, string list) gomap"
  cm_sz :: int
  cm_ntracks :: u64
  cm_nuntracks :: u64
  cm_ngets :: u64
  cm_closed :: "'c list"

definition NewConnMap :: "'c cm" where
  "NewConnMap =
     \<lparr>cm_tracc = [], cm_tracp = [], cm_tracu = [], cm_sz = 0, cm_ntracks = 0, cm_nuntracks = 0, cm_ngets = 0,
      cm_closed = []\<rparr>"

definition idx_get :: "(string, string list) gomap \<Rightarrow> string \<Rightarrow> string list" where
  \<comment> \<open>\<^verbatim>\<open>m[id]\<close>, \<^verbatim>\<open>getByUidLocked\<close>, \<^verbatim>\<open>getByPidLocked\<close>: nil when absent\<close>
  "idx_get m k = (case map_of m k of Some v \<Rightarrow> v | None \<Rightarrow> [])"

subsection \<open>Adding\<close>

definition idx_add :: "string \<Rightarrow> string \<Rightarrow> (string, string list) gomap \<Rightarrow> (string, string list) gomap" where
  \<comment> \<open>\<^verbatim>\<open>addByPidLocked\<close>, \<^verbatim>\<open>addByUidLocked\<close>\<close>
  "idx_add key cid m =
     (if length key \<le> 0 \<or> length cid \<le> 0 then m else gm_put key (CopyUniq [idx_get m key, [cid]]) m)"

definition addLocked :: "int \<Rightarrow> string \<Rightarrow> string \<Rightarrow> string \<Rightarrow> 'c list \<Rightarrow> 'c cm \<Rightarrow> nat \<times> 'c cm" where
  "addLocked now cid uid pid conns h =
     (let (n, h) = (case map_of (cm_tracc h) cid of
                      None \<Rightarrow> (length conns,
                        h\<lparr>cm_tracc := gm_put cid \<lparr>cs_c = conns, cs_t = now, cs_uid = uid, cs_pid = pid\<rparr> (cm_tracc h)\<rparr>)
                    | Some v \<Rightarrow> let v = v\<lparr>cs_c := cs_c v @ conns\<rparr>
                                in (length (cs_c v), h\<lparr>cm_tracc := gm_put cid v (cm_tracc h)\<rparr>));
          h = h\<lparr>cm_tracp := idx_add pid cid (cm_tracp h)\<rparr>;
          h = h\<lparr>cm_tracu := idx_add uid cid (cm_tracu h)\<rparr>
      in (n, h\<lparr>cm_sz := cm_sz h + int (length conns)\<rparr>))"

definition Track :: "int \<Rightarrow> string \<Rightarrow> string \<Rightarrow> string \<Rightarrow> 'c list \<Rightarrow> 'c cm \<Rightarrow> nat \<times> 'c cm" where
  "Track now cid uid pid conns h = addLocked now cid uid pid conns (h\<lparr>cm_ntracks := cm_ntracks h + 1\<rparr>)"

subsection \<open>Deleting\<close>

text \<open>
  The loop ranges over the original length while \<^verbatim>\<open>slices.Delete\<close> moves the rest of the array up and
  zeroes the slot it frees.
\<close>

fun idx_del_loop :: "nat list \<Rightarrow> string list \<Rightarrow> string \<Rightarrow> string \<Rightarrow> (string, string list) gomap \<Rightarrow> (string, string list) gomap" where
  "idx_del_loop [] arr key cid m = m"
| "idx_del_loop (i # is) arr key cid m =
     (if arr ! i = cid then
        let arr' = take i arr @ drop (i + 1) arr @ [''''];
            rem = take (length arr - 1) arr'
        in if length rem \<le> 0 then gm_del key m
           else idx_del_loop is arr' key cid (gm_put key rem m)
      else idx_del_loop is arr key cid m)"

definition idx_del :: "string \<Rightarrow> string \<Rightarrow> (string, string list) gomap \<Rightarrow> (string, string list) gomap" where
  \<comment> \<open>\<^verbatim>\<open>delByPidLocked\<close>, \<^verbatim>\<open>delByUidLocked\<close>\<close>
  "idx_del key cid m =
     (if length key \<le> 0 then m
      else
        let cids = idx_get m key
        in if length cid \<le> 0 then gm_del key m
           else idx_del_loop [0..<length cids] cids key cid m)"

definition del_found :: "string \<Rightarrow> 'c connstat \<Rightarrow> 'c cm \<Rightarrow> nat \<times> 'c cm" where
  \<comment> \<open>the branch of \<^verbatim>\<open>delLocked\<close> on a connection id, with its deferred calls in the order they run\<close>
  "del_found cid v h =
     (let n = length (cs_c v);
          h = h\<lparr>cm_closed := cm_closed h @ cs_c v\<rparr>;
          h = h\<lparr>cm_sz := cm_sz h - int n\<rparr>;
          h = h\<lparr>cm_tracu := idx_del (cs_uid v) cid (cm_tracu h)\<rparr>;
          h = h\<lparr>cm_tracp := idx_del (cs_pid v) cid (cm_tracp h)\<rparr>;
          h = h\<lparr>cm_tracc := gm_del cid (cm_tracc h)\<rparr>
      in (n, h))"

fun delLocked :: "nat \<Rightarrow> string \<Rightarrow> 'c cm \<Rightarrow> (nat \<times> 'c cm) option"
  and untrackBatchLocked :: "nat \<Rightarrow> string list \<Rightarrow> 'c cm \<Rightarrow> (string list \<times> 'c cm) option" where
  "delLocked 0 cid h = None"
| "delLocked (Suc fuel) cid h =
     (case map_of (cm_tracc h) cid of
        Some v \<Rightarrow> Some (del_found cid v h)
      | None \<Rightarrow>
          if length (idx_get (cm_tracu h) cid) > 0 then
            (case untrackBatchLocked fuel (idx_get (cm_tracu h) cid) h of
               None \<Rightarrow> None | Some (out, h) \<Rightarrow> Some (length out, h))
          else if length (idx_get (cm_tracp h) cid) > 0 then
            (case untrackBatchLocked fuel (idx_get (cm_tracp h) cid) h of
               None \<Rightarrow> None | Some (out, h) \<Rightarrow> Some (length out, h))
          else Some (0, h))"
| "untrackBatchLocked fuel [] h = Some ([], h)"
| "untrackBatchLocked fuel (cid # ids) h =
     (case delLocked fuel cid h of
        None \<Rightarrow> None
      | Some (n, h) \<Rightarrow>
          (case untrackBatchLocked fuel ids h of
             None \<Rightarrow> None
           | Some (out, h) \<Rightarrow> Some (if n > 0 then cid # out else out, h)))"

definition Untrack :: "nat \<Rightarrow> string \<Rightarrow> 'c cm \<Rightarrow> (nat \<times> 'c cm) option" where
  "Untrack fuel cid h = delLocked fuel cid (h\<lparr>cm_nuntracks := cm_nuntracks h + 1\<rparr>)"

definition UntrackBatch :: "nat \<Rightarrow> string list \<Rightarrow> 'c cm \<Rightarrow> (string list \<times> 'c cm) option" where
  "UntrackBatch fuel ids h = untrackBatchLocked fuel ids h"

subsection \<open>Reading and clearing\<close>

definition cm_Get :: "string \<Rightarrow> 'c cm \<Rightarrow> 'c list \<times> 'c cm" where
  "cm_Get cid h =
     (let h = h\<lparr>cm_ngets := cm_ngets h + 1\<rparr>
      in (case map_of (cm_tracc h) cid of Some cs \<Rightarrow> cs_c cs | None \<Rightarrow> [], h))"

fun get_all_loop :: "string list \<Rightarrow> 'c cm \<Rightarrow> 'c list \<Rightarrow> 'c list" where
  "get_all_loop [] h conns = conns"
| "get_all_loop (cid # r) h conns =
     get_all_loop r h (case map_of (cm_tracc h) cid of Some cs \<Rightarrow> conns @ cs_c cs | None \<Rightarrow> conns)"

definition GetAll :: "string \<Rightarrow> 'c cm \<Rightarrow> 'c list \<times> 'c cm" where
  "GetAll uidOrPid h =
     (let h = h\<lparr>cm_ngets := cm_ngets h + 1\<rparr>
      in if length uidOrPid \<le> 0 then ([], h)
         else (get_all_loop (idx_get (cm_tracp h) uidOrPid @ idx_get (cm_tracu h) uidOrPid) h [], h))"

definition cm_Clear :: "'c cm \<Rightarrow> string list \<times> 'c cm" where
  "cm_Clear h =
     (map fst (cm_tracc h),
      h\<lparr>cm_closed := cm_closed h @ concat (map (\<lambda>(k, v). cs_c v) (cm_tracc h)),
        cm_tracc := [], cm_tracu := [], cm_tracp := [], cm_sz := 0\<rparr>)"

definition cm_Len :: "'c cm \<Rightarrow> int" where
  "cm_Len h = cm_sz h"

definition cm_Stat :: "'c cm \<Rightarrow> MapState" where
  "cm_Stat h =
     \<lparr>ms_Len = of_int (cm_sz h), ms_Gets = cm_ngets h, ms_Puts = cm_ntracks h, ms_Dels = cm_nuntracks h\<rparr>"

subsection \<open>The indexes\<close>

lemma idx_get_put [simp]: "idx_get (gm_put k v m) k' = (if k' = k then v else idx_get m k')"
  by (simp add: idx_get_def gm_get_put)

lemma idx_get_del [simp]: "idx_get (gm_del k m) k' = (if k' = k then [] else idx_get m k')"
  by (simp add: idx_get_def gm_get_del)

lemma idx_get_Nil [simp]: "idx_get [] k = []"
  by (simp add: idx_get_def)

lemma idx_add_get:
  "distinct (idx_get m key) \<Longrightarrow> idx_get (idx_add key cid m) k =
     (if k = key \<and> key \<noteq> [] \<and> cid \<noteq> [] \<and> cid \<notin> set (idx_get m key) then idx_get m key @ [cid] else idx_get m k)"
  by (simp add: idx_add_def CopyUniq_add)

lemma idx_del_loop_absent:
  "\<forall>i \<in> set is. arr ! i \<noteq> cid \<Longrightarrow> idx_del_loop is arr key cid m = m"
  by (induction "is") auto

text \<open>On a duplicate-free entry the loop, though it ranges over the array it shifts, removes the id once.\<close>

lemma idx_del_loop_skip:
  "\<forall>i \<in> set is. arr ! i \<noteq> cid \<Longrightarrow> idx_del_loop (is @ js) arr key cid m = idx_del_loop js arr key cid m"
  by (induction "is") auto

lemma idx_del_loop_once:
  assumes d: "distinct (xs @ cid # ys)" and c: "cid \<noteq> []"
  shows "idx_del_loop [0..<length (xs @ cid # ys)] (xs @ cid # ys) key cid m =
    (if xs @ ys = [] then gm_del key m else gm_put key (xs @ ys) m)"
proof -
  let ?arr = "xs @ cid # ys" and ?arr' = "(xs @ ys) @ ['''']"
  have split: "[0..<length ?arr] = [0..<length xs] @ length xs # [Suc (length xs)..<length ?arr]"
    using upt_add_eq_append [of 0 "length xs" "Suc (length ys)"] upt_conv_Cons [of "length xs" "length ?arr"] by simp
  have skip: "\<forall>i \<in> set [0..<length xs]. ?arr ! i \<noteq> cid" using d by (auto simp: nth_append)
  have rest: "\<forall>i \<in> set [Suc (length xs)..<length ?arr]. ?arr' ! i \<noteq> cid"
  proof
    fix i assume "i \<in> set [Suc (length xs)..<length ?arr]"
    then have "i < length ?arr'" by auto
    then have "?arr' ! i \<in> set ?arr'" by (rule nth_mem)
    then show "?arr' ! i \<noteq> cid" using d c by auto
  qed
  have "take (length xs) ?arr @ drop (length xs + 1) ?arr @ [''''] = ?arr'" by simp
  then have "idx_del_loop (length xs # [Suc (length xs)..<length ?arr]) ?arr key cid m =
      (if xs @ ys = [] then gm_del key m else gm_put key (xs @ ys) m)"
    using rest by (simp add: idx_del_loop_absent Let_def)
  then show ?thesis unfolding split using skip by (simp only: idx_del_loop_skip)
qed

lemma idx_del_eq:
  assumes "distinct (idx_get m key)" "cid \<noteq> []"
  shows "idx_del key cid m =
    (if key \<noteq> [] \<and> cid \<in> set (idx_get m key)
     then if removeAll cid (idx_get m key) = [] then gm_del key m
          else gm_put key (removeAll cid (idx_get m key)) m
     else m)"
proof (cases "cid \<in> set (idx_get m key)")
  case True
  then obtain xs ys where e: "idx_get m key = xs @ cid # ys" by (meson split_list)
  then have "removeAll cid (idx_get m key) = xs @ ys" using assms(1) by simp
  then show ?thesis using e assms idx_del_loop_once [of xs cid ys key m] by (simp add: idx_del_def Let_def)
next
  case False
  then have "\<forall>i \<in> set [0..<length (idx_get m key)]. idx_get m key ! i \<noteq> cid" by auto
  then have "idx_del_loop [0..<length (idx_get m key)] (idx_get m key) key cid m = m" by (rule idx_del_loop_absent)
  then show ?thesis using False assms(2) by (simp add: idx_del_def)
qed

lemma idx_del_get:
  "distinct (idx_get m key) \<Longrightarrow> cid \<noteq> [] \<Longrightarrow>
     idx_get (idx_del key cid m) k = (if k = key \<and> key \<noteq> [] then removeAll cid (idx_get m k) else idx_get m k)"
  by (simp add: idx_del_eq)

subsection \<open>Invariant\<close>

text \<open>
  An index agrees with the connections: its entries are not empty and without duplicates, and list
  under a key the connections tracked with that key.
\<close>

definition idx_ok :: "('c connstat \<Rightarrow> string) \<Rightarrow> (string, 'c connstat) gomap \<Rightarrow> (string, string list) gomap \<Rightarrow> bool" where
  "idx_ok f t m \<longleftrightarrow> gm_wf m \<and> (\<forall>k. distinct (idx_get m k)) \<and> (\<forall>k. map_of m k \<noteq> Some []) \<and>
     (\<forall>k cid. cid \<in> set (idx_get m k) \<longleftrightarrow> k \<noteq> [] \<and> (\<exists>v. map_of t cid = Some v \<and> f v = k))"

definition conns_of :: "(string, 'c connstat) gomap \<Rightarrow> 'c list" where
  "conns_of t = concat (map (\<lambda>(k, v). cs_c v) t)"

definition cm_inv :: "'c cm \<Rightarrow> bool" where
  "cm_inv h \<longleftrightarrow> gm_wf (cm_tracc h) \<and> map_of (cm_tracc h) [] = None \<and>
     idx_ok cs_pid (cm_tracc h) (cm_tracp h) \<and> idx_ok cs_uid (cm_tracc h) (cm_tracu h) \<and>
     cm_sz h = int (length (conns_of (cm_tracc h)))"

definition track_ok :: "string \<Rightarrow> string \<Rightarrow> string \<Rightarrow> 'c cm \<Rightarrow> bool" where
  "track_ok cid uid pid h \<longleftrightarrow> cid \<noteq> [] \<and>
     (case map_of (cm_tracc h) cid of None \<Rightarrow> True | Some v \<Rightarrow> cs_uid v = uid \<and> cs_pid v = pid)"

lemma idx_ok_distinct: "idx_ok f t m \<Longrightarrow> distinct (idx_get m k)"
  by (simp add: idx_ok_def)

lemma idx_ok_mem: "idx_ok f t m \<Longrightarrow> cid \<in> set (idx_get m k) \<longleftrightarrow> k \<noteq> [] \<and> (\<exists>v. map_of t cid = Some v \<and> f v = k)"
  unfolding idx_ok_def by blast

lemma idx_add_nonempty: "\<forall>k. map_of m k \<noteq> Some [] \<Longrightarrow> distinct (idx_get m key) \<Longrightarrow> map_of (idx_add key cid m) k \<noteq> Some []"
  by (auto simp: idx_add_def gm_get_put CopyUniq_add)

lemma idx_ok_add:
  assumes ok: "idx_ok f t m" and c: "cid \<noteq> []" and v: "f v = key"
    and old: "case map_of t cid of None \<Rightarrow> True | Some w \<Rightarrow> f w = key"
  shows "idx_ok f (gm_put cid v t) (idx_add key cid m)"
proof -
  have d: "distinct (idx_get m k)" for k using ok by (rule idx_ok_distinct)
  have ne: "\<forall>k. map_of m k \<noteq> Some []" using ok by (simp add: idx_ok_def)
  have wf: "gm_wf (idx_add key cid m)" using ok by (simp add: idx_ok_def idx_add_def)
  have g: "idx_get (idx_add key cid m) k =
     (if k = key \<and> key \<noteq> [] \<and> cid \<notin> set (idx_get m key) then idx_get m key @ [cid] else idx_get m k)" for k
    using idx_add_get [OF d, of key cid k] c by simp
  have "cid' \<in> set (idx_get (idx_add key cid m) k) \<longleftrightarrow>
      k \<noteq> [] \<and> (\<exists>w. map_of (gm_put cid v t) cid' = Some w \<and> f w = k)" for k cid'
  proof (cases "cid' = cid")
    case True
    then show ?thesis using v old idx_ok_mem [OF ok, of cid k] idx_ok_mem [OF ok, of cid key]
      by (auto simp: g split: option.splits)
  next
    case False
    then show ?thesis using idx_ok_mem [OF ok, of cid' k] by (auto simp: g)
  qed
  then show ?thesis unfolding idx_ok_def
    using wf d idx_add_nonempty [OF ne d] by (simp add: g)
qed

lemma idx_ok_del:
  assumes ok: "idx_ok f t m" and c: "cid \<noteq> []" and v: "map_of t cid = Some v"
  shows "idx_ok f (gm_del cid t) (idx_del (f v) cid m)"
proof -
  have d: "distinct (idx_get m k)" for k using ok by (rule idx_ok_distinct)
  have wf: "gm_wf (idx_del (f v) cid m)" using ok c d by (simp add: idx_ok_def idx_del_eq)
  have ne: "map_of (idx_del (f v) cid m) k \<noteq> Some []" for k
    using ok by (simp add: idx_del_eq d c idx_ok_def gm_get_put gm_get_del)
  have "cid' \<in> set (idx_get (idx_del (f v) cid m) k) \<longleftrightarrow>
      k \<noteq> [] \<and> (\<exists>w. map_of (gm_del cid t) cid' = Some w \<and> f w = k)" for k cid'
  proof (cases "cid' = cid")
    case True
    then show ?thesis using idx_ok_mem [OF ok, of cid k] v by (auto simp: idx_del_get d c)
  next
    case False
    then show ?thesis using idx_ok_mem [OF ok, of cid' k] by (simp add: idx_del_get d c) blast
  qed
  then show ?thesis unfolding idx_ok_def using wf ne d by (simp add: idx_del_get c distinct_removeAll)
qed

subsection \<open>Every operation keeps the invariant\<close>

lemma conns_of_put_new: "map_of t k = None \<Longrightarrow> conns_of (gm_put k v t) = conns_of t @ cs_c v"
  by (simp add: conns_of_def gm_put_new)

lemma conns_of_put_length:
  "gm_wf t \<Longrightarrow> map_of t k = Some w \<Longrightarrow>
     length (conns_of (gm_put k v t)) + length (cs_c w) = length (conns_of t) + length (cs_c v)"
  by (induction t) (auto simp: conns_of_def gm_wf_def split: if_splits)

lemma conns_of_del_length:
  "gm_wf t \<Longrightarrow> map_of t k = Some w \<Longrightarrow> length (conns_of (gm_del k t)) + length (cs_c w) = length (conns_of t)"
proof (induction t)
  case (Cons p t)
  obtain k' v where p: "p = (k', v)" by (cases p)
  have "map_of t k = None" "gm_del k t = t" if "k' = k"
    using Cons.prems p that gm_del_none [of t k] by (auto simp: gm_wf_def map_of_eq_None_iff)
  then show ?case using Cons p by (auto simp: conns_of_def gm_wf_def split: if_splits)
qed simp

lemma NewConnMap_inv: "cm_inv NewConnMap"
  by (simp add: cm_inv_def NewConnMap_def idx_ok_def conns_of_def)

lemma cm_inv_ntracks [simp]: "cm_inv (h\<lparr>cm_ntracks := n\<rparr>) = cm_inv h"
  and cm_inv_nuntracks [simp]: "cm_inv (h\<lparr>cm_nuntracks := n\<rparr>) = cm_inv h"
  and cm_inv_ngets [simp]: "cm_inv (h\<lparr>cm_ngets := n\<rparr>) = cm_inv h"
  by (simp_all add: cm_inv_def)

definition tracked :: "int \<Rightarrow> string \<Rightarrow> string \<Rightarrow> 'c list \<Rightarrow> 'c connstat option \<Rightarrow> 'c connstat" where
  "tracked now uid pid conns old =
     (case old of None \<Rightarrow> \<lparr>cs_c = conns, cs_t = now, cs_uid = uid, cs_pid = pid\<rparr>
      | Some v \<Rightarrow> v\<lparr>cs_c := cs_c v @ conns\<rparr>)"

lemma Track_eq:
  "Track now cid uid pid conns h =
     (let v = tracked now uid pid conns (map_of (cm_tracc h) cid)
      in (length (cs_c v),
          h\<lparr>cm_tracc := gm_put cid v (cm_tracc h), cm_tracp := idx_add pid cid (cm_tracp h),
            cm_tracu := idx_add uid cid (cm_tracu h), cm_sz := cm_sz h + int (length conns),
            cm_ntracks := cm_ntracks h + 1\<rparr>))"
  by (simp add: Track_def addLocked_def tracked_def Let_def split: option.splits)

lemma Track_inv:
  assumes inv: "cm_inv h" and ok: "track_ok cid uid pid h"
  shows "cm_inv (snd (Track now cid uid pid conns h))"
proof -
  let ?t = "cm_tracc h" let ?v = "tracked now uid pid conns (map_of ?t cid)"
  have c: "cid \<noteq> []" using ok by (simp add: track_ok_def)
  have f: "cs_uid ?v = uid" "cs_pid ?v = pid"
    using ok by (simp_all add: tracked_def track_ok_def split: option.splits)
  have old: "case map_of ?t cid of None \<Rightarrow> True | Some w \<Rightarrow> cs_uid w = uid"
    "case map_of ?t cid of None \<Rightarrow> True | Some w \<Rightarrow> cs_pid w = pid"
    using ok by (simp_all add: track_ok_def split: option.splits)
  have sz: "length (conns_of (gm_put cid ?v ?t)) = length (conns_of ?t) + length conns"
  proof (cases "map_of ?t cid")
    case None
    then show ?thesis by (simp add: conns_of_put_new tracked_def)
  next
    case (Some w)
    then show ?thesis using inv conns_of_put_length [of ?t cid w ?v] by (simp add: cm_inv_def tracked_def)
  qed
  have "idx_ok cs_pid (gm_put cid ?v ?t) (idx_add pid cid (cm_tracp h))"
    "idx_ok cs_uid (gm_put cid ?v ?t) (idx_add uid cid (cm_tracu h))"
    using inv idx_ok_add [of cs_pid, OF _ c f(2) old(2)] idx_ok_add [of cs_uid, OF _ c f(1) old(1)]
    by (simp_all add: cm_inv_def)
  then show ?thesis using inv c sz by (simp add: Track_eq Let_def cm_inv_def)
qed

lemma cm_inv_nonempty: "cm_inv h \<Longrightarrow> map_of (cm_tracc h) cid = Some v \<Longrightarrow> cid \<noteq> []"
  by (auto simp: cm_inv_def)

lemma del_found_inv:
  assumes inv: "cm_inv h" and v: "map_of (cm_tracc h) cid = Some v"
  shows "cm_inv (snd (del_found cid v h))"
proof -
  have c: "cid \<noteq> []" using inv v by (rule cm_inv_nonempty)
  have "idx_ok cs_pid (gm_del cid (cm_tracc h)) (idx_del (cs_pid v) cid (cm_tracp h))"
    "idx_ok cs_uid (gm_del cid (cm_tracc h)) (idx_del (cs_uid v) cid (cm_tracu h))"
    using inv idx_ok_del [OF _ c v] by (simp_all add: cm_inv_def)
  moreover have "length (conns_of (gm_del cid (cm_tracc h))) + length (cs_c v) = length (conns_of (cm_tracc h))"
    using inv v conns_of_del_length [of "cm_tracc h"] unfolding cm_inv_def by blast
  ultimately show ?thesis using inv c by (simp add: del_found_def Let_def cm_inv_def gm_get_del)
qed

lemma cm_Clear_inv: "cm_inv (snd (cm_Clear h))"
  by (simp add: cm_Clear_def cm_inv_def idx_ok_def conns_of_def)

subsection \<open>Untracking ends\<close>

definition conns_at :: "string \<Rightarrow> 'c cm \<Rightarrow> 'c list" where
  "conns_at cid h = (case map_of (cm_tracc h) cid of None \<Rightarrow> [] | Some v \<Rightarrow> cs_c v)"

definition drop_all :: "string list \<Rightarrow> 'c cm \<Rightarrow> 'c cm \<Rightarrow> bool" where
  \<comment> \<open>\<open>h'\<close> is \<open>h\<close> without the connection ids, their connections closed in order\<close>
  "drop_all ids h h' \<longleftrightarrow> cm_inv h' \<and>
     map_of (cm_tracc h') = (\<lambda>k. if k \<in> set ids then None else map_of (cm_tracc h) k) \<and>
     cm_closed h' = cm_closed h @ concat (map (\<lambda>cid. conns_at cid h) ids)"

lemma del_found_drop:
  assumes "cm_inv h" "map_of (cm_tracc h) cid = Some v"
  shows "drop_all [cid] h (snd (del_found cid v h))" "fst (del_found cid v h) = length (conns_at cid h)"
  using del_found_inv [OF assms] assms(2)
  by (auto simp: drop_all_def del_found_def Let_def conns_at_def gm_get_del)

lemma drop_all_Cons:
  assumes "drop_all [c] h h1" "drop_all ids h1 h2" "c \<notin> set ids"
  shows "drop_all (c # ids) h h2"
proof -
  have "conns_at x h1 = conns_at x h" if "x \<in> set ids" for x
    using assms(1,3) that by (auto simp: drop_all_def conns_at_def)
  then have "concat (map (\<lambda>x. conns_at x h1) ids) = concat (map (\<lambda>x. conns_at x h) ids)"
    by (intro arg_cong [of _ _ concat] map_cong) simp_all
  then show ?thesis using assms(1,2) by (auto simp: drop_all_def)
qed

lemma batch_of_cids:
  assumes "cm_inv h" "distinct ids" "\<forall>c \<in> set ids. map_of (cm_tracc h) c \<noteq> None"
  shows "\<exists>h'. untrackBatchLocked (Suc fuel) ids h = Some (filter (\<lambda>c. conns_at c h \<noteq> []) ids, h') \<and> drop_all ids h h'"
  using assms
proof (induction ids arbitrary: h)
  case (Cons c ids)
  obtain v where v: "map_of (cm_tracc h) c = Some v" using Cons.prems(3) by auto
  let ?h = "snd (del_found c v h)"
  have d: "drop_all [c] h ?h" and n: "fst (del_found c v h) = length (conns_at c h)"
    using del_found_drop [OF Cons.prems(1) v] by simp_all
  have same: "conns_at x ?h = conns_at x h" "map_of (cm_tracc ?h) x = map_of (cm_tracc h) x" if "x \<in> set ids" for x
    using d that Cons.prems(2) by (auto simp: drop_all_def conns_at_def)
  obtain h' where h': "untrackBatchLocked (Suc fuel) ids ?h = Some (filter (\<lambda>c. conns_at c ?h \<noteq> []) ids, h')"
    "drop_all ids ?h h'"
    using Cons.IH [of ?h] Cons.prems same(2) d by (auto simp: drop_all_def)
  have "filter (\<lambda>c. conns_at c ?h \<noteq> []) ids = filter (\<lambda>c. conns_at c h \<noteq> []) ids"
    using same(1) by (intro filter_cong) simp_all
  then have "untrackBatchLocked (Suc fuel) (c # ids) h = Some (filter (\<lambda>c. conns_at c h \<noteq> []) (c # ids), h')"
    using h'(1) v n by (simp add: split_beta)
  then show ?case using drop_all_Cons [OF d h'(2)] Cons.prems(2) by auto
qed (simp add: drop_all_def)

definition victims :: "string \<Rightarrow> 'c cm \<Rightarrow> string list" where
  \<comment> \<open>the connection ids an identifier stands for: itself, else those of the user, else those of the process\<close>
  "victims ident h =
     (if map_of (cm_tracc h) ident \<noteq> None then [ident]
      else if idx_get (cm_tracu h) ident \<noteq> [] then idx_get (cm_tracu h) ident
      else idx_get (cm_tracp h) ident)"

lemma idx_cids:
  assumes "cm_inv h"
  shows "distinct (idx_get (cm_tracu h) k)" "\<forall>c \<in> set (idx_get (cm_tracu h) k). map_of (cm_tracc h) c \<noteq> None"
    "distinct (idx_get (cm_tracp h) k)" "\<forall>c \<in> set (idx_get (cm_tracp h) k). map_of (cm_tracc h) c \<noteq> None"
  using assms unfolding cm_inv_def idx_ok_def by auto

lemma delLocked_total:
  assumes inv: "cm_inv h"
  shows "\<exists>h'. delLocked (Suc (Suc fuel)) ident h =
      Some (if map_of (cm_tracc h) ident \<noteq> None then length (conns_at ident h)
            else length (filter (\<lambda>c. conns_at c h \<noteq> []) (victims ident h)), h') \<and> drop_all (victims ident h) h h'"
proof (cases "map_of (cm_tracc h) ident")
  case (Some v)
  then show ?thesis using del_found_drop [OF inv Some] by (simp add: victims_def surjective_pairing [symmetric] prod_eq_iff)
next
  case None
  note u = batch_of_cids [OF inv idx_cids(1,2) [OF inv], of fuel ident]
  note p = batch_of_cids [OF inv idx_cids(3,4) [OF inv], of fuel ident]
  consider "idx_get (cm_tracu h) ident \<noteq> []" | "idx_get (cm_tracu h) ident = []" "idx_get (cm_tracp h) ident \<noteq> []"
    | "idx_get (cm_tracu h) ident = []" "idx_get (cm_tracp h) ident = []" by blast
  then show ?thesis
  proof cases
    case 1 then show ?thesis using u None by (auto simp: victims_def)
  next
    case 2 then show ?thesis using p None by (auto simp: victims_def)
  next
    case 3 then show ?thesis using inv None by (simp add: victims_def drop_all_def)
  qed
qed

lemma batch_total: "cm_inv h \<Longrightarrow> \<exists>out h'. untrackBatchLocked (Suc (Suc fuel)) ids h = Some (out, h') \<and> cm_inv h'"
proof (induction ids arbitrary: h)
  case (Cons c ids)
  obtain n h1 where h1: "delLocked (Suc (Suc fuel)) c h = Some (n, h1)" "cm_inv h1"
    using delLocked_total [OF Cons.prems, of fuel c] by (auto simp: drop_all_def)
  then show ?case using Cons.IH [OF h1(2)] by (auto simp del: delLocked.simps)
qed simp

text \<open>States the tracker reaches when every id is tracked with one user and one process.\<close>

inductive cm_reach :: "'c cm \<Rightarrow> bool" where
  new: "cm_reach NewConnMap"
| track: "cm_reach h \<Longrightarrow> track_ok cid uid pid h \<Longrightarrow> cm_reach (snd (Track now cid uid pid conns h))"
| untrack: "cm_reach h \<Longrightarrow> Untrack fuel ident h = Some (n, h') \<Longrightarrow> 2 \<le> fuel \<Longrightarrow> cm_reach h'"
| batch: "cm_reach h \<Longrightarrow> UntrackBatch fuel ids h = Some (out, h') \<Longrightarrow> 2 \<le> fuel \<Longrightarrow> cm_reach h'"
| get: "cm_reach h \<Longrightarrow> cm_reach (snd (cm_Get cid h))"
| get_all: "cm_reach h \<Longrightarrow> cm_reach (snd (GetAll key h))"
| clear: "cm_reach h \<Longrightarrow> cm_reach (snd (cm_Clear h))"

lemma two_le_fuel: "2 \<le> fuel \<Longrightarrow> \<exists>f. fuel = Suc (Suc f)"
  by presburger

lemma Untrack_effect:
  assumes inv: "cm_inv h" and fuel: "2 \<le> fuel"
  shows "\<exists>h'. Untrack fuel ident h =
      Some (if map_of (cm_tracc h) ident \<noteq> None then length (conns_at ident h)
            else length (filter (\<lambda>c. conns_at c h \<noteq> []) (victims ident h)), h') \<and> drop_all (victims ident h) h h'"
proof -
  obtain f where f: "fuel = Suc (Suc f)" using two_le_fuel [OF fuel] by blast
  let ?h = "h\<lparr>cm_nuntracks := cm_nuntracks h + 1\<rparr>"
  have "conns_at c ?h = conns_at c h" "victims ident ?h = victims ident h" "drop_all ids ?h h' = drop_all ids h h'" for c ids h'
    by (simp_all add: conns_at_def victims_def drop_all_def cong del: if_weak_cong)
  then show ?thesis using delLocked_total [of ?h f ident] inv f
    by (simp add: Untrack_def del: delLocked.simps cong del: if_weak_cong)
qed

lemma cm_reach_inv: "cm_reach h \<Longrightarrow> cm_inv h"
proof (induction rule: cm_reach.induct)
  case (untrack h fuel ident n h')
  obtain n1 h1 where "Untrack fuel ident h = Some (n1, h1)" "cm_inv h1"
    using Untrack_effect [OF untrack.IH untrack.hyps(3), of ident] unfolding drop_all_def by blast
  then show ?case using untrack.hyps(2) by simp
next
  case (batch h fuel ids out h')
  obtain f where f: "fuel = Suc (Suc f)" using two_le_fuel [OF batch.hyps(3)] by blast
  obtain o1 h1 where "untrackBatchLocked (Suc (Suc f)) ids h = Some (o1, h1)" "cm_inv h1"
    using batch_total [OF batch.IH] by blast
  then show ?case using batch.hyps(2) f by (simp add: UntrackBatch_def)
qed (simp_all add: NewConnMap_inv Track_inv cm_Clear_inv cm_Get_def GetAll_def Let_def)

lemma get_all_loop_eq: "get_all_loop cids h acc = acc @ concat (map (\<lambda>c. conns_at c h) cids)"
  by (induction cids h acc rule: get_all_loop.induct) (auto simp: conns_at_def split: option.splits)

text \<open>What an identifier stands for, over the connections alone.\<close>

definition victims_spec :: "string \<Rightarrow> (string \<Rightarrow> 'c connstat option) \<Rightarrow> string set" where
  "victims_spec ident t =
     (if t ident \<noteq> None then {ident}
      else if ident = [] then {}
      else if \<exists>c v. t c = Some v \<and> cs_uid v = ident then {c. \<exists>v. t c = Some v \<and> cs_uid v = ident}
      else {c. \<exists>v. t c = Some v \<and> cs_pid v = ident})"

lemma idx_sets:
  assumes "cm_inv h"
  shows "set (idx_get (cm_tracu h) k) = {c. k \<noteq> [] \<and> (\<exists>v. map_of (cm_tracc h) c = Some v \<and> cs_uid v = k)}"
    and "set (idx_get (cm_tracp h) k) = {c. k \<noteq> [] \<and> (\<exists>v. map_of (cm_tracc h) c = Some v \<and> cs_pid v = k)}"
  using assms idx_ok_mem unfolding cm_inv_def by blast+

lemma victims_set:
  assumes "cm_inv h"
  shows "set (victims ident h) = victims_spec ident (map_of (cm_tracc h))"
proof -
  have "idx_get (cm_tracu h) ident \<noteq> [] \<longleftrightarrow>
      ident \<noteq> [] \<and> (\<exists>c v. map_of (cm_tracc h) c = Some v \<and> cs_uid v = ident)"
    using idx_sets(1) [OF assms, of ident] by (auto simp flip: set_empty)
  then show ?thesis using idx_sets [OF assms, of ident] by (auto simp: victims_def victims_spec_def)
qed

lemma GetAll_set:
  assumes "cm_inv h" "key \<noteq> []"
  shows "set (fst (GetAll key h)) =
      {c. \<exists>cid v. map_of (cm_tracc h) cid = Some v \<and> (cs_pid v = key \<or> cs_uid v = key) \<and> c \<in> set (cs_c v)}"
proof -
  have "fst (GetAll key h) = concat (map (\<lambda>c. conns_at c h) (idx_get (cm_tracp h) key @ idx_get (cm_tracu h) key))"
    using assms(2) by (simp add: GetAll_def Let_def get_all_loop_eq conns_at_def)
  then have "set (fst (GetAll key h)) =
      (\<Union>cid \<in> set (idx_get (cm_tracp h) key) \<union> set (idx_get (cm_tracu h) key). set (conns_at cid h))"
    by simp
  also have "\<dots> = {c. \<exists>cid v. map_of (cm_tracc h) cid = Some v \<and> (cs_pid v = key \<or> cs_uid v = key) \<and> c \<in> set (conns_at cid h)}"
    using idx_sets [OF assms(1), of key] assms(2) by blast
  also have "\<dots> = {c. \<exists>cid v. map_of (cm_tracc h) cid = Some v \<and> (cs_pid v = key \<or> cs_uid v = key) \<and> c \<in> set (cs_c v)}"
    by (simp add: conns_at_def cong: conj_cong)
  finally show ?thesis .
qed

subsection \<open>Correctness\<close>

text \<open>
  C3: Whatever sequence of calls led there, as long as every connection id is tracked with one
  user and one process: \<^verbatim>\<open>Len\<close> is the number of connections held, \<^verbatim>\<open>GetAll\<close> returns the connections
  tracked for the process and then those for the user, and \<^verbatim>\<open>Untrack\<close> ends (two levels of the mutual
  recursion are enough), forgets exactly the connection id, or else those of the user, or else
  those of the process, closes exactly their connections, and leaves no index entry behind.
\<close>

theorem connmap_consistent:
  assumes "cm_reach h" "2 \<le> fuel" "key \<noteq> []"
  shows "cm_Len h = int (length (conns_of (cm_tracc h))) \<and>
    set (fst (GetAll key h)) =
      {c. \<exists>cid v. map_of (cm_tracc h) cid = Some v \<and> (cs_pid v = key \<or> cs_uid v = key) \<and> c \<in> set (cs_c v)} \<and>
    (\<exists>n h' ids. Untrack fuel ident h = Some (n, h') \<and>
      set ids = victims_spec ident (map_of (cm_tracc h)) \<and> distinct ids \<and>
      map_of (cm_tracc h') = (\<lambda>k. if k \<in> set ids then None else map_of (cm_tracc h) k) \<and>
      cm_closed h' = cm_closed h @ concat (map (\<lambda>c. conns_at c h) ids) \<and>
      idx_ok cs_uid (cm_tracc h') (cm_tracu h') \<and> idx_ok cs_pid (cm_tracc h') (cm_tracp h'))"
proof (intro conjI)
  have inv: "cm_inv h" using assms(1) by (rule cm_reach_inv)
  show "cm_Len h = int (length (conns_of (cm_tracc h)))" using inv by (simp add: cm_Len_def cm_inv_def)
  show "set (fst (GetAll key h)) =
      {c. \<exists>cid v. map_of (cm_tracc h) cid = Some v \<and> (cs_pid v = key \<or> cs_uid v = key) \<and> c \<in> set (cs_c v)}"
    using GetAll_set [OF inv assms(3)] .
  show "\<exists>n h' ids. Untrack fuel ident h = Some (n, h') \<and>
      set ids = victims_spec ident (map_of (cm_tracc h)) \<and> distinct ids \<and>
      map_of (cm_tracc h') = (\<lambda>k. if k \<in> set ids then None else map_of (cm_tracc h) k) \<and>
      cm_closed h' = cm_closed h @ concat (map (\<lambda>c. conns_at c h) ids) \<and>
      idx_ok cs_uid (cm_tracc h') (cm_tracu h') \<and> idx_ok cs_pid (cm_tracc h') (cm_tracp h')"
  proof -
    have "distinct (victims ident h)" using idx_cids(1,3) [OF inv, of ident] by (simp add: victims_def)
    moreover obtain n h' where "Untrack fuel ident h = Some (n, h')" "drop_all (victims ident h) h h'"
      using Untrack_effect [OF inv assms(2), of ident] by blast
    ultimately show ?thesis using victims_set [OF inv, of ident] unfolding drop_all_def cm_inv_def by blast
  qed
qed

theorem connmap_consistent_witness:
  "\<exists>n h'. Untrack 2 ''u'' (snd (Track 0 ''a'' ''u'' ''p'' [7, 8] NewConnMap)) = Some (n, h') \<and>
     cm_closed h' = [7, 8 :: nat]"
proof -
  let ?h = "snd (Track 0 ''a'' ''u'' ''p'' [7, 8] NewConnMap) :: nat cm"
  have r: "cm_reach ?h" by (intro cm_reach.intros) (simp add: track_ok_def NewConnMap_def)
  have t: "cm_tracc ?h = [(''a'', \<lparr>cs_c = [7, 8], cs_t = 0, cs_uid = ''u'', cs_pid = ''p''\<rparr>)]"
    "cm_closed ?h = []"
    by (simp_all add: Track_eq NewConnMap_def tracked_def Let_def)
  have v: "victims_spec ''u'' (map_of (cm_tracc ?h)) = {''a''}"
  proof -
    have "\<exists>c v. map_of (cm_tracc ?h) c = Some v \<and> cs_uid v = ''u''" by (auto simp: t)
    then show ?thesis unfolding victims_spec_def by (simp add: t)
  qed
  obtain n h' ids where e: "Untrack 2 ''u'' ?h = Some (n, h')" "set ids = {''a''}" "distinct ids"
    "cm_closed h' = cm_closed ?h @ concat (map (\<lambda>c. conns_at c ?h) ids)"
    using connmap_consistent [OF r, of 2 "''u''" "''u''"] v by auto
  then have "ids = [''a'']" by (cases ids; cases "tl ids") auto
  then show ?thesis using e by (auto simp: conns_at_def t)
qed

definition stale :: "nat cm" where
  \<comment> \<open>an index entry that stands for itself\<close>
  "stale = NewConnMap\<lparr>cm_tracu := [(''a'', [''a''])], cm_ntracks := 2, cm_nuntracks := 1, cm_closed := [1, 2]\<rparr>"

lemma stale_diverges: "cm_tracc h = [] \<Longrightarrow> cm_tracu h = [(''a'', [''a''])] \<Longrightarrow> delLocked fuel ''a'' h = None"
proof (induction fuel)
  case (Suc fuel)
  show ?case
  proof (cases fuel)
    case 0
    then show ?thesis using Suc.prems by (simp add: idx_get_def)
  next
    case f: (Suc f)
    then have "delLocked (Suc f) ''a'' h = None" using Suc.IH Suc.prems by simp
    then have "untrackBatchLocked fuel [''a''] h = None" using f by (simp del: delLocked.simps)
    then show ?thesis using Suc.prems by (simp add: idx_get_def)
  qed
qed simp

text \<open>
  C37: Outside that discipline the recursion may never end: an id tracked twice, the second time for
  a user of the same name, then untracked, leaves an index entry that stands for itself, and no
  amount of fuel lets the next \<^verbatim>\<open>Untrack\<close> of it return.
\<close>

theorem untrack_diverges:
  "Untrack 1 ''a'' (snd (Track 1 ''a'' ''a'' ''p'' [2] (snd (Track 0 ''a'' ''b'' ''p'' [1] NewConnMap)))) =
     Some (2, stale) \<and>
   Untrack fuel ''a'' stale = None"
proof
  show "Untrack 1 ''a'' (snd (Track 1 ''a'' ''a'' ''p'' [2] (snd (Track 0 ''a'' ''b'' ''p'' [1] NewConnMap)))) =
     Some (2, stale)"
    by (simp add: Untrack_def Track_eq tracked_def Let_def NewConnMap_def stale_def del_found_def idx_add_def
        idx_del_def idx_get_def CopyUniq_eq)
  show "Untrack fuel ''a'' stale = None"
    unfolding Untrack_def by (rule stale_diverges) (simp_all add: stale_def NewConnMap_def)
qed

end
