(* ===== verification/Barrier.thy ===== *)
theory Barrier
  imports Expmap
begin

text \<open>
  The barrier of \<^verbatim>\<open>intra/core/barrier.go\<close>, which suppresses duplicate work: one caller per key owns the
  work, the others wait for its result, which is kept for a time. Every critical section and every
  write of the source is an operation here; callers, the goroutines they spawn and the clock are
  interleaved by the step relation \<open>ba_step\<close>. The values \<^verbatim>\<open>V\<close> live in a store, as callers keep pointers
  to them after the map forgot them. The wait group of a \<^verbatim>\<open>V\<close> is the flag \<open>v_done\<close>; \<open>v_key\<close> and
  \<open>v_run\<close> (the work is still running) are ghost fields.
\<close>

subsection \<open>State\<close>

datatype DidDo = Anew | Shared

datatype 'e berr = errTimeout | ErrNoFruitOfLabour | WorkErr 'e

record ('v, 'e, 'k) V =
  v_done :: bool
  v_dob :: int
  v_Val :: "'v option"
  v_Err :: "'e berr option"
  v_N :: u32
  v_key :: 'k
  v_run :: bool

record ('v, 'e, 'k) Barrier =
  ba_heap :: "('v, 'e, 'k) V list"
  ba_m :: "('k, nat) gomap"
  ba_ttl :: int
  ba_neg :: int
  ba_to :: int
  ba_lastscrub :: int
  ba_nanew :: u64
  ba_nshared :: u64
  ba_ndels :: u64
  ba_nerrs :: u64
  ba_nto :: u64
  ba_closed :: bool
  ba_scrubs :: nat

definition NewBarrier2 :: "int \<Rightarrow> int \<Rightarrow> int \<Rightarrow> ('v, 'e, 'k) Barrier" where
  "NewBarrier2 now ttl neg =
     \<lparr>ba_heap = [], ba_m = [], ba_ttl = ttl, ba_neg = max (1 * 1000000000) neg, ba_to = ttl, ba_lastscrub = now,
      ba_nanew = 0, ba_nshared = 0, ba_ndels = 0, ba_nerrs = 0, ba_nto = 0, ba_closed = False, ba_scrubs = 0\<rparr>"

definition NewKeyedBarrier :: "int \<Rightarrow> int \<Rightarrow> ('v, 'e, 'k) Barrier" where
  \<comment> \<open>also \<^verbatim>\<open>NewBarrier\<close>; the division of durations truncates\<close>
  "NewKeyedBarrier now ttl = NewBarrier2 now ttl (if 0 \<le> ttl then ttl div 5 else - (- ttl div 5))"

definition ba_after1 :: "('v, 'e, 'k) Barrier \<Rightarrow> ('v, 'e, 'k) Barrier" where
  \<comment> \<open>the context ends: first the flag, then the map under the lock\<close>
  "ba_after1 ba = ba\<lparr>ba_closed := True\<rparr>"

definition ba_after2 :: "('v, 'e, 'k) Barrier \<Rightarrow> ('v, 'e, 'k) Barrier" where
  "ba_after2 ba = ba\<lparr>ba_ndels := ba_ndels ba + of_nat (length (ba_m ba)), ba_m := []\<rparr>"

record BarrierState =
  bs_Len :: nat
  bs_Anew :: u64
  bs_Shared :: u64
  bs_Dels :: u64
  bs_Errs :: u64
  bs_Timeouts :: u64

definition ba_Stat :: "('v, 'e, 'k) Barrier \<Rightarrow> BarrierState" where
  "ba_Stat ba =
     \<lparr>bs_Len = length (ba_m ba), bs_Anew = ba_nanew ba, bs_Shared = ba_nshared ba, bs_Dels = ba_ndels ba,
      bs_Errs = ba_nerrs ba, bs_Timeouts = ba_nto ba\<rparr>"

subsection \<open>Scrubbing\<close>

definition v_expired :: "int \<Rightarrow> ('v, 'e, 'k) Barrier \<Rightarrow> ('v, 'e, 'k) V \<Rightarrow> bool" where
  "v_expired now ba v =
     (let ttl = (if v_Err v \<noteq> None then ba_neg ba else ba_ttl ba) in now - (v_dob v + ttl) > 0)"

definition maxreapiter :: nat where
  "maxreapiter = 50"

fun scrub_loop :: "int \<Rightarrow> ('k \<times> nat) list \<Rightarrow> nat \<Rightarrow> ('v, 'e, 'k) Barrier \<Rightarrow> ('v, 'e, 'k) Barrier" where
  "scrub_loop now [] i ba = ba"
| "scrub_loop now ((k, a) # r) i ba =
     (if i > maxreapiter then ba
      else scrub_loop now r (i + 1)
             (if v_expired now ba (ba_heap ba ! a)
              then ba\<lparr>ba_m := gm_del k (ba_m ba), ba_ndels := ba_ndels ba + 1\<rparr> else ba))"

definition ba_scrub :: "int \<Rightarrow> ('v, 'e, 'k) Barrier \<Rightarrow> ('v, 'e, 'k) Barrier" where
  \<comment> \<open>the goroutine \<^verbatim>\<open>maybeScrubLocked\<close> starts\<close>
  "ba_scrub now ba = scrub_loop now (ba_m ba) 0 ba"

definition maybeScrubLocked :: "int \<Rightarrow> ('v, 'e, 'k) Barrier \<Rightarrow> ('v, 'e, 'k) Barrier" where
  "maybeScrubLocked now ba =
     (if now - ba_lastscrub ba < reapthreshold then ba
      else ba\<lparr>ba_lastscrub := now, ba_scrubs := ba_scrubs ba + 1\<rparr>)"

subsection \<open>Callers\<close>

definition ba_getLocked :: "int \<Rightarrow> 'k \<Rightarrow> ('v, 'e, 'k) Barrier \<Rightarrow> nat option \<times> ('v, 'e, 'k) Barrier" where
  "ba_getLocked now k ba =
     (if ba_closed ba then (None, ba)
      else
        case map_of (ba_m ba) k of
          None \<Rightarrow> (None, maybeScrubLocked now ba)
        | Some a \<Rightarrow>
            if v_expired now ba (ba_heap ba ! a)
            then (None, maybeScrubLocked now (ba\<lparr>ba_m := gm_del k (ba_m ba), ba_ndels := ba_ndels ba + 1\<rparr>))
            else (Some a, maybeScrubLocked now ba))"

definition ba_addLocked :: "int \<Rightarrow> 'k \<Rightarrow> ('v, 'e, 'k) Barrier \<Rightarrow> nat \<times> ('v, 'e, 'k) Barrier" where
  "ba_addLocked now k ba =
     (let a = length (ba_heap ba);
          v = \<lparr>v_done = False, v_dob = now, v_Val = None, v_Err = None, v_N = 0, v_key = k, v_run = True\<rparr>;
          ba = ba\<lparr>ba_heap := ba_heap ba @ [v]\<rparr>
      in (a, if \<not> ba_closed ba then ba\<lparr>ba_m := gm_put k a (ba_m ba)\<rparr> else ba))"

definition ba_upd :: "nat \<Rightarrow> (('v, 'e, 'k) V \<Rightarrow> ('v, 'e, 'k) V) \<Rightarrow> ('v, 'e, 'k) Barrier \<Rightarrow> ('v, 'e, 'k) Barrier" where
  "ba_upd a f ba = ba\<lparr>ba_heap := (ba_heap ba)[a := f (ba_heap ba ! a)]\<rparr>"

definition ba_enter :: "int \<Rightarrow> 'k \<Rightarrow> ('v, 'e, 'k) Barrier \<Rightarrow> (nat \<times> DidDo) \<times> ('v, 'e, 'k) Barrier" where
  \<comment> \<open>what \<^verbatim>\<open>Do\<close>, \<^verbatim>\<open>Do1\<close> and \<^verbatim>\<open>Go\<close> do under the lock, and the registration of a waiter\<close>
  "ba_enter now k ba =
     (case ba_getLocked now k ba of
        (Some c, ba) \<Rightarrow> ((c, Shared), ba_upd c (\<lambda>v. v\<lparr>v_N := v_N v + 1\<rparr>) ba)
      | (None, ba) \<Rightarrow> (case ba_addLocked now k ba of (c, ba) \<Rightarrow> ((c, Anew), ba)))"

definition ba_result :: "nat \<Rightarrow> 'v \<Rightarrow> 'e option \<Rightarrow> ('v, 'e, 'k) Barrier \<Rightarrow> ('v, 'e, 'k) Barrier" where
  \<comment> \<open>the owner receives what the work returned, then \<^verbatim>\<open>wg.Done\<close>\<close>
  "ba_result c val err ba =
     (let ba = ba_upd c (\<lambda>v. v\<lparr>v_Val := Some val, v_Err := map_option WorkErr err, v_run := False\<rparr>) ba;
          ba = (if err \<noteq> None then ba\<lparr>ba_nerrs := ba_nerrs ba + 1\<rparr> else ba)
      in (ba_upd c (\<lambda>v. v\<lparr>v_done := True\<rparr>) ba)\<lparr>ba_nanew := ba_nanew ba + 1\<rparr>)"

definition ba_timeout :: "nat \<Rightarrow> ('v, 'e, 'k) Barrier \<Rightarrow> ('v, 'e, 'k) Barrier" where
  "ba_timeout c ba =
     (let ba = ba_upd c (\<lambda>v. v\<lparr>v_Err := Some errTimeout\<rparr>) ba;
          ba = ba\<lparr>ba_nto := ba_nto ba + 1\<rparr>
      in (ba_upd c (\<lambda>v. v\<lparr>v_done := True\<rparr>) ba)\<lparr>ba_nanew := ba_nanew ba + 1\<rparr>)"

definition ba_wait :: "nat \<Rightarrow> ('v, 'e, 'k) Barrier \<Rightarrow> ('v, 'e, 'k) Barrier option" where
  \<comment> \<open>\<^verbatim>\<open>wg.Wait\<close> of a waiter, \<open>None\<close> while it blocks\<close>
  "ba_wait c ba = (if v_done (ba_heap ba ! c) then Some (ba\<lparr>ba_nshared := ba_nshared ba + 1\<rparr>) else None)"

definition DoIt :: "'v \<Rightarrow> ('v, 'e, 'k) V option \<Rightarrow> 'v \<times> 'e berr option" where
  \<comment> \<open>on the \<^verbatim>\<open>V\<close> that \<^verbatim>\<open>Do\<close> returned\<close>
  "DoIt zz v =
     (case v of None \<Rightarrow> (zz, Some ErrNoFruitOfLabour)
      | Some v \<Rightarrow> (case v_Val v of Some x \<Rightarrow> x | None \<Rightarrow> zz, v_Err v))"

subsection \<open>Interleaving\<close>

text \<open>Where a caller is; \<open>Own\<close> carries whether the call has a timeout (\<^verbatim>\<open>Do\<close>, \<^verbatim>\<open>Do1\<close>) or not (\<^verbatim>\<open>Go\<close>).\<close>

datatype ('v, 'e, 'k) phase =
  Idle
| Own bool 'k nat
| Wait 'k nat
| Done 'k nat DidDo "'v option" "'e berr option"

record ('v, 'e, 'k) bsys =
  s_ba :: "('v, 'e, 'k) Barrier"
  s_thr :: "nat \<Rightarrow> ('v, 'e, 'k) phase"
  s_now :: int

definition finish :: "nat \<Rightarrow> 'k \<Rightarrow> nat \<Rightarrow> DidDo \<Rightarrow> ('v, 'e, 'k) Barrier \<Rightarrow> ('v, 'e, 'k) bsys \<Rightarrow> ('v, 'e, 'k) bsys" where
  "finish t k c d ba s =
     s\<lparr>s_ba := ba, s_thr := (s_thr s)(t := Done k c d (v_Val (ba_heap ba ! c)) (v_Err (ba_heap ba ! c)))\<rparr>"

inductive ba_step :: "('v, 'e, 'k) bsys \<Rightarrow> ('v, 'e, 'k) bsys \<Rightarrow> bool" where
  tick: "s_now s \<le> now \<Longrightarrow> ba_step s (s\<lparr>s_now := now\<rparr>)"
| share: "s_thr s t = Idle \<Longrightarrow> ba_enter (s_now s) k (s_ba s) = ((c, Shared), ba) \<Longrightarrow>
    ba_step s (s\<lparr>s_ba := ba, s_thr := (s_thr s)(t := Wait k c)\<rparr>)"
| own: "s_thr s t = Idle \<Longrightarrow> ba_enter (s_now s) k (s_ba s) = ((c, Anew), ba) \<Longrightarrow>
    ba_step s (s\<lparr>s_ba := ba, s_thr := (s_thr s)(t := Own b k c)\<rparr>)"
| result: "s_thr s t = Own b k c \<Longrightarrow> ba_step s (finish t k c Anew (ba_result c val err (s_ba s)) s)"
| timeout: "s_thr s t = Own True k c \<Longrightarrow> v_dob (ba_heap (s_ba s) ! c) + ba_to (s_ba s) \<le> s_now s \<Longrightarrow>
    ba_step s (finish t k c Anew (ba_timeout c (s_ba s)) s)"
| late: "a < length (ba_heap (s_ba s)) \<Longrightarrow> v_done (ba_heap (s_ba s) ! a) \<Longrightarrow>
    ba_step s (s\<lparr>s_ba := ba_upd a (\<lambda>v. v\<lparr>v_run := False\<rparr>) (s_ba s)\<rparr>)"
| wake: "s_thr s t = Wait k c \<Longrightarrow> ba_wait c (s_ba s) = Some ba \<Longrightarrow> ba_step s (finish t k c Shared ba s)"
| scrub: "ba_scrubs (s_ba s) = Suc n \<Longrightarrow> ba_step s (s\<lparr>s_ba := ba_scrub (s_now s) ((s_ba s)\<lparr>ba_scrubs := n\<rparr>)\<rparr>)"
| after1: "ba_step s (s\<lparr>s_ba := ba_after1 (s_ba s)\<rparr>)"
| after2: "ba_closed (s_ba s) \<Longrightarrow> ba_step s (s\<lparr>s_ba := ba_after2 (s_ba s)\<rparr>)"

definition ba_init :: "int \<Rightarrow> int \<Rightarrow> int \<Rightarrow> ('v, 'e, 'k) bsys" where
  "ba_init now ttl neg = \<lparr>s_ba = NewBarrier2 now ttl neg, s_thr = (\<lambda>_. Idle), s_now = now\<rparr>"

inductive ba_reach :: "int \<Rightarrow> int \<Rightarrow> int \<Rightarrow> ('v, 'e, 'k) bsys \<Rightarrow> bool" for now ttl neg where
  init: "ba_reach now ttl neg (ba_init now ttl neg)"
| step: "ba_reach now ttl neg s \<Longrightarrow> ba_step s s' \<Longrightarrow> ba_reach now ttl neg s'"

subsection \<open>Invariant\<close>

fun owner :: "('v, 'e, 'k) phase \<Rightarrow> nat option" where
  "owner (Own b k c) = Some c"
| "owner (Done k c Anew x e) = Some c"
| "owner p = None"

fun thr_ok :: "int \<Rightarrow> ('v, 'e, 'k) Barrier \<Rightarrow> ('v, 'e, 'k) phase \<Rightarrow> bool" where
  "thr_ok now ba Idle = True"
| "thr_ok now ba (Own b k c) =
     (c < length (ba_heap ba) \<and> v_key (ba_heap ba ! c) = k \<and> \<not> v_done (ba_heap ba ! c) \<and>
      v_Val (ba_heap ba ! c) = None \<and> v_Err (ba_heap ba ! c) = None \<and>
      (map_of (ba_m ba) k = Some c \<or> ba_closed ba \<or> v_dob (ba_heap ba ! c) + ba_ttl ba < now))"
| "thr_ok now ba (Wait k c) = (c < length (ba_heap ba) \<and> v_key (ba_heap ba ! c) = k)"
| "thr_ok now ba (Done k c d x e) =
     (c < length (ba_heap ba) \<and> v_key (ba_heap ba ! c) = k \<and> v_done (ba_heap ba ! c) \<and>
      v_Val (ba_heap ba ! c) = x \<and> v_Err (ba_heap ba ! c) = e)"

definition map_ok :: "('v, 'e, 'k) Barrier \<Rightarrow> bool" where
  "map_ok ba \<longleftrightarrow> gm_wf (ba_m ba) \<and>
     (\<forall>k a. map_of (ba_m ba) k = Some a \<longrightarrow> a < length (ba_heap ba) \<and> v_key (ba_heap ba ! a) = k)"

definition ba_inv :: "('v, 'e, 'k) bsys \<Rightarrow> bool" where
  "ba_inv s \<longleftrightarrow> map_ok (s_ba s) \<and> (\<forall>t. thr_ok (s_now s) (s_ba s) (s_thr s t)) \<and>
     (\<forall>c < length (ba_heap (s_ba s)). \<exists>t. owner (s_thr s t) = Some c) \<and>
     (\<forall>t t' c. owner (s_thr s t) = Some c \<longrightarrow> owner (s_thr s t') = Some c \<longrightarrow> t = t')"

text \<open>
  What a step may change in the eyes of the callers it is not about: values are added, a value
  outside \<open>C\<close> keeps its result, and the map forgets a value only when it expired or the barrier closed.
\<close>

definition v_same :: "('v, 'e, 'k) V \<Rightarrow> ('v, 'e, 'k) V \<Rightarrow> bool" where
  "v_same v w \<longleftrightarrow> v_done v = v_done w \<and> v_Val v = v_Val w \<and> v_Err v = v_Err w \<and> v_dob v = v_dob w"

definition ba_frame :: "int \<Rightarrow> nat set \<Rightarrow> ('v, 'e, 'k) Barrier \<Rightarrow> ('v, 'e, 'k) Barrier \<Rightarrow> bool" where
  "ba_frame now C ba ba' \<longleftrightarrow>
     length (ba_heap ba) \<le> length (ba_heap ba') \<and> ba_ttl ba' = ba_ttl ba \<and> ba_to ba' = ba_to ba \<and>
     (ba_closed ba \<longrightarrow> ba_closed ba') \<and>
     (\<forall>a < length (ba_heap ba). v_key (ba_heap ba' ! a) = v_key (ba_heap ba ! a) \<and>
        (a \<notin> C \<longrightarrow> v_same (ba_heap ba ! a) (ba_heap ba' ! a))) \<and>
     (\<forall>k a. map_of (ba_m ba) k = Some a \<longrightarrow>
        map_of (ba_m ba') k = Some a \<or> ba_closed ba' \<or> v_expired now ba (ba_heap ba ! a))"

lemma ba_frameI:
  assumes "length (ba_heap ba) \<le> length (ba_heap ba')" "ba_ttl ba' = ba_ttl ba" "ba_to ba' = ba_to ba"
    "ba_closed ba \<Longrightarrow> ba_closed ba'"
    "\<And>a. a < length (ba_heap ba) \<Longrightarrow> v_key (ba_heap ba' ! a) = v_key (ba_heap ba ! a)"
    "\<And>a. a < length (ba_heap ba) \<Longrightarrow> a \<notin> C \<Longrightarrow> v_same (ba_heap ba ! a) (ba_heap ba' ! a)"
    "\<And>k a. map_of (ba_m ba) k = Some a \<Longrightarrow>
        map_of (ba_m ba') k = Some a \<or> ba_closed ba' \<or> v_expired now ba (ba_heap ba ! a)"
  shows "ba_frame now C ba ba'"
  using assms unfolding ba_frame_def by blast

lemma v_same_refl [simp]: "v_same v v"
  by (simp add: v_same_def)

lemma thr_ok_frame:
  assumes fr: "ba_frame now C ba ba'" and ok: "thr_ok now ba p"
    and own: "\<forall>b k c. p = Own b k c \<longrightarrow> c \<notin> C" and C: "\<forall>c \<in> C. \<not> v_done (ba_heap ba ! c)"
  shows "thr_ok now ba' p"
proof (cases p)
  case (Own b k c)
  then have c: "c \<notin> C" "c < length (ba_heap ba)" using own ok by auto
  then have s: "v_same (ba_heap ba ! c) (ba_heap ba' ! c)" "v_key (ba_heap ba' ! c) = v_key (ba_heap ba ! c)"
    "c < length (ba_heap ba')" "ba_ttl ba' = ba_ttl ba" "ba_closed ba \<longrightarrow> ba_closed ba'"
    using fr unfolding ba_frame_def by auto
  have "map_of (ba_m ba) k = Some c \<longrightarrow>
      map_of (ba_m ba') k = Some c \<or> ba_closed ba' \<or> v_expired now ba (ba_heap ba ! c)"
    using fr unfolding ba_frame_def by blast
  then show ?thesis using s ok Own by (auto simp: v_same_def v_expired_def)
next
  case (Done k c d x e)
  then have "c < length (ba_heap ba)" "c \<notin> C" using ok C by auto
  then have "v_same (ba_heap ba ! c) (ba_heap ba' ! c)" "v_key (ba_heap ba' ! c) = v_key (ba_heap ba ! c)"
    "c < length (ba_heap ba')"
    using fr unfolding ba_frame_def by auto
  then show ?thesis using ok Done by (simp add: v_same_def)
qed (use fr ok in \<open>auto simp: ba_frame_def\<close>)

lemma thr_ok_tick: "thr_ok now ba p \<Longrightarrow> now \<le> now' \<Longrightarrow> thr_ok now' ba p"
  by (cases p) auto

subsection \<open>The operations\<close>

lemma ba_upd_simps [simp]:
  "length (ba_heap (ba_upd a f ba)) = length (ba_heap ba)" "ba_m (ba_upd a f ba) = ba_m ba"
  "ba_ttl (ba_upd a f ba) = ba_ttl ba" "ba_to (ba_upd a f ba) = ba_to ba" "ba_closed (ba_upd a f ba) = ba_closed ba"
  "ba_neg (ba_upd a f ba) = ba_neg ba"
  by (simp_all add: ba_upd_def)

lemma ba_upd_nth:
  "b < length (ba_heap ba) \<Longrightarrow> ba_heap (ba_upd a f ba) ! b = (if b = a then f (ba_heap ba ! a) else ba_heap ba ! b)"
  by (simp add: ba_upd_def nth_list_update)

lemma ba_upd_frame:
  assumes "\<And>v. v_key (f v) = v_key v" "a \<in> C \<or> v_same (ba_heap ba ! a) (f (ba_heap ba ! a))"
  shows "ba_frame now C ba (ba_upd a f ba)"
  using assms by (intro ba_frameI) (auto simp: ba_upd_nth)

lemma ba_upd_map_ok: "(\<And>v. v_key (f v) = v_key v) \<Longrightarrow> map_ok (ba_upd a f ba) = map_ok ba"
proof -
  assume "\<And>v. v_key (f v) = v_key v"
  then have "b < length (ba_heap ba) \<Longrightarrow> v_key (ba_heap (ba_upd a f ba) ! b) = v_key (ba_heap ba ! b)" for b
    by (simp add: ba_upd_nth)
  then show ?thesis unfolding map_ok_def by (simp cong: conj_cong)
qed

lemma map_ok_del: "map_ok ba \<Longrightarrow> map_ok (ba\<lparr>ba_m := gm_del k (ba_m ba), ba_ndels := n\<rparr>)"
  by (simp add: map_ok_def gm_get_del)

lemma maybeScrub_simps [simp]:
  "ba_heap (maybeScrubLocked now ba) = ba_heap ba" "ba_m (maybeScrubLocked now ba) = ba_m ba"
  "ba_ttl (maybeScrubLocked now ba) = ba_ttl ba" "ba_to (maybeScrubLocked now ba) = ba_to ba"
  "ba_closed (maybeScrubLocked now ba) = ba_closed ba"
  by (simp_all add: maybeScrubLocked_def)

lemma map_ok_scrub [simp]: "map_ok (maybeScrubLocked now ba) = map_ok ba"
  by (simp add: map_ok_def)

lemma scrub_loop_simps [simp]:
  "ba_heap (scrub_loop now xs i ba) = ba_heap ba" "ba_ttl (scrub_loop now xs i ba) = ba_ttl ba"
  "ba_to (scrub_loop now xs i ba) = ba_to ba" "ba_closed (scrub_loop now xs i ba) = ba_closed ba"
  by (induction now xs i ba rule: scrub_loop.induct) simp_all

lemma scrub_loop_wf: "gm_wf (ba_m ba) \<Longrightarrow> gm_wf (ba_m (scrub_loop now xs i ba))"
  by (induction now xs i ba rule: scrub_loop.induct) simp_all

lemma scrub_loop_sub: "map_of (ba_m (scrub_loop now xs i ba)) k = Some a \<Longrightarrow> map_of (ba_m ba) k = Some a"
  by (induction now xs i ba rule: scrub_loop.induct) (auto simp: gm_get_del split: if_splits)

lemma v_expired_cong: "ba_neg ba' = ba_neg ba \<Longrightarrow> ba_ttl ba' = ba_ttl ba \<Longrightarrow> v_expired now ba' v = v_expired now ba v"
  by (simp add: v_expired_def)

lemma scrub_loop_keep:
  "map_of (ba_m ba) k = Some a \<Longrightarrow> \<forall>b. (k, b) \<in> set xs \<longrightarrow> b = a \<Longrightarrow>
     map_of (ba_m (scrub_loop now xs i ba)) k = Some a \<or> v_expired now ba (ba_heap ba ! a)"
proof (induction now xs i ba rule: scrub_loop.induct)
  case (2 now k' a' r i ba)
  let ?ba = "if v_expired now ba (ba_heap ba ! a')
              then ba\<lparr>ba_m := gm_del k' (ba_m ba), ba_ndels := ba_ndels ba + 1\<rparr> else ba"
  have e: "v_expired now ?ba v = v_expired now ba v" "ba_heap ?ba = ba_heap ba" for v
    by (simp_all add: v_expired_def)
  show ?case
  proof (cases "i > maxreapiter \<or> v_expired now ba (ba_heap ba ! a)")
    case True
    then show ?thesis using 2(2) by auto
  next
    case False
    then have "k' \<noteq> k" if "v_expired now ba (ba_heap ba ! a')" using 2(3) that by auto
    then have "map_of (ba_m ?ba) k = Some a" using 2(2) by auto
    then show ?thesis using 2(1) 2(3) e False by simp
  qed
qed simp

lemma ba_scrub_ok:
  assumes "map_ok ba"
  shows "map_ok (ba_scrub now ba)" "ba_frame now {} ba (ba_scrub now ba)"
    "length (ba_heap (ba_scrub now ba)) = length (ba_heap ba)"
proof -
  show "map_ok (ba_scrub now ba)"
    using assms scrub_loop_wf [of ba now "ba_m ba" 0] scrub_loop_sub [of now "ba_m ba" 0 ba]
    unfolding map_ok_def ba_scrub_def scrub_loop_simps by blast
  have u: "\<forall>b. (k, b) \<in> set (ba_m ba) \<longrightarrow> b = a" if "map_of (ba_m ba) k = Some a" for k a
    using assms that by (auto simp: map_ok_def gm_in_set)
  show "ba_frame now {} ba (ba_scrub now ba)"
  proof (rule ba_frameI)
    fix k a assume "map_of (ba_m ba) k = Some a"
    then show "map_of (ba_m (ba_scrub now ba)) k = Some a \<or> ba_closed (ba_scrub now ba) \<or>
        v_expired now ba (ba_heap ba ! a)"
      unfolding ba_scrub_def using scrub_loop_keep [OF _ u] by blast
  qed (simp_all add: ba_scrub_def)
qed (simp add: ba_scrub_def)

lemma getLocked_ok:
  assumes "map_ok ba" "ba_getLocked now k ba = (r, ba')"
  shows "map_ok ba'" "ba_frame now {} ba ba'" "ba_heap ba' = ba_heap ba" "ba_closed ba' = ba_closed ba"
    "r = Some c \<Longrightarrow> map_of (ba_m ba) k = Some c \<and> \<not> ba_closed ba \<and> \<not> v_expired now ba (ba_heap ba ! c)"
    "r = None \<Longrightarrow> ba_closed ba \<or> map_of (ba_m ba') k = None"
  using assms by (auto simp: ba_getLocked_def map_ok_del ba_frame_def gm_get_del split: if_splits option.splits)

lemma enter_shared_ok:
  assumes "map_ok ba" "ba_enter now k ba = ((c, Shared), ba')"
  shows "map_ok ba'" "ba_frame now {} ba ba'" "length (ba_heap ba') = length (ba_heap ba)"
    "c < length (ba_heap ba)" "v_key (ba_heap ba ! c) = k" "\<not> v_expired now ba (ba_heap ba ! c)"
proof -
  obtain ba1 where g: "ba_getLocked now k ba = (Some c, ba1)" and b: "ba' = ba_upd c (\<lambda>v. v\<lparr>v_N := v_N v + 1\<rparr>) ba1"
    using assms(2) by (auto simp: ba_enter_def split: prod.splits option.splits)
  note ok = getLocked_ok [OF assms(1) g]
  show "map_ok ba'" using ok(1) by (simp add: b ba_upd_map_ok)
  show "c < length (ba_heap ba)" "v_key (ba_heap ba ! c) = k" "\<not> v_expired now ba (ba_heap ba ! c)"
    using ok(5) [OF refl] assms(1) by (auto simp: map_ok_def)
  show "length (ba_heap ba') = length (ba_heap ba)" using ok(3) b by simp
  have "ba_frame now {} ba ba1" by (rule ok(2))
  then show "ba_frame now {} ba ba'" unfolding ba_frame_def using ok(3)
    by (auto simp: b ba_upd_nth v_same_def)
qed

lemma enter_anew_ok:
  assumes "map_ok ba" "ba_enter now k ba = ((c, Anew), ba')"
  shows "map_ok ba'" "ba_frame now {} ba ba'" "length (ba_heap ba') = Suc (length (ba_heap ba))"
    "c = length (ba_heap ba)" "thr_ok now ba' (Own b k c)"
proof -
  obtain ba1 where g: "ba_getLocked now k ba = (None, ba1)" and b: "(c, ba') = ba_addLocked now k ba1"
    using assms(2) by (auto simp: ba_enter_def split: prod.splits option.splits)
  note ok = getLocked_ok [OF assms(1) g]
  show c: "c = length (ba_heap ba)" using b ok(3) by (simp add: ba_addLocked_def Let_def)
  show "length (ba_heap ba') = Suc (length (ba_heap ba))"
    using b ok(3) by (auto simp: ba_addLocked_def Let_def)
  have keep: "a < Suc (length (ba_heap ba1))" "v_key ((ba_heap ba1 @ [v]) ! a) = k'"
    if "map_of (ba_m ba1) k' = Some a" for a v k'
    using ok(1) that by (auto simp: map_ok_def nth_append less_SucI)
  have "gm_wf (ba_m ba1)" using ok(1) by (simp add: map_ok_def)
  then show "map_ok ba'" using b keep by (auto simp: map_ok_def ba_addLocked_def Let_def gm_get_put)
  show "thr_ok now ba' (Own b k c)" using b ok(3) by (auto simp: ba_addLocked_def Let_def)
  have none: "ba_closed ba1 \<or> map_of (ba_m ba1) k = None" using ok(4,6) by simp
  have gone: "\<forall>k' a. map_of (ba_m ba) k' = Some a \<longrightarrow>
      map_of (ba_m ba1) k' = Some a \<or> ba_closed ba1 \<or> v_expired now ba (ba_heap ba ! a)"
    and same: "ba_ttl ba1 = ba_ttl ba" "ba_to ba1 = ba_to ba"
    using ok(2) unfolding ba_frame_def by simp_all
  show "ba_frame now {} ba ba'"
  proof (rule ba_frameI)
    fix k' a assume "map_of (ba_m ba) k' = Some a"
    then have "map_of (ba_m ba1) k' = Some a \<or> ba_closed ba1 \<or> v_expired now ba (ba_heap ba ! a)"
      using gone by blast
    then show "map_of (ba_m ba') k' = Some a \<or> ba_closed ba' \<or> v_expired now ba (ba_heap ba ! a)"
      using none b by (cases "k' = k") (auto simp: ba_addLocked_def Let_def)
  qed (use b same ok(3,4) in \<open>auto simp: ba_addLocked_def Let_def nth_append split: if_splits\<close>)
qed

lemma ba_write_ok:
  assumes "map_ok ba" "ba_heap ba' = (ba_heap ba)[c := w]" "v_key w = v_key (ba_heap ba ! c)"
    "ba_m ba' = ba_m ba" "ba_ttl ba' = ba_ttl ba" "ba_to ba' = ba_to ba" "ba_closed ba' = ba_closed ba"
  shows "map_ok ba'" "ba_frame now {c} ba ba'" "length (ba_heap ba') = length (ba_heap ba)"
    "v_key (ba_heap ba' ! a) = v_key (ba_heap ba ! a)"
proof -
  have k: "v_key (ba_heap ba' ! a) = v_key (ba_heap ba ! a)" for a
    using assms(2,3) by (cases "c < length (ba_heap ba)") (auto simp: nth_list_update list_update_beyond not_less)
  then show "v_key (ba_heap ba' ! a) = v_key (ba_heap ba ! a)" .
  show "map_ok ba'" using assms k by (simp add: map_ok_def)
  show "ba_frame now {c} ba ba'" using assms k by (intro ba_frameI) (simp_all add: nth_list_update)
qed (use assms in simp)

lemma ba_upd_upd:
  "ba_upd c g (ba_upd c f ba) = ba_upd c (g \<circ> f) ba"
  "ba_upd c g ((ba_upd c f ba)\<lparr>ba_nerrs := n\<rparr>) = (ba_upd c (g \<circ> f) ba)\<lparr>ba_nerrs := n\<rparr>"
  "ba_upd c g ((ba_upd c f ba)\<lparr>ba_nto := n\<rparr>) = (ba_upd c (g \<circ> f) ba)\<lparr>ba_nto := n\<rparr>"
  by (cases "c < length (ba_heap ba)"; simp add: ba_upd_def list_update_beyond not_less)+

definition v_result :: "'v \<Rightarrow> 'e option \<Rightarrow> ('v, 'e, 'k) V \<Rightarrow> ('v, 'e, 'k) V" where
  "v_result val err v = v\<lparr>v_Val := Some val, v_Err := map_option WorkErr err, v_run := False, v_done := True\<rparr>"

lemma ba_result_simps:
  "ba_heap (ba_result c val err ba) = (ba_heap ba)[c := v_result val err (ba_heap ba ! c)]"
  "ba_m (ba_result c val err ba) = ba_m ba" "ba_ttl (ba_result c val err ba) = ba_ttl ba"
  "ba_to (ba_result c val err ba) = ba_to ba" "ba_closed (ba_result c val err ba) = ba_closed ba"
  by (simp_all add: ba_result_def Let_def ba_upd_upd v_result_def comp_def) (simp_all add: ba_upd_def)

definition v_timeout :: "('v, 'e, 'k) V \<Rightarrow> ('v, 'e, 'k) V" where
  "v_timeout v = v\<lparr>v_Err := Some errTimeout, v_done := True\<rparr>"

lemma ba_timeout_simps:
  "ba_heap (ba_timeout c ba) = (ba_heap ba)[c := v_timeout (ba_heap ba ! c)]"
  "ba_m (ba_timeout c ba) = ba_m ba" "ba_ttl (ba_timeout c ba) = ba_ttl ba"
  "ba_to (ba_timeout c ba) = ba_to ba" "ba_closed (ba_timeout c ba) = ba_closed ba"
  by (simp_all add: ba_timeout_def Let_def ba_upd_upd v_timeout_def comp_def) (simp_all add: ba_upd_def)

lemma v_result_simps [simp]: "v_key (v_result val err v) = v_key v" "v_done (v_result val err v)"
  and v_timeout_simps [simp]: "v_key (v_timeout v) = v_key v" "v_done (v_timeout v)"
  by (simp_all add: v_result_def v_timeout_def)

subsection \<open>Every step keeps it\<close>

text \<open>A step about the caller \<open>t\<close>: the others see a frame, the owners change only by a fresh value.\<close>

lemma ba_inv_step:
  assumes inv: "ba_inv s" and m: "map_ok ba" and fr: "ba_frame (s_now s) C (s_ba s) ba"
    and C: "\<forall>c \<in> C. owner (s_thr s t) = Some c \<and> \<not> v_done (ba_heap (s_ba s) ! c)"
    and p: "thr_ok (s_now s) ba p"
    and own: "owner (s_thr s t) = None \<and> owner p = None \<and> length (ba_heap ba) = length (ba_heap (s_ba s)) \<or>
      (owner p = owner (s_thr s t) \<and> length (ba_heap ba) = length (ba_heap (s_ba s))) \<or>
      owner (s_thr s t) = None \<and> owner p = Some (length (ba_heap (s_ba s))) \<and> length (ba_heap ba) = Suc (length (ba_heap (s_ba s)))"
  shows "ba_inv (s\<lparr>s_ba := ba, s_thr := (s_thr s)(t := p)\<rparr>)"
proof -
  let ?s = "s\<lparr>s_ba := ba, s_thr := (s_thr s)(t := p)\<rparr>"
  have uniq: "\<And>t t' c. owner (s_thr s t) = Some c \<Longrightarrow> owner (s_thr s t') = Some c \<Longrightarrow> t = t'"
    using inv unfolding ba_inv_def by blast
  have ok: "thr_ok (s_now s) (s_ba s) (s_thr s x)" for x using inv by (simp add: ba_inv_def)
  have lt: "c < length (ba_heap (s_ba s))" if "owner (s_thr s x) = Some c" for x c
    using ok [of x] that by (cases "s_thr s x" rule: owner.cases) auto
  have others: "thr_ok (s_now s) ba (s_thr s x)" if "x \<noteq> t" for x
  proof (rule thr_ok_frame [OF fr ok])
    have "c \<notin> C" if "s_thr s x = Own b k c" for b k c
    proof
      assume "c \<in> C"
      then have "owner (s_thr s t) = Some c" using bspec [OF C, of c] by simp
      moreover have "owner (s_thr s x) = Some c" using that by simp
      ultimately show False using uniq [of t c x] \<open>x \<noteq> t\<close> by simp
    qed
    then show "\<forall>b k c. s_thr s x = Own b k c \<longrightarrow> c \<notin> C" by blast
    show "\<forall>c \<in> C. \<not> v_done (ba_heap (s_ba s) ! c)" using C by blast
  qed
  have all: "\<exists>t'. owner (((s_thr s)(t := p)) t') = Some c" if c: "c < length (ba_heap ba)" for c
  proof (cases "c < length (ba_heap (s_ba s))")
    case True
    then obtain t' where "owner (s_thr s t') = Some c" using inv unfolding ba_inv_def by blast
    then have "owner (((s_thr s)(t := p)) t') = Some c" using own by (cases "t' = t") auto
    then show ?thesis by blast
  next
    case False
    then have "owner (((s_thr s)(t := p)) t) = Some c" using c own by auto
    then show ?thesis by blast
  qed
  have "t1 = t2" if h: "owner (((s_thr s)(t := p)) t1) = Some c" "owner (((s_thr s)(t := p)) t2) = Some c" for t1 t2 c
  proof (cases "t1 = t \<longleftrightarrow> t2 = t")
    case True
    then show ?thesis using h uniq [of t1 c t2] by (cases "t1 = t") simp_all
  next
    case False
    then obtain x where x: "x \<noteq> t" "owner p = Some c" "owner (s_thr s x) = Some c" "{t1, t2} = {t, x}"
      using h by (cases "t1 = t") auto
    then have "owner (s_thr s t) = Some c" using own lt [of x c] by auto
    then show ?thesis using uniq [of t c x] x(1,3) by simp
  qed
  moreover have "thr_ok (s_now s) ba (((s_thr s)(t := p)) x)" for x
    using others p by (cases "x = t") simp_all
  moreover have "s_ba ?s = ba" "s_thr ?s = (s_thr s)(t := p)" "s_now ?s = s_now s" by simp_all
  ultimately show ?thesis using m all unfolding ba_inv_def by metis
qed

lemma ba_inv_silent:
  assumes inv: "ba_inv s" and "map_ok ba" "ba_frame (s_now s) {} (s_ba s) ba"
    "length (ba_heap ba) = length (ba_heap (s_ba s))"
  shows "ba_inv (s\<lparr>s_ba := ba\<rparr>)"
proof -
  have "ba_inv (s\<lparr>s_ba := ba, s_thr := (s_thr s)(undefined := s_thr s undefined)\<rparr>)"
    using assms by (intro ba_inv_step [where C = "{}"]) (auto simp: ba_inv_def intro: thr_ok_frame)
  then show ?thesis by simp
qed

lemma ba_inv_write:
  assumes inv: "ba_inv s" and t: "s_thr s t = Own b k c"
    and w: "ba_heap ba = (ba_heap (s_ba s))[c := w]" "v_key w = v_key (ba_heap (s_ba s) ! c)" "v_done w"
    "ba_m ba = ba_m (s_ba s)" "ba_ttl ba = ba_ttl (s_ba s)" "ba_to ba = ba_to (s_ba s)" "ba_closed ba = ba_closed (s_ba s)"
  shows "ba_inv (finish t k c Anew ba s)"
proof -
  have m: "map_ok (s_ba s)" and o: "thr_ok (s_now s) (s_ba s) (Own b k c)"
    using inv t by (auto simp: ba_inv_def dest: spec [of _ t])
  note e = ba_write_ok [OF m w(1,2,4-7)]
  show ?thesis unfolding finish_def using inv t o e w(1-3)
    by (intro ba_inv_step [where C = "{c}"]) simp_all
qed

lemma ba_inv_enter:
  assumes inv: "ba_inv s" and t: "s_thr s t = Idle"
  shows "ba_enter (s_now s) k (s_ba s) = ((c, Shared), ba) \<Longrightarrow> ba_inv (s\<lparr>s_ba := ba, s_thr := (s_thr s)(t := Wait k c)\<rparr>)"
    and "ba_enter (s_now s) k (s_ba s) = ((c, Anew), ba) \<Longrightarrow> ba_inv (s\<lparr>s_ba := ba, s_thr := (s_thr s)(t := Own b k c)\<rparr>)"
proof -
  have m: "map_ok (s_ba s)" using inv by (simp add: ba_inv_def)
  show "ba_inv (s\<lparr>s_ba := ba, s_thr := (s_thr s)(t := Wait k c)\<rparr>)"
    if h: "ba_enter (s_now s) k (s_ba s) = ((c, Shared), ba)"
  proof -
    note e = enter_shared_ok [OF m h]
    have "v_key (ba_heap ba ! c) = k" using e(2,4,5) unfolding ba_frame_def by simp
    then show ?thesis using inv t e(1-4) by (intro ba_inv_step [where C = "{}"]) simp_all
  qed
  show "ba_inv (s\<lparr>s_ba := ba, s_thr := (s_thr s)(t := Own b k c)\<rparr>)"
    if h: "ba_enter (s_now s) k (s_ba s) = ((c, Anew), ba)"
    using inv t enter_anew_ok [OF m h] by (intro ba_inv_step [where C = "{}"]) simp_all
qed

lemma ba_step_inv: "ba_step s s' \<Longrightarrow> ba_inv s \<Longrightarrow> ba_inv s'"
proof (induction rule: ba_step.induct)
  case (tick s now)
  then show ?case using thr_ok_tick unfolding ba_inv_def by simp blast
next
  case (late a s)
  have "ba_frame (s_now s) {} (s_ba s) (ba_upd a (\<lambda>v. v\<lparr>v_run := False\<rparr>) (s_ba s))"
    by (rule ba_upd_frame) (simp_all add: v_same_def)
  then show ?case using late.prems by (intro ba_inv_silent) (simp_all add: ba_upd_map_ok ba_inv_def)
next
  case (wake s t k c ba)
  then have m: "map_ok (s_ba s)" and o: "thr_ok (s_now s) (s_ba s) (Wait k c)" by (auto simp: ba_inv_def dest: spec [of _ t])
  have b: "ba = (s_ba s)\<lparr>ba_nshared := ba_nshared (s_ba s) + 1\<rparr>" "v_done (ba_heap (s_ba s) ! c)"
    using wake.hyps(2) by (auto simp: ba_wait_def split: if_splits)
  show ?case unfolding finish_def using wake.prems wake.hyps(1) o b m
    by (intro ba_inv_step [where C = "{}"]) (simp_all add: ba_frame_def map_ok_def)
next
  case (scrub s n)
  let ?b = "(s_ba s)\<lparr>ba_scrubs := n\<rparr>"
  have m: "map_ok ?b" using scrub.prems by (simp add: ba_inv_def map_ok_def)
  then have "ba_inv (s\<lparr>s_ba := ?b\<rparr>)"
    by (rule ba_inv_silent [OF scrub.prems]) (simp_all add: ba_frame_def)
  then show ?case
    using ba_inv_silent [of "s\<lparr>s_ba := ?b\<rparr>" "ba_scrub (s_now s) ?b"] ba_scrub_ok [OF m, of "s_now s"] by simp
next
  case (after1 s)
  then show ?case by (intro ba_inv_silent) (simp_all add: ba_inv_def map_ok_def ba_after1_def ba_frame_def)
next
  case (after2 s)
  then show ?case by (intro ba_inv_silent) (simp_all add: ba_inv_def map_ok_def ba_after2_def ba_frame_def)
qed (auto intro!: ba_inv_enter ba_inv_write simp: ba_result_simps ba_timeout_simps)

lemma ba_reach_inv: "ba_reach now ttl neg s \<Longrightarrow> ba_inv s"
proof (induction rule: ba_reach.induct)
  case init
  show ?case by (simp add: ba_inv_def ba_init_def NewBarrier2_def map_ok_def)
qed (rule ba_step_inv)

subsection \<open>Correctness\<close>

text \<open>
  C5: Duplicate suppression. As long as the barrier is open, two callers that own work for the same
  key at the same time are the same caller, unless the work of one of them has been in flight for
  longer than the time to live.
\<close>

theorem barrier_single_flight:
  assumes "ba_reach now ttl neg s" "\<not> ba_closed (s_ba s)"
    and "s_thr s t = Own b k c" "s_thr s t' = Own b' k c'"
    and "s_now s \<le> v_dob (ba_heap (s_ba s) ! c) + ba_ttl (s_ba s)"
    and "s_now s \<le> v_dob (ba_heap (s_ba s) ! c') + ba_ttl (s_ba s)"
  shows "t = t' \<and> c = c'"
proof -
  have inv: "ba_inv s" using assms(1) by (rule ba_reach_inv)
  then have "thr_ok (s_now s) (s_ba s) (Own b k c)" "thr_ok (s_now s) (s_ba s) (Own b' k c')"
    using assms(3,4) by (metis ba_inv_def)+
  then have "map_of (ba_m (s_ba s)) k = Some c" "map_of (ba_m (s_ba s)) k = Some c'"
    using assms(2,5,6) by auto
  then have "c = c'" by simp
  moreover have "owner (s_thr s t) = Some c" "owner (s_thr s t') = Some c'" using assms(3,4) by simp_all
  ultimately show ?thesis using inv unfolding ba_inv_def by blast
qed

definition one_caller :: "(nat, nat, string) bsys" where
  "one_caller =
     (ba_init 0 10 2)\<lparr>s_ba := snd (ba_enter 0 ''k'' (NewBarrier2 0 10 2)), s_thr := (\<lambda>_. Idle)(0 := Own True ''k'' 0)\<rparr>"

lemma one_caller_reach: "ba_reach 0 10 2 one_caller"
proof -
  have "ba_step (ba_init 0 10 2) one_caller"
    using own [of "ba_init 0 10 2" 0 "''k''" 0 "snd (ba_enter 0 ''k'' (NewBarrier2 0 10 2))" True]
    by (simp add: one_caller_def ba_init_def NewBarrier2_def ba_enter_def ba_getLocked_def ba_addLocked_def Let_def
        maybeScrubLocked_def reapthreshold_def)
  then show ?thesis by (rule ba_reach.step [OF ba_reach.init])
qed

lemmas one_caller_simps = one_caller_def ba_init_def NewBarrier2_def ba_enter_def ba_getLocked_def ba_addLocked_def
  Let_def maybeScrubLocked_def reapthreshold_def

theorem barrier_single_flight_witness: "s_thr one_caller 0 = Own True ''k'' 0 \<and> {t. t = 0 \<and> s_thr one_caller t = Own True ''k'' 0} = {0}"
  using barrier_single_flight [OF one_caller_reach, of 0 True "''k''" 0 0 True 0] by (simp add: one_caller_simps)

text \<open>
  C18: Callers that return the same value agree: they asked for the same key, they saw the same result
  and error, whenever each of them returned, and exactly one of them ran the work.
\<close>

theorem barrier_agree:
  assumes "ba_reach now ttl neg s"
    and "s_thr s t = Done k c d x e" "s_thr s t' = Done k' c d' x' e'"
  shows "k = k' \<and> x = x' \<and> e = e' \<and> (d = Anew \<longrightarrow> d' = Anew \<longrightarrow> t = t') \<and>
    (\<exists>t0 x0 e0. s_thr s t0 = Done k c Anew x0 e0)"
proof -
  have inv: "ba_inv s" using assms(1) by (rule ba_reach_inv)
  then have ok: "thr_ok (s_now s) (s_ba s) (Done k c d x e)" "thr_ok (s_now s) (s_ba s) (Done k' c d' x' e')"
    using assms(2,3) by (metis ba_inv_def)+
  have "t = t'" if "d = Anew" "d' = Anew"
  proof -
    have "owner (s_thr s t) = Some c" "owner (s_thr s t') = Some c" using assms(2,3) that by simp_all
    then show ?thesis using inv unfolding ba_inv_def by blast
  qed
  moreover obtain t0 where t0: "owner (s_thr s t0) = Some c" using inv ok(1) unfolding ba_inv_def by auto
  have "thr_ok (s_now s) (s_ba s) (s_thr s t0)" using inv unfolding ba_inv_def by blast
  then have "\<exists>x0 e0. s_thr s t0 = Done k c Anew x0 e0"
    using t0 ok(1) by (cases "s_thr s t0" rule: owner.cases) auto
  ultimately show ?thesis using ok by auto
qed

definition one_done :: "(nat, nat, string) bsys" where
  "one_done = finish 0 ''k'' 0 Anew (ba_result 0 7 None (s_ba one_caller)) one_caller"

theorem barrier_agree_witness: "\<exists>t0 x0 e0. s_thr one_done t0 = Done ''k'' 0 Anew x0 e0"
proof -
  have "ba_step one_caller one_done" unfolding one_done_def by (rule result [of _ _ True]) (simp add: one_caller_def)
  then have r: "ba_reach 0 10 2 one_done" by (rule ba_reach.step [OF one_caller_reach])
  have "s_thr one_done 0 = Done ''k'' 0 Anew (Some 7) None"
    by (simp add: one_done_def finish_def ba_result_simps v_result_def one_caller_simps)
  then show ?thesis using barrier_agree [OF r] by blast
qed

lemma timeout_releases:
  assumes o: "s_thr s t' = Own True k c" and t: "s_thr s t = Wait k c" and ne: "t' \<noteq> t"
    and H: "c < length (ba_heap (s_ba s))" "v_Val (ba_heap (s_ba s) ! c) = None"
    and n: "s_now s \<le> late_now" "v_dob (ba_heap (s_ba s) ! c) + ba_to (s_ba s) \<le> late_now"
  shows "\<exists>s1 s2 s3. ba_step s s1 \<and> s_now s1 = late_now \<and> ba_step s1 s2 \<and>
    s_thr s2 t' = Done k c Anew None (Some errTimeout) \<and> ba_step s2 s3 \<and>
    s_thr s3 t = Done k c Shared None (Some errTimeout)"
proof -
  let ?s1 = "s\<lparr>s_now := late_now\<rparr>"
  let ?s2 = "finish t' k c Anew (ba_timeout c (s_ba s)) ?s1"
  let ?ba = "(s_ba ?s2)\<lparr>ba_nshared := ba_nshared (s_ba ?s2) + 1\<rparr>"
  have 1: "ba_step s ?s1" "s_now ?s1 = late_now" using n(1) by (simp_all add: tick)
  have 2: "ba_step ?s1 ?s2" using timeout [of ?s1 t' k c] o n(2) by simp
  have d: "s_thr ?s2 t' = Done k c Anew None (Some errTimeout)" "s_thr ?s2 t = Wait k c" "ba_wait c (s_ba ?s2) = Some ?ba"
    using H ne t by (simp_all add: finish_def ba_timeout_simps v_timeout_def ba_wait_def)
  have "ba_step ?s2 (finish t k c Shared ?ba ?s2)" using d(2,3) by (rule wake)
  moreover have "s_thr (finish t k c Shared ?ba ?s2) t = Done k c Shared None (Some errTimeout)"
    using H by (simp add: finish_def ba_timeout_simps v_timeout_def)
  ultimately show ?thesis using 1 2 d(1) by blast
qed


definition one_waiter :: "(nat, nat, string) bsys" where
  "one_waiter = one_caller\<lparr>s_ba := snd (ba_enter 0 ''k'' (s_ba one_caller)), s_thr := (s_thr one_caller)(1 := Wait ''k'' 0)\<rparr>"


end
