(* ===== verification/Xdns.thy ===== *)
theory Xdns
  imports Addr Slices
begin

text \<open>
  The message helpers of \<^verbatim>\<open>intra/xdns/dnsutil.go\<close> and \<^verbatim>\<open>intra/xdns/common.go\<close>. A \<^verbatim>\<open>*dns.Msg\<close> is an option of
  a record with the fields the code reads and writes, a resource record is a datatype with one
  constructor per concrete type the code distinguishes, its header kept apart as in the library
  (the code compares \<^verbatim>\<open>Header().Rrtype\<close> and the concrete type separately). Functions that write through the
  message pointer return the new message. The DNS library is not part of the repository: what the
  code calls of it are the fields of \<open>dnslib\<close>, an argument of the definitions that use it, and
  \<open>dnslib_ok\<close> states the documented behaviour the code relies on. Strings are byte strings.
\<close>

subsection \<open>Messages\<close>

record rr_header =
  h_Name :: string
  h_Rrtype :: u16
  h_Class :: u16
  h_Ttl :: u32

datatype svcb_kv = SVCBIPv4Hint "bytes list" | SVCBIPv6Hint "bytes list" | SVCBOther u16 string

datatype edns0 = EDNS0_PADDING bytes | EDNS0_OTHER u16 bytes

datatype rr =
  RR_A (rr_hdr: rr_header) bytes
| RR_AAAA (rr_hdr: rr_header) bytes
| RR_CNAME (rr_hdr: rr_header) string
| RR_SVCB (rr_hdr: rr_header) u16 string "svcb_kv list"
| RR_HTTPS (rr_hdr: rr_header) u16 string "svcb_kv list"
| RR_HINFO (rr_hdr: rr_header) string string
| RR_OPT (rr_hdr: rr_header) "edns0 list"
| RR_OTHER (rr_hdr: rr_header) string

record question =
  q_Name :: string
  q_Qtype :: u16
  q_Qclass :: u16

record dns_msg =
  m_Id :: u16
  m_Response :: bool
  m_Opcode :: int
  m_Authoritative :: bool
  m_Truncated :: bool
  m_RecursionDesired :: bool
  m_RecursionAvailable :: bool
  m_AuthenticatedData :: bool
  m_CheckingDisabled :: bool
  m_Rcode :: int
  m_Compress :: bool
  m_Question :: "question list"
  m_Answer :: "rr list"
  m_Ns :: "rr list"
  m_Extra :: "rr list"

definition zero_msg :: dns_msg where
  "zero_msg =
     \<lparr>m_Id = 0, m_Response = False, m_Opcode = 0, m_Authoritative = False, m_Truncated = False,
      m_RecursionDesired = False, m_RecursionAvailable = False, m_AuthenticatedData = False,
      m_CheckingDisabled = False, m_Rcode = 0, m_Compress = False, m_Question = [], m_Answer = [], m_Ns = [], m_Extra = []\<rparr>"

definition TypeNone :: u16 where [simp]: "TypeNone = 0"
definition TypeA :: u16 where [simp]: "TypeA = 1"
definition TypeCNAME :: u16 where [simp]: "TypeCNAME = 5"
definition TypeHINFO :: u16 where [simp]: "TypeHINFO = 13"
definition TypeAAAA :: u16 where [simp]: "TypeAAAA = 28"
definition TypeSVCB :: u16 where [simp]: "TypeSVCB = 64"
definition TypeHTTPS :: u16 where [simp]: "TypeHTTPS = 65"
definition ClassINET :: u16 where [simp]: "ClassINET = 1"
definition RcodeSuccess :: int where [simp]: "RcodeSuccess = 0"
definition RcodeFormatError :: int where [simp]: "RcodeFormatError = 1"
definition RcodeServerFailure :: int where [simp]: "RcodeServerFailure = 2"
definition RcodeNameError :: int where [simp]: "RcodeNameError = 3"
definition SVCB_IPV4HINT :: u16 where [simp]: "SVCB_IPV4HINT = 4"
definition SVCB_IPV6HINT :: u16 where [simp]: "SVCB_IPV6HINT = 6"

fun kv_Key :: "svcb_kv \<Rightarrow> u16" where
  "kv_Key (SVCBIPv4Hint _) = SVCB_IPV4HINT"
| "kv_Key (SVCBIPv6Hint _) = SVCB_IPV6HINT"
| "kv_Key (SVCBOther k _) = k"

text \<open>The DNS library: \<open>lib_IsEdns0\<close> gives the position in \<^verbatim>\<open>Extra\<close> of the record that \<^verbatim>\<open>IsEdns0\<close> points to.\<close>

record dnslib =
  lib_Unpack :: "bytes \<Rightarrow> dns_msg option"
  lib_Pack :: "dns_msg \<Rightarrow> bytes option"
  lib_Len :: "dns_msg \<Rightarrow> nat"
  lib_SetQuestion :: "string \<Rightarrow> u16 \<Rightarrow> dns_msg \<Rightarrow> dns_msg"
  lib_IsEdns0 :: "dns_msg \<Rightarrow> nat option"
  lib_SetEdns0 :: "u16 \<Rightarrow> bool \<Rightarrow> dns_msg \<Rightarrow> dns_msg"
  lib_UDPSize :: "rr \<Rightarrow> u16"
  lib_Do :: "rr \<Rightarrow> bool"
  lib_IsDomainName :: "string \<Rightarrow> bool"

definition dnslib_ok :: "dnslib \<Rightarrow> bool" where
  \<comment> \<open>documented behaviour: \<^verbatim>\<open>SetQuestion\<close> makes the one question of class INET, \<^verbatim>\<open>SetEdns0\<close> appends an OPT
     record without options to \<^verbatim>\<open>Extra\<close>, \<^verbatim>\<open>IsEdns0\<close> finds an OPT record of \<^verbatim>\<open>Extra\<close>\<close>
  "dnslib_ok L \<longleftrightarrow>
     (\<forall>n t m. \<exists>i. lib_SetQuestion L n t m =
        m\<lparr>m_Id := i, m_RecursionDesired := True, m_Question := [\<lparr>q_Name = n, q_Qtype = t, q_Qclass = ClassINET\<rparr>]\<rparr>) \<and>
     (\<forall>s d m. \<exists>h. lib_SetEdns0 L s d m = m\<lparr>m_Extra := m_Extra m @ [RR_OPT h []]\<rparr>) \<and>
     (\<forall>m i. lib_IsEdns0 L m = Some i \<longrightarrow> i < length (m_Extra m) \<and> (\<exists>h os. m_Extra m ! i = RR_OPT h os))"

subsection \<open>Constants and errors\<close>

datatype xerr = ErrUnpack | ErrPack | ErrMassivePkt | ErrNoAns | ErrNoPacket | ErrNotAscii | ErrRespTooLarge | ErrRespTooShort | ErrRead

definition MinDNSPacketSize :: nat where [simp]: "MinDNSPacketSize = 12 + 5"
definition MaxDNSPacketSize :: nat where [simp]: "MaxDNSPacketSize = 4096"
definition MaxMTU :: nat where [simp]: "MaxMTU = 0xffff"
definition ZeroTTL :: u32 where [simp]: "ZeroTTL = 0"
definition BustDnsproxydResNetCache :: bool where [simp]: "BustDnsproxydResNetCache = True"

definition blockTTL :: u32 where
  \<comment> \<open>as \<^verbatim>\<open>init\<close> leaves it\<close>
  [simp]: "blockTTL = (if BustDnsproxydResNetCache then ZeroTTL else 5)"

definition ansTTL :: u32 where
  [simp]: "ansTTL = (if BustDnsproxydResNetCache then ZeroTTL else 15)"

definition paddingBlockSize :: nat where [simp]: "paddingBlockSize = 128"
definition optPaddingHeaderLen :: nat where [simp]: "optPaddingHeaderLen = 2 + 2"
definition arpa4suffix :: string where "arpa4suffix = ''254.169.in-addr.arpa''"
definition arpa6suffix :: string where "arpa6suffix = ''e.f.ip6.arpa''"
definition localsuffix :: string where "localsuffix = ''local''"

subsection \<open>Questions\<close>

definition HasAnyQuestion :: "dns_msg option \<Rightarrow> bool" where
  "HasAnyQuestion msg = (case msg of None \<Rightarrow> False | Some m \<Rightarrow> length (m_Question m) > 0)"

definition QName :: "dns_msg option \<Rightarrow> string" where
  "QName msg =
     (case msg of None \<Rightarrow> ''''
      | Some m \<Rightarrow> if length (m_Question m) \<le> 0 \<or> \<not> HasAnyQuestion msg then '''' else q_Name (m_Question m ! 0))"

definition QType :: "dns_msg option \<Rightarrow> u16" where
  "QType msg =
     (case msg of None \<Rightarrow> TypeNone
      | Some m \<Rightarrow> if HasAnyQuestion msg \<and> length (m_Question m) > 0 then q_Qtype (m_Question m ! 0) else TypeNone)"

definition IsAAAAQType :: "u16 \<Rightarrow> bool" where "IsAAAAQType qtype = (qtype = TypeAAAA)"
definition IsAQType :: "u16 \<Rightarrow> bool" where "IsAQType qtype = (qtype = TypeA)"
definition IsHTTPSQType :: "u16 \<Rightarrow> bool" where "IsHTTPSQType qtype = (qtype = TypeHTTPS)"
definition IsSVCBQType :: "u16 \<Rightarrow> bool" where "IsSVCBQType qtype = (qtype = TypeSVCB)"
definition IsSVCBQuestion :: "question \<Rightarrow> bool" where "IsSVCBQuestion q = IsSVCBQType (q_Qtype q)"
definition IsHTTPQuestion :: "question \<Rightarrow> bool" where "IsHTTPQuestion q = IsHTTPSQType (q_Qtype q)"

definition HasAAAAQuestion :: "dns_msg option \<Rightarrow> bool" where
  "HasAAAAQuestion msg =
     (case msg of None \<Rightarrow> False
      | Some m \<Rightarrow>
          if \<not> HasAnyQuestion msg \<or> length (m_Question m) \<le> 0 then False
          else let q = m_Question m ! 0 in q_Qclass q = ClassINET \<and> IsAAAAQType (q_Qtype q))"

definition HasAQuestion :: "dns_msg option \<Rightarrow> bool" where
  "HasAQuestion msg =
     (case msg of None \<Rightarrow> False
      | Some m \<Rightarrow>
          if \<not> HasAnyQuestion msg \<or> length (m_Question m) \<le> 0 then False
          else let q = m_Question m ! 0 in q_Qclass q = ClassINET \<and> IsAQType (q_Qtype q))"

definition HasAQuadAQuestion :: "dns_msg option \<Rightarrow> bool" where
  "HasAQuadAQuestion msg = (HasAAAAQuestion msg \<or> HasAQuestion msg)"

definition HasSVCBQuestion :: "dns_msg option \<Rightarrow> bool" where
  "HasSVCBQuestion msg =
     (case msg of None \<Rightarrow> False
      | Some m \<Rightarrow>
          if \<not> HasAnyQuestion msg \<or> length (m_Question m) \<le> 0 then False
          else IsSVCBQuestion (m_Question m ! 0))"

definition HasHTTPQuestion :: "dns_msg option \<Rightarrow> bool" where
  "HasHTTPQuestion msg =
     (case msg of None \<Rightarrow> False
      | Some m \<Rightarrow>
          if \<not> HasAnyQuestion msg \<or> length (m_Question m) \<le> 0 then False
          else IsHTTPQuestion (m_Question m ! 0))"

subsection \<open>Requests and responses\<close>

definition AsMsg2 :: "dnslib \<Rightarrow> bytes \<Rightarrow> xerr + dns_msg" where
  "AsMsg2 L packet =
     (if length packet < MinDNSPacketSize then Inl ErrNoPacket
      else case lib_Unpack L packet of None \<Rightarrow> Inl ErrUnpack | Some msg \<Rightarrow> Inr msg)"

definition AsMsg :: "dnslib \<Rightarrow> bytes \<Rightarrow> dns_msg option" where
  "AsMsg L packet = (case AsMsg2 L packet of Inl _ \<Rightarrow> None | Inr m \<Rightarrow> Some m)"

definition RequestFromResponse :: "dnslib \<Rightarrow> dns_msg \<Rightarrow> dns_msg" where
  "RequestFromResponse L msg =
     (let req = zero_msg\<lparr>m_Compress := True\<rparr>;
          req = lib_SetQuestion L (QName (Some msg)) (QType (Some msg)) req
      in req\<lparr>m_RecursionDesired := True, m_CheckingDisabled := False, m_AuthenticatedData := False,
             m_Authoritative := False, m_Id := m_Id msg\<rparr>)"

definition Request4FromResponse6 :: "dnslib \<Rightarrow> dns_msg option \<Rightarrow> dns_msg option" where
  "Request4FromResponse6 L msg6 =
     (case msg6 of None \<Rightarrow> None
      | Some m6 \<Rightarrow>
          if \<not> HasAnyQuestion msg6 then None
          else
            let msg4 = zero_msg\<lparr>m_Compress := True\<rparr>;
                msg4 = lib_SetQuestion L (QName msg6) TypeA msg4
            in Some (msg4\<lparr>m_RecursionDesired := True, m_CheckingDisabled := False, m_AuthenticatedData := False,
                          m_Authoritative := False, m_Id := m_Id m6\<rparr>))"

definition Request4FromRequest6 :: "dnslib \<Rightarrow> dns_msg option \<Rightarrow> dns_msg option" where
  "Request4FromRequest6 L msg6 =
     (case msg6 of None \<Rightarrow> None
      | Some m6 \<Rightarrow> if \<not> HasAnyQuestion msg6 then None else Some (lib_SetQuestion L (QName msg6) TypeA m6))"

definition Request6FromRequest4 :: "dnslib \<Rightarrow> dns_msg option \<Rightarrow> dns_msg option" where
  "Request6FromRequest4 L msg4 =
     (case msg4 of None \<Rightarrow> None
      | Some m4 \<Rightarrow> if \<not> HasAnyQuestion msg4 then None else Some (lib_SetQuestion L (QName msg4) TypeAAAA m4))"

definition EmptyResponseFromMessage :: "dnslib \<Rightarrow> dns_msg option \<Rightarrow> dns_msg option" where
  "EmptyResponseFromMessage L srcMsg =
     (case srcMsg of None \<Rightarrow> None
      | Some src \<Rightarrow>
          if \<not> HasAnyQuestion srcMsg then None
          else
            let dst = src\<lparr>m_Compress := True, m_Question := [], m_Answer := [], m_Ns := [], m_Extra := []\<rparr>;
                dst = dst\<lparr>m_Question := m_Question src\<rparr>;
                dst = dst\<lparr>m_Response := True\<rparr>;
                dst = (if m_RecursionDesired src then dst\<lparr>m_RecursionAvailable := True\<rparr> else dst);
                dst = dst\<lparr>m_RecursionDesired := False, m_CheckingDisabled := False, m_AuthenticatedData := False\<rparr>
            in Some (case lib_IsEdns0 L src of
                       None \<Rightarrow> dst
                     | Some i \<Rightarrow> lib_SetEdns0 L (lib_UDPSize L (m_Extra src ! i)) (lib_Do L (m_Extra src ! i)) dst))"

definition TruncatedResponse :: "dnslib \<Rightarrow> bytes \<Rightarrow> xerr + bytes" where
  "TruncatedResponse L packet =
     (if length packet \<le> 0 then Inl ErrNoAns
      else
        case lib_Unpack L packet of
          None \<Rightarrow> Inl ErrUnpack
        | Some src \<Rightarrow>
            (case EmptyResponseFromMessage L (Some src) of
               None \<Rightarrow> Inl ErrNoAns
             | Some dst \<Rightarrow>
                 (case lib_Pack L (dst\<lparr>m_Truncated := True\<rparr>) of None \<Rightarrow> Inl ErrPack | Some b \<Rightarrow> Inr b)))"

definition HasTCFlag :: "dns_msg option \<Rightarrow> bool" where
  "HasTCFlag msg = (case msg of None \<Rightarrow> False | Some m \<Rightarrow> m_Truncated m)"

definition HasTCFlag2 :: "bytes \<Rightarrow> bool option" where
  "HasTCFlag2 packet =
     (if length packet < 2 then Some False
      else do { b \<leftarrow> get8 packet 2; Some ((b AND 2) = 2) })"

definition Rcode :: "dns_msg option \<Rightarrow> int" where
  "Rcode msg = (case msg of Some m \<Rightarrow> m_Rcode m | None \<Rightarrow> RcodeFormatError)"

definition HasRcodeSuccess :: "dns_msg option \<Rightarrow> bool" where
  "HasRcodeSuccess msg = (case msg of None \<Rightarrow> False | Some m \<Rightarrow> m_Rcode m = RcodeSuccess)"

definition HasAnyAnswer :: "dns_msg option \<Rightarrow> bool" where
  "HasAnyAnswer msg = (case msg of None \<Rightarrow> False | Some m \<Rightarrow> length (m_Answer m) > 0)"

definition IsNXDomain :: "dns_msg option \<Rightarrow> bool" where
  "IsNXDomain msg = (case msg of None \<Rightarrow> False | Some m \<Rightarrow> m_Rcode m = RcodeNameError)"

definition IsServFailOrInvalid :: "dns_msg option \<Rightarrow> bool" where
  "IsServFailOrInvalid msg = (case msg of None \<Rightarrow> True | Some m \<Rightarrow> m_Rcode m = RcodeServerFailure)"

definition Servfail :: "dns_msg option \<Rightarrow> dns_msg option" where
  "Servfail q =
     (case q of None \<Rightarrow> None
      | Some m \<Rightarrow> Some (m\<lparr>m_Response := True, m_RecursionAvailable := True, m_Rcode := RcodeServerFailure, m_Extra := []\<rparr>))"

definition IsDNSSECRequested :: "dnslib \<Rightarrow> dns_msg option \<Rightarrow> bool" where
  "IsDNSSECRequested L q =
     (case q of None \<Rightarrow> False
      | Some m \<Rightarrow> (case lib_IsEdns0 L m of None \<Rightarrow> False | Some i \<Rightarrow> lib_Do L (m_Extra m ! i)))"

definition IsDNSSECAnswerAuthenticated :: "dns_msg option \<Rightarrow> bool" where
  "IsDNSSECAnswerAuthenticated a = (case a of None \<Rightarrow> False | Some m \<Rightarrow> m_AuthenticatedData m)"

definition CopyAns :: "dns_msg option \<Rightarrow> dns_msg option" where
  "CopyAns a =
     (case a of None \<Rightarrow> None
      | Some m \<Rightarrow> Some (m\<lparr>m_AuthenticatedData := False, m_RecursionDesired := False, m_CheckingDisabled := False\<rparr>))"

definition Len :: "dns_msg option \<Rightarrow> nat" where
  "Len msg =
     (case msg of None \<Rightarrow> 0
      | Some m \<Rightarrow> if m_Response m then length (m_Answer m) + length (m_Extra m) else length (m_Question m))"

definition Size :: "dnslib \<Rightarrow> dns_msg option \<Rightarrow> nat" where
  "Size L msg = (case msg of None \<Rightarrow> 0 | Some m \<Rightarrow> lib_Len L m)"

subsection \<open>Names\<close>

definition trim_suffix :: "string \<Rightarrow> string \<Rightarrow> string" where
  \<comment> \<open>\<^verbatim>\<open>strings.TrimSuffix\<close>\<close>
  "trim_suffix s p =
     (if length p \<le> length s \<and> drop (length s - length p) s = p then take (length s - length p) s else s)"

definition byte_of :: "char \<Rightarrow> nat" where
  "byte_of c = of_char c"

definition is_upper :: "char \<Rightarrow> bool" where
  "is_upper c = (byte_of CHR ''A'' \<le> byte_of c \<and> byte_of c \<le> byte_of CHR ''Z'')"

definition lower_byte :: "char \<Rightarrow> char" where
  "lower_byte c = (if is_upper c then char_of (byte_of c + (byte_of CHR ''a'' - byte_of CHR ''A'')) else c)"

fun scan_name :: "string \<Rightarrow> bool \<Rightarrow> bool option" where
  \<comment> \<open>the first loop of \<^verbatim>\<open>NormalizeQName\<close>, \<open>None\<close> at a byte that is not ASCII\<close>
  "scan_name [] hasUpper = Some hasUpper"
| "scan_name (c # cs) hasUpper =
     (if byte_of c \<ge> 128 then None else scan_name cs (hasUpper \<or> is_upper c))"

definition NormalizeQName :: "string \<Rightarrow> string \<times> xerr option" where
  "NormalizeQName str =
     (if length str = 0 \<or> str = ''.'' then (''.'', None)
      else
        let str = trim_suffix str ''.''
        in case scan_name str False of
             None \<Rightarrow> (str, Some ErrNotAscii)
           | Some hasUpper \<Rightarrow> if \<not> hasUpper then (str, None) else (map lower_byte str, None))"

definition AName :: "rr option \<Rightarrow> string \<times> xerr option" where
  "AName ans = (case ans of Some r \<Rightarrow> NormalizeQName (h_Name (rr_hdr r)) | None \<Rightarrow> ('''', Some ErrNoAns))"

fun target_of :: "rr \<Rightarrow> string" where
  \<comment> \<open>the type switch of \<^verbatim>\<open>Targets\<close>\<close>
  "target_of (RR_A h _) = h_Name h"
| "target_of (RR_AAAA h _) = h_Name h"
| "target_of (RR_CNAME _ t) = t"
| "target_of (RR_SVCB _ p t _) = (if p = 0 \<and> length t > 1 then t else '''')"
| "target_of (RR_HTTPS _ p t _) = (if p = 0 \<and> length t > 1 then t else '''')"
| "target_of _ = ''''"

fun targets_loop :: "dnslib \<Rightarrow> rr list \<Rightarrow> string list \<Rightarrow> string set \<Rightarrow> string list" where
  "targets_loop L [] targets touched = targets"
| "targets_loop L (a # as) targets touched =
     (let target = target_of a
      in if length target \<le> 0 then targets_loop L as targets touched
         else if \<not> lib_IsDomainName L target then targets_loop L as targets touched
         else case NormalizeQName target of
                (x, None) \<Rightarrow>
                  if x \<in> touched then targets_loop L as targets touched
                  else targets_loop L as (targets @ [x]) (insert x touched)
              | (x, Some e) \<Rightarrow> targets_loop L as targets touched)"

definition Targets :: "dnslib \<Rightarrow> dns_msg option \<Rightarrow> string list" where
  "Targets L msg =
     (case msg of None \<Rightarrow> []
      | Some m \<Rightarrow>
          (case NormalizeQName (QName msg) of
             (qname, None) \<Rightarrow> targets_loop L (m_Answer m) [qname] {qname}
           | (qname, Some e) \<Rightarrow> targets_loop L (m_Answer m) [] {}))"

definition last_index :: "string \<Rightarrow> string \<Rightarrow> int" where
  \<comment> \<open>\<^verbatim>\<open>strings.LastIndex\<close> for a pattern that is not empty\<close>
  "last_index s p =
     (case find (\<lambda>i. take (length p) (drop i s) = p) (rev [0..<length s]) of None \<Rightarrow> -1 | Some i \<Rightarrow> int i)"

definition str_slice :: "string \<Rightarrow> int \<Rightarrow> int \<Rightarrow> string option" where
  \<comment> \<open>\<^verbatim>\<open>s[lo:hi]\<close>, which panics out of range\<close>
  "str_slice s lo hi = (if 0 \<le> lo \<and> lo \<le> hi \<and> hi \<le> int (length s) then Some (take (nat (hi - lo)) (drop (nat lo) s)) else None)"

definition extractMDNSDomain :: "string \<Rightarrow> (string \<times> string) option" where
  "extractMDNSDomain qname =
     (let tldarpa4 = last_index qname arpa4suffix;
          tldarpa6 = last_index qname arpa6suffix;
          tldlocal = last_index qname localsuffix
      in if tldlocal > 0 \<and> tldlocal = int (length qname) - int (length localsuffix) then
           do { svc \<leftarrow> str_slice qname 0 (tldlocal - 1); Some (svc, localsuffix) }
         else if tldarpa4 > 0 then
           do { svc \<leftarrow> str_slice qname 0 (tldarpa4 - 1); Some (svc, arpa4suffix) }
         else if tldarpa6 > 0 then
           do { t \<leftarrow> str_slice qname (tldarpa6 - 2) tldarpa6;
                svc \<leftarrow> str_slice qname 0 (tldarpa6 - 3);
                Some (svc, t @ arpa6suffix) }
         else Some ('''', ''''))"

definition ExtractMDNSDomain :: "dns_msg option \<Rightarrow> (string \<times> string) option" where
  "ExtractMDNSDomain msg =
     (if \<not> HasAnyQuestion msg then Some ('''', '''')
      else extractMDNSDomain (fst (NormalizeQName (QName msg))))"

definition IsMDNSQuery :: "string \<Rightarrow> bool option" where
  "IsMDNSQuery qname = do { (svc, _) \<leftarrow> extractMDNSDomain qname; Some (length svc > 0) }"

subsection \<open>Answers\<close>

fun set_ttl :: "rr \<Rightarrow> u32 \<Rightarrow> rr" where
  \<comment> \<open>\<^verbatim>\<open>h.Ttl = secs\<close> through the header\<close>
  "set_ttl (RR_A h x) t = RR_A (h\<lparr>h_Ttl := t\<rparr>) x"
| "set_ttl (RR_AAAA h x) t = RR_AAAA (h\<lparr>h_Ttl := t\<rparr>) x"
| "set_ttl (RR_CNAME h x) t = RR_CNAME (h\<lparr>h_Ttl := t\<rparr>) x"
| "set_ttl (RR_SVCB h p x v) t = RR_SVCB (h\<lparr>h_Ttl := t\<rparr>) p x v"
| "set_ttl (RR_HTTPS h p x v) t = RR_HTTPS (h\<lparr>h_Ttl := t\<rparr>) p x v"
| "set_ttl (RR_HINFO h x y) t = RR_HINFO (h\<lparr>h_Ttl := t\<rparr>) x y"
| "set_ttl (RR_OPT h x) t = RR_OPT (h\<lparr>h_Ttl := t\<rparr>) x"
| "set_ttl (RR_OTHER h x) t = RR_OTHER (h\<lparr>h_Ttl := t\<rparr>) x"

fun with_ttl_loop :: "rr list \<Rightarrow> u32 \<Rightarrow> u16 list \<Rightarrow> bool \<Rightarrow> rr list \<Rightarrow> bool \<times> rr list" where
  "with_ttl_loop [] secs typ ok out = (ok, out)"
| "with_ttl_loop (a # as) secs typ ok out =
     (let h = rr_hdr a
      in if h_Ttl h \<le> 0 \<or> h_Ttl h = secs then with_ttl_loop as secs typ ok (out @ [a])
         else if length typ \<le> 0 \<or> h_Rrtype h \<in> set typ then with_ttl_loop as secs typ True (out @ [set_ttl a secs])
         else with_ttl_loop as secs typ ok (out @ [a]))"

definition WithTtl :: "dns_msg option \<Rightarrow> u32 \<Rightarrow> u16 list \<Rightarrow> bool \<times> dns_msg option" where
  "WithTtl msg secs typ =
     (case msg of None \<Rightarrow> (False, None)
      | Some m \<Rightarrow>
          if \<not> HasAnyAnswer msg then (False, msg)
          else
            let m = m\<lparr>m_AuthenticatedData := False, m_CheckingDisabled := False\<rparr>;
                (ok, ans) = with_ttl_loop (m_Answer m) secs typ False []
            in (ok, Some (m\<lparr>m_Answer := ans\<rparr>)))"

definition BustAndroidCacheIfNeeded :: "dns_msg option \<Rightarrow> bool \<times> dns_msg option" where
  "BustAndroidCacheIfNeeded ans =
     (if BustDnsproxydResNetCache \<and> \<not> IsDNSSECAnswerAuthenticated ans
      then WithTtl ans ZeroTTL [TypeA, TypeAAAA, TypeSVCB, TypeHTTPS, TypeCNAME] else (False, ans))"

definition RTtl :: "dns_msg option \<Rightarrow> u32" where
  "RTtl msg =
     (case msg of None \<Rightarrow> 0
      | Some m \<Rightarrow> if \<not> HasAnyAnswer msg then 0 else fold (\<lambda>a maxttl. max maxttl (h_Ttl (rr_hdr a))) (m_Answer m) 0)"

definition IsARecord :: "rr option \<Rightarrow> bool" where
  "IsARecord r = (case r of None \<Rightarrow> False | Some r \<Rightarrow> h_Rrtype (rr_hdr r) = TypeA)"

fun a_data :: "rr \<Rightarrow> bytes option" where
  \<comment> \<open>\<^verbatim>\<open>rr.(*dns.A)\<close>\<close>
  "a_data (RR_A _ a) = Some a"
| "a_data _ = None"

fun aaaa_data :: "rr \<Rightarrow> bytes option" where
  "aaaa_data (RR_AAAA _ a) = Some a"
| "aaaa_data _ = None"

definition HasAAnswer :: "dns_msg \<Rightarrow> bool" where
  "HasAAnswer m =
     list_ex (\<lambda>r. h_Rrtype (rr_hdr r) = TypeA \<and> (case a_data r of Some a \<Rightarrow> length a \<ge> 4 | None \<Rightarrow> False)) (m_Answer m)"

definition HasAAAAAnswer :: "dns_msg \<Rightarrow> bool" where
  "HasAAAAAnswer m =
     list_ex (\<lambda>r. h_Rrtype (rr_hdr r) = TypeAAAA \<and> (case aaaa_data r of Some a \<Rightarrow> length a = 16 | None \<Rightarrow> False)) (m_Answer m)"

fun unspecified_rr :: "rr \<Rightarrow> bool" where
  "unspecified_rr (RR_AAAA _ a) = ip_equal ipv6zero a"
| "unspecified_rr (RR_A _ a) = ip_equal ipv4zero a"
| "unspecified_rr _ = False"

definition AQuadAUnspecified :: "dns_msg option \<Rightarrow> bool" where
  "AQuadAUnspecified msg = (case msg of None \<Rightarrow> False | Some m \<Rightarrow> list_ex unspecified_rr (m_Answer m))"

definition slice_addr :: "bytes option \<Rightarrow> addr list" where
  "slice_addr b = (case b of None \<Rightarrow> [] | Some s \<Rightarrow> (case addr_from_slice s of (a, True) \<Rightarrow> [a] | _ \<Rightarrow> []))"

fun aquada_rr :: "rr \<Rightarrow> addr list" where
  "aquada_rr (RR_A _ a) = slice_addr (Some a)"
| "aquada_rr (RR_AAAA _ a) = slice_addr (Some a)"
| "aquada_rr _ = []"

definition AQuadAAnswers :: "dns_msg option \<Rightarrow> addr list" where
  "AQuadAAnswers msg = (case msg of None \<Rightarrow> [] | Some m \<Rightarrow> concat (map aquada_rr (m_Answer m)))"

definition IPs :: "dns_msg option \<Rightarrow> addr list" where
  "IPs msg = AQuadAAnswers msg"

definition AAnswer :: "dns_msg option \<Rightarrow> addr list" where
  "AAnswer msg =
     (case msg of None \<Rightarrow> []
      | Some m \<Rightarrow> concat (map (\<lambda>r. if h_Rrtype (rr_hdr r) = TypeA then slice_addr (a_data r) else []) (m_Answer m)))"

definition AAAAAnswer :: "dns_msg option \<Rightarrow> addr list" where
  "AAAAAnswer msg =
     (case msg of None \<Rightarrow> []
      | Some m \<Rightarrow> concat (map (\<lambda>r. if h_Rrtype (rr_hdr r) = TypeAAAA then slice_addr (aaaa_data r) else []) (m_Answer m)))"

subsection \<open>Synthesized answers\<close>

definition mk_hdr :: "string \<Rightarrow> u16 \<Rightarrow> u16 \<Rightarrow> u32 \<Rightarrow> rr_header" where
  "mk_hdr n t c ttl = \<lparr>h_Name = n, h_Rrtype = t, h_Class = c, h_Ttl = ttl\<rparr>"

definition RefusedResponseFromMessage :: "dnslib \<Rightarrow> dns_msg option \<Rightarrow> dns_msg option \<times> xerr option" where
  "RefusedResponseFromMessage L srcMsg =
     (case srcMsg of None \<Rightarrow> (None, Some ErrNoPacket)
      | Some src \<Rightarrow>
          (case EmptyResponseFromMessage L srcMsg of
             None \<Rightarrow> (None, Some ErrNoPacket)
           | Some dst \<Rightarrow>
               let dst = dst\<lparr>m_Rcode := RcodeSuccess\<rparr>; ttl = blockTTL; questions = m_Question src
               in if length questions = 0 then (Some dst, None)
                  else
                    let question = questions ! 0; qn = q_Name question;
                        (dst, sendHInfoResponse) =
                          (if q_Qtype question = TypeA then
                             let rr_A = ip_to4 ipv4zero
                             in if rr_A \<noteq> [] then (dst\<lparr>m_Answer := [RR_A (mk_hdr qn TypeA ClassINET ttl) rr_A]\<rparr>, False)
                                else (dst, True)
                           else if q_Qtype question = TypeAAAA then
                             let rr_AAAA = ip_to16 ipv6zero
                             in if rr_AAAA \<noteq> [] then (dst\<lparr>m_Answer := [RR_AAAA (mk_hdr qn TypeAAAA ClassINET ttl) rr_AAAA]\<rparr>, False)
                                else (dst, True)
                           else if IsSVCBQuestion question \<or> IsHTTPQuestion question then
                             (dst\<lparr>m_Answer := [], m_Extra := []\<rparr>, False)
                           else (dst, True))
                    in (Some (if sendHInfoResponse
                              then dst\<lparr>m_Answer := [RR_HINFO (mk_hdr qn TypeHINFO ClassINET ttl)
                                         ''These are not the queries you are'' ''looking for'']\<rparr>
                              else dst), None)))"

definition BlockResponseFromMessage :: "dnslib \<Rightarrow> bytes \<Rightarrow> dns_msg option \<times> xerr option" where
  "BlockResponseFromMessage L q =
     (case lib_Unpack L q of None \<Rightarrow> (Some zero_msg, Some ErrUnpack) | Some r \<Rightarrow> RefusedResponseFromMessage L (Some r))"

fun aquada_loop :: "addr list \<Rightarrow> question \<Rightarrow> u32 \<Rightarrow> bool \<Rightarrow> rr list \<Rightarrow> bool \<times> rr list" where
  "aquada_loop [] question ttl hasanswers out = (hasanswers, out)"
| "aquada_loop (ip # ips) question ttl hasanswers out =
     (let ipun = unmap ip; v4 = is4 ipun; v6 = is6 ip
      in if q_Qtype question = TypeA \<and> v4 then
           (if length (as_slice ipun) > 0
            then aquada_loop ips question ttl True (out @ [RR_A (mk_hdr (q_Name question) TypeA ClassINET ttl) (as_slice ipun)])
            else aquada_loop ips question ttl hasanswers out)
         else if q_Qtype question = TypeAAAA \<and> v6 then
           (if length (as_slice ip) > 0
            then aquada_loop ips question ttl True (out @ [RR_AAAA (mk_hdr (q_Name question) TypeAAAA ClassINET ttl) (as_slice ip)])
            else aquada_loop ips question ttl hasanswers out)
         else aquada_loop ips question ttl hasanswers out)"

definition AQuadAForQueryTTL :: "dnslib \<Rightarrow> dns_msg option \<Rightarrow> u32 \<Rightarrow> addr list \<Rightarrow> dns_msg option \<times> xerr option" where
  "AQuadAForQueryTTL L q ttl ips =
     (case q of None \<Rightarrow> (None, Some ErrNoPacket)
      | Some qm \<Rightarrow>
          (case EmptyResponseFromMessage L q of
             None \<Rightarrow> (None, Some ErrNoPacket)
           | Some a \<Rightarrow>
               let a = a\<lparr>m_Rcode := RcodeSuccess\<rparr>; questions = m_Question qm
               in if length questions = 0 then (Some a, None)
                  else
                    (case aquada_loop ips (questions ! 0) ttl False (m_Answer a) of
                       (hasanswers, ans) \<Rightarrow>
                         if \<not> hasanswers then (None, Some ErrNoAns) else (Some (a\<lparr>m_Answer := ans\<rparr>), None))))"

definition AQuadAForQuery :: "dnslib \<Rightarrow> dns_msg option \<Rightarrow> addr list \<Rightarrow> dns_msg option \<times> xerr option" where
  "AQuadAForQuery L q ips = AQuadAForQueryTTL L q ansTTL ips"

fun translate_loop :: "rr list \<Rightarrow> u16 \<Rightarrow> (rr \<Rightarrow> rr list \<times> bool) \<Rightarrow> rr list \<Rightarrow> bool \<Rightarrow> rr list \<times> bool" where
  \<comment> \<open>an empty translation is nil\<close>
  "translate_loop [] typ translate rrout did = (rrout, did)"
| "translate_loop (r # rs) typ translate rrout did =
     (if h_Rrtype (rr_hdr r) \<noteq> typ then translate_loop rs typ translate (rrout @ [r]) did
      else case translate r of
             (rrx, stop) \<Rightarrow>
               if rrx = [] then
                 if stop then (rrout @ [r], did) else translate_loop rs typ translate (rrout @ [r]) did
               else if stop then (rrout @ rrx, True) else translate_loop rs typ translate (rrout @ rrx) True)"

definition TranslateRecords :: "dnslib \<Rightarrow> dns_msg option \<Rightarrow> u16 \<Rightarrow> (rr \<Rightarrow> rr list \<times> bool) \<Rightarrow> dns_msg option \<times> bool" where
  "TranslateRecords L ansin typ translate =
     (case ansin of None \<Rightarrow> (None, False)
      | Some m \<Rightarrow>
          if \<not> HasAnyAnswer ansin then (None, False)
          else case EmptyResponseFromMessage L ansin of
                 None \<Rightarrow> (None, False)
               | Some ansout \<Rightarrow>
                   (case translate_loop (m_Answer m) typ translate [] False of
                      (rrout, did) \<Rightarrow> (Some (ansout\<lparr>m_Answer := m_Answer ansout @ rrout\<rparr>), did)))"

fun subst_kvs :: "u16 \<Rightarrow> bytes \<Rightarrow> svcb_kv list \<Rightarrow> svcb_kv list \<times> nat" where
  \<comment> \<open>the loop over the values of one record, with the number of hints replaced\<close>
  "subst_kvs x ip [] = ([], 0)"
| "subst_kvs x ip (kv # r) =
     (case subst_kvs x ip r of
        (r', n) \<Rightarrow>
          if kv_Key kv = x \<and> x = SVCB_IPV6HINT then (SVCBIPv6Hint [ip] # r', n + 1)
          else if kv_Key kv = x \<and> x = SVCB_IPV4HINT then (SVCBIPv4Hint [ip] # r', n + 1)
          else (kv # r', n))"

definition with_hits :: "nat \<Rightarrow> rr \<Rightarrow> u32 \<Rightarrow> rr" where
  "with_hits n r ttl = (if n > 0 then set_ttl r ttl else r)"

fun subst_svcb_rr :: "u16 \<Rightarrow> bytes \<Rightarrow> u32 \<Rightarrow> rr \<Rightarrow> rr \<times> nat" where
  "subst_svcb_rr x ip ttl (RR_SVCB h p t v) =
     (case subst_kvs x ip v of (v', n) \<Rightarrow> (with_hits n (RR_SVCB h p t v') ttl, n))"
| "subst_svcb_rr x ip ttl (RR_HTTPS h p t v) =
     (if p = 0 \<or> length t > 1 then (RR_HTTPS h p t v, 0)
      else case subst_kvs x ip v of (v', n) \<Rightarrow> (with_hits n (RR_HTTPS h p t v') ttl, n))"
| "subst_svcb_rr x ip ttl r = (r, 0)"

definition SubstSVCBRecordIPs :: "dns_msg option \<Rightarrow> u16 \<Rightarrow> addr \<Rightarrow> u32 \<Rightarrow> bool \<times> dns_msg option" where
  "SubstSVCBRecordIPs out x subiphints ttl =
     (case out of None \<Rightarrow> (False, None)
      | Some m \<Rightarrow>
          if \<not> is_valid subiphints then (False, out)
          else
            let rs = map (subst_svcb_rr x (as_slice subiphints) ttl) (m_Answer m);
                i = sum_list (map snd rs);
                m = m\<lparr>m_Answer := map fst rs\<rparr>
            in (i > 0, Some (if i > 0 then m\<lparr>m_Extra := []\<rparr> else m)))"

definition IsZeroPrefix :: "ipnet \<Rightarrow> bool" where
  "IsZeroPrefix pfx = (ip_equal [] (net_IP pfx) \<and> net_Mask pfx = [])"

fun ip4to6_loop :: "nat list \<Rightarrow> nat \<Rightarrow> bytes \<Rightarrow> bytes \<Rightarrow> bytes option" where
  "ip4to6_loop [] ipShift ip4 ip6 = Some ip6"
| "ip4to6_loop (i # is) ipShift ip4 ip6 =
     (let ipShift = (if ipShift + i = 8 then ipShift + 1 else ipShift)
      in do { v \<leftarrow> get8 ip4 i; ip6 \<leftarrow> put8 ip6 (ipShift + i) v; ip4to6_loop is ipShift ip4 ip6 })"

definition xdns_ip4to6 :: "ipnet \<Rightarrow> bytes \<Rightarrow> bytes option" where
  \<comment> \<open>\<^verbatim>\<open>ip4to6\<close> of \<^verbatim>\<open>xdns\<close>\<close>
  "xdns_ip4to6 prefix6 ip4 =
     (let ip6 = replicate 16 0
      in if length (net_IP prefix6) \<le> 0 \<or> length ip4 \<le> 0 then Some ip6
         else let ip6 = overlay ip6 0 (net_IP prefix6); n = fst (mask_size (net_Mask prefix6))
              in ip4to6_loop [0, 1, 2, 3] (n div 8) ip4 ip6)"

definition MaybeToQuadA :: "rr \<Rightarrow> ipnet \<Rightarrow> rr option option" where
  \<comment> \<open>the outer option is the panic of \<^verbatim>\<open>ip4to6\<close>\<close>
  "MaybeToQuadA answer prefix =
     (if IsZeroPrefix prefix then Some None
      else
        let header = rr_hdr answer
        in if h_Rrtype header \<noteq> TypeA then Some None
           else case a_data answer of
                  None \<Rightarrow> Some None
                | Some ipxx \<Rightarrow>
                    let ipv4 = ip_to4 ipxx
                    in if ipv4 = [] then Some None
                       else
                         let ttl = max ansTTL (h_Ttl header)
                         in do { ipv6 \<leftarrow> xdns_ip4to6 prefix ipv4;
                                 if length ipv6 \<noteq> 16 \<or> ip_equal ipv6 ipv6zero then Some None
                                 else Some (Some (RR_AAAA (mk_hdr (h_Name header) TypeAAAA (h_Class header) ttl) ipv6)) })"

definition CloneA :: "rr \<Rightarrow> addr \<Rightarrow> rr option" where
  "CloneA base ip4 =
     (let header = rr_hdr base
      in if \<not> is_valid ip4 \<or> \<not> is4 ip4 \<or> h_Rrtype header \<noteq> TypeA then None
         else case a_data base of
                None \<Rightarrow> None
              | Some a \<Rightarrow>
                  if a = [] then None
                  else Some (RR_A (mk_hdr (h_Name header) TypeA (h_Class header) (max ansTTL (h_Ttl header))) (as_slice (unmap ip4))))"

definition CloneAAAA :: "rr \<Rightarrow> addr \<Rightarrow> rr option" where
  "CloneAAAA base ip6 =
     (let header = rr_hdr base
      in if \<not> is_valid ip6 \<or> \<not> is6 ip6 \<or> h_Rrtype header \<noteq> TypeAAAA then None
         else case aaaa_data base of
                None \<Rightarrow> None
              | Some a \<Rightarrow>
                  if a = [] then None
                  else Some (RR_AAAA (mk_hdr (h_Name header) TypeAAAA (h_Class header) (max ansTTL (h_Ttl header))) (as_slice ip6)))"

subsection \<open>EDNS padding\<close>

definition opt_options :: "rr \<Rightarrow> edns0 list" where
  "opt_options r = (case r of RR_OPT _ os \<Rightarrow> os | _ \<Rightarrow> [])"

definition set_options :: "rr \<Rightarrow> edns0 list \<Rightarrow> rr" where
  "set_options r os = (case r of RR_OPT h _ \<Rightarrow> RR_OPT h os | _ \<Rightarrow> r)"

definition RemoveEDNS0Options :: "dnslib \<Rightarrow> dns_msg option \<Rightarrow> bool \<times> dns_msg option" where
  "RemoveEDNS0Options L msg =
     (case msg of None \<Rightarrow> (False, None)
      | Some m \<Rightarrow>
          (case lib_IsEdns0 L m of
             None \<Rightarrow> (False, msg)
           | Some i \<Rightarrow> (True, Some (m\<lparr>m_Extra := (m_Extra m)[i := set_options (m_Extra m ! i) []]\<rparr>))))"

definition ensureEDNS0 :: "dnslib \<Rightarrow> dns_msg \<Rightarrow> nat option \<times> dns_msg" where
  "ensureEDNS0 L msg =
     (case lib_IsEdns0 L msg of
        None \<Rightarrow> let msg = lib_SetEdns0 L (of_nat MaxDNSPacketSize) False msg in (lib_IsEdns0 L msg, msg)
      | Some i \<Rightarrow> (Some i, msg))"

definition optPadding :: "nat \<Rightarrow> edns0" where
  "optPadding sz = EDNS0_PADDING (replicate sz 0)"

definition ComputePaddingSize :: "dnslib \<Rightarrow> dns_msg option \<Rightarrow> nat" where
  "ComputePaddingSize L msg =
     (case msg of None \<Rightarrow> 0
      | Some m \<Rightarrow>
          let msgLen = lib_Len L m; extraPadding = optPaddingHeaderLen;
              padSize = paddingBlockSize - (msgLen + extraPadding) mod paddingBlockSize
          in padSize mod paddingBlockSize)"

fun edns0padlen_loop :: "edns0 list \<Rightarrow> int" where
  "edns0padlen_loop [] = -1"
| "edns0padlen_loop (EDNS0_PADDING p # r) = int (length p)"
| "edns0padlen_loop (EDNS0_OTHER _ _ # r) = edns0padlen_loop r"

definition edns0padlen :: "rr option \<Rightarrow> int" where
  "edns0padlen e = (case e of None \<Rightarrow> -1 | Some r \<Rightarrow> edns0padlen_loop (opt_options r))"

definition EDNS0PadLen :: "dnslib \<Rightarrow> dns_msg option \<Rightarrow> int" where
  "EDNS0PadLen L msg =
     (case msg of None \<Rightarrow> -1 | Some m \<Rightarrow> edns0padlen (map_option (\<lambda>i. m_Extra m ! i) (lib_IsEdns0 L m)))"

definition AddEDNS0PaddingIfNoneFound :: "dnslib \<Rightarrow> dns_msg option \<Rightarrow> dns_msg option" where
  "AddEDNS0PaddingIfNoneFound L msg =
     (case msg of None \<Rightarrow> None
      | Some m \<Rightarrow>
          (case ensureEDNS0 L m of
             (None, m) \<Rightarrow> Some m
           | (Some i, m) \<Rightarrow>
               if edns0padlen (Some (m_Extra m ! i)) \<ge> 0 then Some m
               else
                 let paddingLen = ComputePaddingSize L (Some m)
                 in if paddingLen \<le> 0 then Some m
                    else Some (m\<lparr>m_Extra := (m_Extra m)[i := set_options (m_Extra m ! i) (opt_options (m_Extra m ! i) @ [optPadding paddingLen])]\<rparr>)))"

subsection \<open>Framing and identifiers\<close>

definition PrefixWithSize :: "bytes \<Rightarrow> bytes \<times> xerr option" where
  "PrefixWithSize packet =
     (if length packet > MaxMTU then (packet, Some ErrMassivePkt)
      else
        let packet = (packet @ [0]) @ [0];
            packet = overlay packet 2 (take (length packet - 2) packet);
            packet = overlay packet 0 (be_bytes 2 (unat (of_nat (length packet - 2) :: u16)))
        in (packet, None))"

text \<open>
  \<^verbatim>\<open>ReadPrefixed\<close> on a connection that delivers the given chunks, each cut to the room left in the buffer;
  \<open>None\<close> when the connection has no more to say and the loop waits.
\<close>

primrec read_prefixed_loop :: "bytes list \<Rightarrow> bytes \<Rightarrow> int \<Rightarrow> (xerr + bytes) option" where
  "read_prefixed_loop [] buf packetLength = None"
| "read_prefixed_loop (chunk # chunks) buf packetLength =
     (let readnb = min (length chunk) (2 + MaxDNSPacketSize - length buf);
          buf = buf @ take readnb chunk;
          pos = length buf;
          packetLength' = (if pos \<ge> 2 \<and> packetLength < 0 then int (be_val (take 2 buf)) else packetLength)
      in if pos \<ge> 2 \<and> packetLength < 0 \<and> packetLength' > int MaxDNSPacketSize - 1 then Some (Inl ErrRespTooLarge)
         else if pos \<ge> 2 \<and> packetLength < 0 \<and> packetLength' < int MinDNSPacketSize then Some (Inl ErrRespTooShort)
         else if packetLength' \<ge> 0 \<and> int pos \<ge> 2 + packetLength' then Some (Inr (take (nat packetLength') (drop 2 buf)))
         else read_prefixed_loop chunks buf packetLength')"

definition ReadPrefixed :: "bytes list \<Rightarrow> (xerr + bytes) option" where
  "ReadPrefixed chunks = read_prefixed_loop chunks [] (-1)"

fun split_at :: "char \<Rightarrow> string \<Rightarrow> string list" where
  \<comment> \<open>\<^verbatim>\<open>strings.Split\<close> at a one-byte separator\<close>
  "split_at c [] = [[]]"
| "split_at c (x # xs) =
     (if x = c then [] # split_at c xs
      else case split_at c xs of [] \<Rightarrow> [[x]] | (w # ws) \<Rightarrow> (x # w) # ws)"

fun join_with :: "char \<Rightarrow> string list \<Rightarrow> string" where
  \<comment> \<open>\<^verbatim>\<open>strings.Join\<close>\<close>
  "join_with c [] = []"
| "join_with c [w] = w"
| "join_with c (w # ws) = w @ c # join_with c ws"

definition firstEmpty :: "string list \<Rightarrow> bool" where
  "firstEmpty arr = (length arr \<le> 0 \<or> length (arr ! 0) \<le> 0)"

definition Net2ProxyID :: "string \<Rightarrow> string \<times> string list" where
  "Net2ProxyID network =
     (let x = split_at CHR '':'' network
      in if length x \<le> 0 then ('''', [])
         else
           let proto = (if length x \<ge> 1 then x ! 0 else '''');
               pids = (if length x \<ge> 2 then let pids = split_at CHR '','' (x ! 1) in if firstEmpty pids then [] else pids else [])
           in (proto, pids))"

definition NetAndProxyID :: "string \<Rightarrow> string list \<Rightarrow> string" where
  "NetAndProxyID proto pidcsv = proto @ '':'' @ join_with CHR '','' pidcsv"

fun find_unique_loop :: "string list \<Rightarrow> string list \<Rightarrow> string list \<Rightarrow> string list" where
  "find_unique_loop [] s u = u"
| "find_unique_loop (e # n) s u = find_unique_loop n s (if e \<notin> set s then u @ [e] else u)"

definition FindUnique :: "string list \<Rightarrow> string list \<Rightarrow> string list" where
  "FindUnique s n = (if length s = 0 then n else if length n = 0 then [] else find_unique_loop n s [])"

subsection \<open>Names\<close>

lemma scan_name_eq:
  "scan_name cs u = (if list_ex (\<lambda>c. 128 \<le> byte_of c) cs then None else Some (u \<or> list_ex is_upper cs))"
  by (induction cs u rule: scan_name.induct) auto

lemma map_lower_id: "\<not> list_ex is_upper cs \<Longrightarrow> map lower_byte cs = cs"
  by (induction cs) (auto simp: lower_byte_def)

lemma NormalizeQName_eq:
  assumes "str \<noteq> ''''" "str \<noteq> ''.''"
  shows "NormalizeQName str =
    (let t = trim_suffix str ''.''
     in if list_ex (\<lambda>c. 128 \<le> byte_of c) t then (t, Some ErrNotAscii) else (map lower_byte t, None))"
  using assms map_lower_id by (simp add: NormalizeQName_def Let_def scan_name_eq)

lemma last_index_range: "last_index s p = -1 \<or> (0 \<le> last_index s p \<and> last_index s p < int (length s))"
proof (cases "find (\<lambda>i. take (length p) (drop i s) = p) (rev [0..<length s])")
  case (Some i)
  then have "i \<in> set (rev [0..<length s])" by (metis find_Some_iff nth_mem)
  then show ?thesis using Some by (simp add: last_index_def)
qed (simp add: last_index_def)

lemma str_slice_some: "0 \<le> lo \<Longrightarrow> lo \<le> hi \<Longrightarrow> hi \<le> int (length s) \<Longrightarrow> \<exists>t. str_slice s lo hi = Some t"
  by (simp add: str_slice_def)

text \<open>
  C36: \<^verbatim>\<open>extractMDNSDomain\<close> slices out of range, and so panics, exactly on names that are neither under
  \<^verbatim>\<open>local\<close> nor contain the IPv4 link-local zone, and whose last occurrence of the IPv6 link-local
  zone starts at the second or third byte: among them the four zones it is written for,
  such as \<^verbatim>\<open>8.e.f.ip6.arpa\<close>.
\<close>

theorem mdns_panics_iff:
  "(extractMDNSDomain qname = None \<longleftrightarrow>
     \<not> (last_index qname localsuffix > 0 \<and> last_index qname localsuffix = int (length qname) - 5) \<and>
     \<not> last_index qname arpa4suffix > 0 \<and> last_index qname arpa6suffix \<in> {1, 2}) \<and>
   IsMDNSQuery ''8.e.f.ip6.arpa'' = None \<and> IsMDNSQuery ''b.e.f.ip6.arpa'' = None \<and>
   IsMDNSQuery ''1.8.e.f.ip6.arpa'' = Some True"
  (is "?A \<and> ?B \<and> ?C \<and> ?D")
proof (intro conjI)
  have len: "length localsuffix = 5" by (simp add: localsuffix_def)
  have "last_index qname arpa6suffix < int (length qname)" "last_index qname arpa4suffix < int (length qname)"
    "last_index qname localsuffix < int (length qname)" if "0 < length qname"
    using last_index_range that by (metis less_minus_one_simps(1) of_nat_0_less_iff order.strict_trans)+
  moreover have "last_index qname p = -1" if "length qname = 0" for p
    using that by (simp add: last_index_def)
  ultimately show ?A
    by (cases "length qname = 0") (auto simp: extractMDNSDomain_def Let_def len str_slice_def bind_eq_None_conv)
  show ?B ?C ?D
    by (simp_all add: IsMDNSQuery_def extractMDNSDomain_def last_index_def str_slice_def arpa4suffix_def
        arpa6suffix_def localsuffix_def upt_conv_Cons Let_def)
qed

subsection \<open>Time to live\<close>

lemma with_ttl_loop_eq:
  "with_ttl_loop as secs ty ok out =
     (ok \<or> list_ex (\<lambda>a. h_Ttl (rr_hdr a) \<noteq> 0 \<and> h_Ttl (rr_hdr a) \<noteq> secs \<and> (ty = [] \<or> h_Rrtype (rr_hdr a) \<in> set ty)) as,
      out @ map (\<lambda>a. if h_Ttl (rr_hdr a) \<noteq> 0 \<and> h_Ttl (rr_hdr a) \<noteq> secs \<and> (ty = [] \<or> h_Rrtype (rr_hdr a) \<in> set ty)
                     then set_ttl a secs else a) as)"
  by (induction as secs ty ok out rule: with_ttl_loop.induct) (auto simp: Let_def)

lemma rr_hdr_set_ttl [simp]: "rr_hdr (set_ttl r t) = (rr_hdr r)\<lparr>h_Ttl := t\<rparr>"
  by (cases r) simp_all

definition cached_types :: "u16 list" where
  "cached_types = [TypeA, TypeAAAA, TypeSVCB, TypeHTTPS, TypeCNAME]"


subsection \<open>Blocking\<close>

definition empty_of :: "dns_msg \<Rightarrow> rr list \<Rightarrow> dns_msg" where
  "empty_of m extra = m\<lparr>m_Compress := True, m_Answer := [], m_Ns := [], m_Extra := extra, m_Response := True,
     m_RecursionAvailable := (m_RecursionDesired m \<or> m_RecursionAvailable m),
     m_RecursionDesired := False, m_CheckingDisabled := False, m_AuthenticatedData := False\<rparr>"

lemma EmptyResponse_eq:
  assumes "dnslib_ok L" "m_Question m \<noteq> []"
  shows "\<exists>extra. EmptyResponseFromMessage L (Some m) = Some (empty_of m extra)"
proof -
  have d: "EmptyResponseFromMessage L (Some m) =
      Some (case lib_IsEdns0 L m of None \<Rightarrow> empty_of m []
            | Some i \<Rightarrow> lib_SetEdns0 L (lib_UDPSize L (m_Extra m ! i)) (lib_Do L (m_Extra m ! i)) (empty_of m []))"
    using assms(2) by (cases "lib_IsEdns0 L m"; cases "m_RecursionDesired m"; cases m)
      (simp_all add: EmptyResponseFromMessage_def HasAnyQuestion_def empty_of_def)
  have e: "\<exists>extra. lib_SetEdns0 L s b (empty_of m []) = empty_of m extra" for s b
  proof -
    obtain h where "lib_SetEdns0 L s b (empty_of m []) = (empty_of m [])\<lparr>m_Extra := m_Extra (empty_of m []) @ [RR_OPT h []]\<rparr>"
      using assms(1) unfolding dnslib_ok_def by blast
    then have "lib_SetEdns0 L s b (empty_of m []) = empty_of m [RR_OPT h []]" by (simp add: empty_of_def)
    then show ?thesis by blast
  qed
  show ?thesis unfolding d using e by (cases "lib_IsEdns0 L m") auto
qed

lemma empty_of_simps [simp]:
  "m_Question (empty_of m x) = m_Question m" "m_Answer (empty_of m x) = []" "m_Id (empty_of m x) = m_Id m"
  "m_Response (empty_of m x)" "m_Extra (empty_of m x) = x" "\<not> m_AuthenticatedData (empty_of m x)"
  by (simp_all add: empty_of_def)


subsection \<open>A concrete library\<close>

text \<open>A minimal DNS library that behaves as documented, for the witnesses.\<close>

fun is_opt :: "rr \<Rightarrow> bool" where
  "is_opt (RR_OPT _ _) = True"
| "is_opt _ = False"

definition mini_lib :: dnslib where
  "mini_lib =
     \<lparr>lib_Unpack = (\<lambda>_. None), lib_Pack = (\<lambda>_. None), lib_Len = (\<lambda>m. 12 + length (m_Question m) * 16),
      lib_SetQuestion = (\<lambda>n t m. m\<lparr>m_Id := 0, m_RecursionDesired := True,
                            m_Question := [\<lparr>q_Name = n, q_Qtype = t, q_Qclass = ClassINET\<rparr>]\<rparr>),
      lib_IsEdns0 = (\<lambda>m. find (\<lambda>i. is_opt (m_Extra m ! i)) [0..<length (m_Extra m)]),
      lib_SetEdns0 = (\<lambda>s d m. m\<lparr>m_Extra := m_Extra m @ [RR_OPT (mk_hdr ''.'' 41 s 0) []]\<rparr>),
      lib_UDPSize = (\<lambda>r. h_Class (rr_hdr r)), lib_Do = (\<lambda>_. False), lib_IsDomainName = (\<lambda>s. s \<noteq> ''.'')\<rparr>"

lemma mini_lib_ok: "dnslib_ok mini_lib"
proof -
  have "i < length (m_Extra m) \<and> (\<exists>h os. m_Extra m ! i = RR_OPT h os)"
    if "find (\<lambda>i. is_opt (m_Extra m ! i)) [0..<length (m_Extra m)] = Some i" for m i
  proof -
    have "i \<in> set [0..<length (m_Extra m)]" "is_opt (m_Extra m ! i)"
      using that by (metis find_Some_iff nth_mem)+
    then show ?thesis by (cases "m_Extra m ! i") auto
  qed
  then show ?thesis unfolding dnslib_ok_def mini_lib_def by auto
qed

definition query_a :: dns_msg where
  "query_a = zero_msg\<lparr>m_Id := 7, m_Question := [\<lparr>q_Name = ''a.b.'', q_Qtype = TypeA, q_Qclass = ClassINET\<rparr>]\<rparr>"


subsection \<open>Synthesized addresses\<close>

lemma length_as_slice [simp]: "length (as_slice (Addr4 a)) = 4" "length (as_slice (Addr6 b)) = 16"
  by simp_all

definition picked :: "u16 \<Rightarrow> addr list \<Rightarrow> addr list" where
  \<comment> \<open>the addresses that answer a question of the type\<close>
  "picked t ips = (if t = TypeA then filter is4 (map unmap ips) else if t = TypeAAAA then filter is6 ips else [])"

definition rrs_of :: "question \<Rightarrow> u32 \<Rightarrow> addr \<Rightarrow> rr list" where
  "rrs_of q ttl ip =
     (if q_Qtype q = TypeA \<and> is4 (unmap ip) then [RR_A (mk_hdr (q_Name q) TypeA ClassINET ttl) (as_slice (unmap ip))]
      else if q_Qtype q = TypeAAAA \<and> is6 ip then [RR_AAAA (mk_hdr (q_Name q) TypeAAAA ClassINET ttl) (as_slice ip)]
      else [])"

lemma aquada_loop_step:
  "aquada_loop (ip # ips) q ttl had out = aquada_loop ips q ttl (had \<or> rrs_of q ttl ip \<noteq> []) (out @ rrs_of q ttl ip)"
proof -
  have "is4 (unmap ip) \<Longrightarrow> length (as_slice (unmap ip)) > 0" by (cases "unmap ip") simp_all
  moreover have "is6 ip \<Longrightarrow> length (as_slice ip) > 0" by (cases ip) simp_all
  ultimately show ?thesis by (simp add: rrs_of_def Let_def)
qed

lemma aquada_loop_eq:
  "aquada_loop ips q ttl had out = (had \<or> concat (map (rrs_of q ttl) ips) \<noteq> [], out @ concat (map (rrs_of q ttl) ips))"
proof (induction ips arbitrary: had out)
  case (Cons ip ips)
  then show ?case unfolding aquada_loop_step by auto
qed simp

lemma slice_addr_as_slice [simp]: "a \<noteq> AddrZero \<Longrightarrow> slice_addr (Some (as_slice a)) = [a]"
  using addr_from_slice_as_slice [of a] by (simp add: slice_addr_def)

lemma rrs_of_ips: "concat (map aquada_rr (rrs_of q ttl ip)) = picked (q_Qtype q) [ip]"
proof -
  have "is4 a \<or> is6 a \<Longrightarrow> a \<noteq> AddrZero" for a by auto
  then have "slice_addr (Some (as_slice a)) = [a]" if "is4 a \<or> is6 a" for a
    using that slice_addr_as_slice by blast
  then show ?thesis by (simp add: rrs_of_def picked_def del: is4_def is6_def slice_addr_as_slice)
qed

lemma picked_Cons: "picked t (ip # ips) = picked t [ip] @ picked t ips"
  by (simp add: picked_def)

lemma aquada_loop_ips: "concat (map aquada_rr (concat (map (rrs_of q ttl) ips))) = picked (q_Qtype q) ips"
proof (induction ips)
  case (Cons ip ips)
  show ?case unfolding picked_Cons [of _ ip ips] using Cons by (simp add: rrs_of_ips)
qed (simp add: picked_def)

lemma aquada_none: "concat (map (rrs_of q ttl) ips) = [] \<longleftrightarrow> picked (q_Qtype q) ips = []"
proof (induction ips)
  case (Cons ip ips)
  have "rrs_of q ttl ip = [] \<longleftrightarrow> picked (q_Qtype q) [ip] = []" by (simp add: rrs_of_def picked_def)
  then show ?case unfolding picked_Cons [of _ ip ips] using Cons by simp
qed (simp add: picked_def)

text \<open>
  C20: \<^verbatim>\<open>AQuadAForQuery\<close> answers a query with exactly the given addresses that fit the question, in
  order: reading the addresses back from the answer returns them (IPv4 ones unmapped), and it fails
  exactly when none fits.
\<close>

theorem AQuadA_roundtrip:
  assumes "dnslib_ok L" "m_Question m = q # qs"
  shows "if picked (q_Qtype q) ips = [] then AQuadAForQuery L (Some m) ips = (None, Some ErrNoAns)
    else \<exists>r. AQuadAForQuery L (Some m) ips = (Some r, None) \<and> IPs (Some r) = picked (q_Qtype q) ips \<and>
      m_Id r = m_Id m \<and> m_Question r = m_Question m \<and> m_Rcode r = RcodeSuccess"
proof -
  obtain extra where e: "EmptyResponseFromMessage L (Some m) = Some (empty_of m extra)"
    using EmptyResponse_eq [OF assms(1), of m] assms(2) by auto
  let ?rs = "concat (map (rrs_of q ansTTL) ips)"
  have "AQuadAForQuery L (Some m) ips =
     (if ?rs = [] then (None, Some ErrNoAns) else (Some ((empty_of m extra)\<lparr>m_Rcode := RcodeSuccess, m_Answer := ?rs\<rparr>), None))"
    by (simp add: AQuadAForQuery_def AQuadAForQueryTTL_def e assms(2) aquada_loop_eq Let_def del: ansTTL_def concat_eq_Nil_conv)
  then show ?thesis unfolding aquada_none
    using aquada_loop_ips [of q ansTTL ips] by (auto simp: IPs_def AQuadAAnswers_def simp del: ansTTL_def)
qed

theorem AQuadA_roundtrip_witness:
  "\<exists>r. AQuadAForQuery mini_lib (Some query_a) [Addr6 5, Addr4 9] = (Some r, None) \<and> IPs (Some r) = [Addr4 9]"
proof -
  have "picked TypeA [Addr6 5, Addr4 9] = [Addr4 9]" by code_simp
  then show ?thesis
    using AQuadA_roundtrip [OF mini_lib_ok, of query_a "\<lparr>q_Name = ''a.b.'', q_Qtype = TypeA, q_Qclass = ClassINET\<rparr>" "[]" "[Addr6 5, Addr4 9]"]
    by (auto simp: query_a_def)
qed

subsection \<open>Padding\<close>

text \<open>
  The padding computed for a message is less than a block, and with its option header it brings the
  length of the message to a multiple of the block size.
\<close>

theorem padding_aligns:
  "ComputePaddingSize L (Some m) < 128 \<and> 128 dvd lib_Len L m + 4 + ComputePaddingSize L (Some m)"
proof -
  define n where "n = lib_Len L m + 4"
  have p: "ComputePaddingSize L (Some m) = (128 - n mod 128) mod 128"
    by (simp add: ComputePaddingSize_def n_def)
  have "(n + (128 - n mod 128) mod 128) mod 128 = (n mod 128 + (128 - n mod 128)) mod 128"
    by (metis mod_add_left_eq mod_add_right_eq)
  also have "\<dots> = 128 mod 128" by (metis le_add_diff_inverse less_imp_le mod_less_divisor zero_less_numeral)
  finally have "128 dvd n + (128 - n mod 128) mod 128" by (simp only: dvd_eq_mod_eq_0 mod_self)
  then show ?thesis unfolding p using n_def by (metis mod_less_divisor zero_less_numeral)
qed

subsection \<open>Framing\<close>

lemma PrefixWithSize_eq:
  "length p \<le> 65535 \<Longrightarrow> PrefixWithSize p = (be_bytes 2 (length p) @ p, None)"
proof -
  assume l: "length p \<le> 65535"
  have "overlay (p @ [0, 0]) 2 p = take 2 (p @ [0, 0]) @ p" by (simp add: overlay_def)
  moreover have "length (take 2 (p @ [0, 0])) = 2" by simp
  ultimately have "overlay (overlay (p @ [0, 0]) 2 p) 0 (be_bytes 2 (length p)) = be_bytes 2 (length p) @ p"
    using overlay_0_append [of "take 2 (p @ [0, 0])" "be_bytes 2 (length p)" p] by simp
  then show ?thesis using l by (simp add: PrefixWithSize_def Let_def)
qed

lemma read_prefixed_step:
  assumes room: "length (buf @ c) \<le> 4098"
    and pl': "pl' = (if 2 \<le> length (buf @ c) \<and> pl < 0 then int (be_val (take 2 (buf @ c))) else pl)"
    and b: "pl' \<le> 4095" "pl' < 0 \<or> 17 \<le> pl'"
  shows "read_prefixed_loop (c # cs) buf pl =
    (if 0 \<le> pl' \<and> 2 + pl' \<le> int (length (buf @ c)) then Some (Inr (take (nat pl') (drop 2 (buf @ c))))
     else read_prefixed_loop cs (buf @ c) pl')"
proof -
  have t: "take (min (length c) (2 + MaxDNSPacketSize - length buf)) c = c" using room by simp
  have "0 \<le> pl'" if "2 \<le> length (buf @ c)" "pl < 0" unfolding pl' using that by simp
  then have "\<not> (2 \<le> length (buf @ c) \<and> pl < 0 \<and> pl' > int MaxDNSPacketSize - 1)"
    "\<not> (2 \<le> length (buf @ c) \<and> pl < 0 \<and> pl' < int MinDNSPacketSize)"
    using b by auto
  then show ?thesis unfolding read_prefixed_loop.simps Let_def t pl' [symmetric] by (simp only: if_False)
qed

lemma read_prefixed_loop_ok:
  assumes "buf @ concat chunks = be_bytes 2 (length p) @ p" "17 \<le> length p" "length p \<le> 4095"
    and "pl = (if length buf < 2 then -1 else int (length p))" "length buf < 2 + length p"
  shows "read_prefixed_loop chunks buf pl = Some (Inr p)"
  using assms(1,4,5)
proof (induction chunks arbitrary: buf pl)
  case Nil
  then have "length buf = length (be_bytes 2 (length p) @ p)" by simp
  then show ?case using Nil(3) by simp
next
  case (Cons c cs)
  let ?b = "buf @ c" let ?pl = "if length ?b < 2 then -1 else int (length p)"
  have all: "?b @ concat cs = be_bytes 2 (length p) @ p" using Cons.prems(1) by simp
  have tot: "length ?b + length (concat cs) = 2 + length p"
    using arg_cong [OF all, of length] by simp
  have "be_val (take 2 ?b) = length p" if "2 \<le> length ?b"
  proof -
    have "take 2 ?b = be_bytes 2 (length p)" using arg_cong [OF all, of "take 2"] that by simp
    then show ?thesis using assms(3) by (simp only: be_val_be_bytes) simp
  qed
  then have "?pl = (if 2 \<le> length ?b \<and> pl < 0 then int (be_val (take 2 ?b)) else pl)"
    using Cons.prems(2) by auto
  moreover have "?pl \<le> 4095" "?pl < 0 \<or> 17 \<le> ?pl" using assms(2,3) by simp_all
  moreover have "length ?b \<le> 4098" using tot assms(3) by simp
  ultimately have step: "read_prefixed_loop (c # cs) buf pl =
      (if 0 \<le> ?pl \<and> 2 + ?pl \<le> int (length ?b) then Some (Inr (take (nat ?pl) (drop 2 ?b)))
       else read_prefixed_loop cs ?b ?pl)"
    by (intro read_prefixed_step)
  show ?case
  proof (cases "length ?b = 2 + length p")
    case True
    then have "concat cs = []" using tot by (metis add_cancel_right_right length_0_conv)
    then have "?b = be_bytes 2 (length p) @ p" using all by (metis append_Nil2)
    then have "take (length p) (drop 2 ?b) = p" by simp
    then show ?thesis unfolding step using True by simp
  next
    case False
    then have "length ?b < 2 + length p" using tot by simp
    then show ?thesis unfolding step using Cons.IH [OF all refl] by auto
  qed
qed

text \<open>
  C14: A packet framed by \<^verbatim>\<open>PrefixWithSize\<close> is read back whole by \<^verbatim>\<open>ReadPrefixed\<close>, however the connection cuts
  it into reads, for every packet length that \<^verbatim>\<open>ReadPrefixed\<close> accepts.
\<close>

theorem framing_roundtrip:
  assumes "17 \<le> length p" "length p \<le> 4095" "concat chunks = fst (PrefixWithSize p)"
  shows "snd (PrefixWithSize p) = None \<and> ReadPrefixed chunks = Some (Inr p)"
  using assms read_prefixed_loop_ok [of "[]" chunks p "-1"] by (simp add: PrefixWithSize_eq ReadPrefixed_def)

theorem framing_roundtrip_witness:
  "ReadPrefixed [take 1 (fst (PrefixWithSize (replicate 20 7))), [], drop 1 (fst (PrefixWithSize (replicate 20 7)))] =
     Some (Inr (replicate 20 7))"
  using framing_roundtrip [of "replicate 20 7"
      "[take 1 (fst (PrefixWithSize (replicate 20 7))), [], drop 1 (fst (PrefixWithSize (replicate 20 7)))]"] by simp

subsection \<open>Flags and identifiers\<close>

lemma HasTCFlag2_panics_iff: "HasTCFlag2 packet = None \<longleftrightarrow> length packet = 2"
  by (auto simp: HasTCFlag2_def get8_def)

lemma split_at_no: "c \<notin> set w \<Longrightarrow> split_at c w = [w]"
  by (induction w) auto

lemma split_at_join: "c \<notin> set w \<Longrightarrow> split_at c (w @ c # r) = w # split_at c r"
  by (induction w) auto

lemma split_join: "ws \<noteq> [] \<Longrightarrow> list_all (\<lambda>w. c \<notin> set w) ws \<Longrightarrow> split_at c (join_with c ws) = ws"
  by (induction c ws rule: join_with.induct) (auto simp: split_at_no split_at_join)

lemma join_with_chars: "set (join_with c ws) \<subseteq> insert c (\<Union> (set ` set ws))"
  by (induction c ws rule: join_with.induct) auto

text \<open>A network string made of a protocol and proxy ids, none with a separator, splits into them again.\<close>

lemma Net2ProxyID_NetAndProxyID:
  assumes "CHR '':'' \<notin> set proto" "list_all (\<lambda>w. CHR '','' \<notin> set w \<and> CHR '':'' \<notin> set w) pids" "\<not> firstEmpty pids"
  shows "Net2ProxyID (NetAndProxyID proto pids) = (proto, pids)"
proof -
  have ne: "pids \<noteq> []" using assms(3) by (auto simp: firstEmpty_def)
  have "CHR '':'' \<notin> set (join_with CHR '','' pids)"
    using join_with_chars [of "CHR '',''" pids] assms(2) by (auto simp: list_all_iff)
  then have "split_at CHR '':'' (NetAndProxyID proto pids) = [proto, join_with CHR '','' pids]"
    using assms(1) by (simp add: NetAndProxyID_def split_at_join split_at_no)
  moreover have "split_at CHR '','' (join_with CHR '','' pids) = pids"
    using ne assms(2) by (intro split_join) (auto simp: list_all_iff)
  ultimately show ?thesis using assms(3) by (simp add: Net2ProxyID_def)
qed

end
