(* ===== verification/Nat64.thy ===== *)
theory Nat64
  imports Xdns Gomap
begin

text \<open>
  The IPv6-to-IPv4 translation of \<^verbatim>\<open>intra/x64\<close>: \<^verbatim>\<open>nat64.go\<close> embeds an IPv4 address into a prefix and takes it
  out again, \<^verbatim>\<open>dns64.go\<close> learns the prefixes of each resolver and synthesizes IPv6 answers from IPv4
  ones, \<^verbatim>\<open>natpt.go\<close> is the facade over both. The answers of the network (the queries through the
  mapper, the system resolver) are an argument \<open>net_env\<close>, the settings too. A \<^verbatim>\<open>net.IP\<close> that is nil is
  the empty list. \<^verbatim>\<open>uniqIP64\<close> is keyed by the printed prefix, which determines and is determined by its
  network number and mask; the model keeps those.
\<close>

subsection \<open>nat64.go\<close>

definition ip4to6 :: "ipnet option \<Rightarrow> bytes \<Rightarrow> bytes" where
  "ip4to6 prefix64 ip4 =
     (if ip_unspecified ip4 then ipv6zero
      else case prefix64 of
             None \<Rightarrow> []
           | Some p \<Rightarrow>
               let ip6 = replicate 16 0;
                   ip6 = overlay ip6 0 (ip_to16 (net_IP p));
                   bitmask = fst (mask_size (net_Mask p));
                   startByte = bitmask div 8
               in if startByte + 4 > length ip6 then []
                  else overlay ip6 startByte (ip_to4 ip4))"

fun ip6to4_loop :: "nat list \<Rightarrow> nat \<Rightarrow> bytes \<Rightarrow> bytes \<Rightarrow> bytes option" where
  "ip6to4_loop [] startByte ip6 ip4 = Some ip4"
| "ip6to4_loop (i # is) startByte ip6 ip4 =
     (let i6 = startByte + i;
          startByte = (if i6 = 8 then startByte + 1 else startByte)
      in do { v \<leftarrow> get8 ip6 (startByte + i); ip4 \<leftarrow> put8 ip4 i v; ip6to4_loop is startByte ip6 ip4 })"

definition ip6to4 :: "ipnet option \<Rightarrow> bytes \<Rightarrow> bytes option" where
  "ip6to4 prefix64 ip6 =
     (if ip_unspecified ip6 then Some ipv4zero
      else case prefix64 of
             None \<Rightarrow> Some []
           | Some p \<Rightarrow>
               let bitmask = fst (mask_size (net_Mask p)); startByte = bitmask div 8
               in if startByte + 4 > length ip6 then Some []
                  else ip6to4_loop [0, 1, 2, 3] startByte ip6 (replicate 4 0))"

definition xAddr :: "ipnet option \<Rightarrow> bytes \<Rightarrow> bytes option" where
  "xAddr prefix64 ip6 = ip6to4 prefix64 ip6"

definition prefixAddr :: "ipnet option \<Rightarrow> bytes \<Rightarrow> bytes" where
  "prefixAddr prefix64 ip4 = ip4to6 prefix64 ip4"

subsection \<open>State of dns64.go\<close>

definition AnyResolver :: string where "AnyResolver = ''__anyresolver''"
definition UnderlayResolver :: string where "UnderlayResolver = ''__underlay''"
definition StdlibResolver :: string where "StdlibResolver = ''__stdlib''"
definition Local464Resolver :: string where "Local464Resolver = ''__local464''"
definition NetTypeTCP :: string where "NetTypeTCP = ''tcp''"

datatype PtMode = PtModeAuto | PtModeForce64 | PtModeNone | PtModeForce46 | PtModeForce

datatype derr = errQuery | errAns | errEmpty | errNotFound | errNoSuchServer | errNoMapper | errNet

record dns64 =
  d_ip64 :: "(string, ipnet list) gomap"
  d_uniqIP64 :: "(string, (bytes \<times> bytes) option set) gomap"
  d_mapper :: bool
  d_paused :: bool

record net_env =
  env_query :: "nat \<Rightarrow> bool \<times> dns_msg option"
  env_lookup :: "bool \<times> bytes list"
  env_Loopingback :: bool

definition newDns64 :: dns64 where
  "newDns64 = \<lparr>d_ip64 = [], d_uniqIP64 = [], d_mapper = False, d_paused = False\<rparr>"

definition id64 :: "string \<Rightarrow> string" where
  "id64 tid = (if tid = ''System'' then UnderlayResolver else if tid = ''Goos'' then StdlibResolver else tid)"

definition kickstart :: "bool \<Rightarrow> dns64 \<Rightarrow> dns64" where
  "kickstart m d = (if \<not> m then d else d\<lparr>d_mapper := True\<rparr>)"

definition d64_get :: "string \<Rightarrow> dns64 \<Rightarrow> ipnet list" where
  "d64_get serverid d = (case map_of (d_ip64 d) serverid of None \<Rightarrow> [] | Some l \<Rightarrow> l)"

definition register :: "string \<Rightarrow> dns64 \<Rightarrow> bool \<times> dns64" where
  "register ident d =
     (let d = d\<lparr>d_ip64 := gm_put ident [] (d_ip64 d), d_uniqIP64 := gm_put ident {} (d_uniqIP64 d)\<rparr>
      in (d_paused d, d))"

definition RemoveResolver :: "string \<Rightarrow> dns64 \<Rightarrow> bool \<times> dns64" where
  "RemoveResolver ident d =
     (let ident = id64 ident
      in (True, d\<lparr>d_ip64 := gm_del ident (d_ip64 d), d_uniqIP64 := gm_del ident (d_uniqIP64 d)\<rparr>))"

definition addNat64Prefix :: "string \<Rightarrow> ipnet \<Rightarrow> dns64 \<Rightarrow> derr option \<times> dns64" where
  "addNat64Prefix ident ipxx d =
     (if IsZeroPrefix ipxx then (Some errEmpty, d)
      else
        case (map_of (d_ip64 d) ident, map_of (d_uniqIP64 d) ident) of
          (Some ip64, Some uniq) \<Rightarrow>
            let key = network_number_and_mask ipxx;
                (ip64, uniq) = (if key \<notin> uniq then (ip64 @ [ipxx], insert key uniq) else (ip64, uniq))
            in (None, d\<lparr>d_ip64 := gm_put ident ip64 (d_ip64 d), d_uniqIP64 := gm_put ident uniq (d_uniqIP64 d)\<rparr>)
        | _ \<Rightarrow> (Some errNoSuchServer, d))"

definition wka :: "bytes \<Rightarrow> nat list \<Rightarrow> bool" where
  \<comment> \<open>the four bytes at these positions are one of the well-known addresses of RFC 7050\<close>
  "wka ipv6 is = (map (\<lambda>i. ipv6 ! i) is \<in> {[192, 0, 0, 170], [192, 0, 0, 171]})"

definition find_endByte :: "bytes \<Rightarrow> nat" where
  "find_endByte ipv6 =
     (if wka ipv6 [12, 13, 14, 15] then 12
      else if wka ipv6 [9, 10, 11, 12] then 8
      else if wka ipv6 [7, 9, 10, 11] then 7
      else if wka ipv6 [6, 7, 9, 10] then 6
      else if wka ipv6 [5, 6, 7, 9] then 5
      else if wka ipv6 [4, 5, 6, 7] then 4
      else 0)"

fun d64_add_loop :: "string \<Rightarrow> bytes list \<Rightarrow> dns64 \<Rightarrow> derr option \<times> dns64" where
  "d64_add_loop serverid [] d = (None, d)"
| "d64_add_loop serverid (ipv6 # r) d =
     (if length ipv6 \<noteq> 16 then d64_add_loop serverid r d
      else
        let endByte = find_endByte ipv6
        in if endByte \<le> 0 then d64_add_loop serverid r d
           else
             let endBit = endByte * 8;
                 ipxx = \<lparr>net_IP = take endByte ipv6 @ drop endByte ipv6zero, net_Mask = cidr_mask endBit 128\<rparr>
             in case addNat64Prefix serverid ipxx d of
                  (Some err, d) \<Rightarrow> (Some err, d)
                | (None, d) \<Rightarrow> d64_add_loop serverid r d)"

definition d64_add :: "string \<Rightarrow> bytes list \<Rightarrow> dns64 \<Rightarrow> derr option \<times> dns64" where
  "d64_add serverid nat64 d =
     (if length nat64 \<le> 0 then (Some errEmpty, d)
      else case d64_add_loop serverid nat64 d of
             (Some err, d) \<Rightarrow> (Some err, d)
           | (None, d) \<Rightarrow> if length (d64_get serverid d) = 0 then (Some errEmpty, d) else (None, d))"

definition ofStdlib :: "net_env \<Rightarrow> dns64 \<Rightarrow> derr option \<times> dns64" where
  "ofStdlib env d =
     (case register StdlibResolver d of
        (paused, d) \<Rightarrow>
          if paused then (None, d)
          else if env_Loopingback env then (None, d)
          else case env_lookup env of
                 (err, ips) \<Rightarrow>
                   if err then (Some errNet, d)
                   else if length ips \<le> 0 then (Some errNotFound, d)
                   else d64_add StdlibResolver ips d)"

definition ofLocal464 :: "dns64 \<Rightarrow> derr option \<times> dns64" where
  "ofLocal464 d =
     (case register Local464Resolver d of
        (_, d) \<Rightarrow>
          let localip64 = [[0x00, 0x64, 0xff, 0x9b, 0x00, 0x01, 0xff, 0xfe, 0, 0, 0, 0, 192, 0, 0, 170]]
          in d64_add Local464Resolver localip64 d)"

definition d64_init :: "dns64 \<Rightarrow> dns64" where
  "d64_init d = snd (ofLocal464 d)"

definition aaaa_ips :: "dns_msg \<Rightarrow> bytes list" where
  "aaaa_ips ans =
     concat (map (\<lambda>r. if h_Rrtype (rr_hdr r) = TypeAAAA then (case aaaa_data r of Some a \<Rightarrow> [a] | None \<Rightarrow> []) else [])
       (m_Answer ans))"

definition query_phase :: "net_env \<Rightarrow> string \<Rightarrow> dns64 \<Rightarrow> bool \<times> dns64" where
  \<comment> \<open>\<^verbatim>\<open>AddResolver\<close> from the deferred removal on\<close>
  "query_phase env ident d =
     (let fail = (False, snd (RemoveResolver ident d))
      in if \<not> d_mapper d then fail
         else case env_query env 0 of
                (err, ans) \<Rightarrow>
                  if err \<or> ans = None \<or> \<not> HasAnyAnswer ans then fail
                  else
                    let (err, ans) = (if HasTCFlag ans then env_query env 1 else (False, ans))
                    in if err then fail
                       else if \<not> HasAnyAnswer ans then fail
                       else case ans of
                              None \<Rightarrow> fail
                            | Some a \<Rightarrow>
                                (case d64_add ident (aaaa_ips a) d of
                                   (None, d) \<Rightarrow> (True, d)
                                 | (Some _, d) \<Rightarrow> (False, snd (RemoveResolver ident d))))"

definition AddResolver :: "net_env \<Rightarrow> string \<Rightarrow> dns64 \<Rightarrow> bool \<times> dns64" where
  "AddResolver env r d =
     (let ident = id64 r
      in if ident = Local464Resolver then (case ofLocal464 d of (e, d) \<Rightarrow> (e = None, d))
         else if ident = StdlibResolver then (case ofStdlib env d of (e, d) \<Rightarrow> (e = None, d))
         else
           let d = (if ident = UnderlayResolver then snd (ofStdlib env d) else d)
           in case register ident d of
                (paused, d) \<Rightarrow> if \<not> paused then (False, d) else query_phase env ident d)"

fun resume_loop :: "net_env \<Rightarrow> string list \<Rightarrow> dns64 \<Rightarrow> dns64" where
  "resume_loop env [] d = d"
| "resume_loop env (ident # r) d = resume_loop env r (snd (AddResolver env ident d))"

definition pauseOrResume :: "net_env \<Rightarrow> PtMode \<Rightarrow> bool \<Rightarrow> dns64 \<Rightarrow> dns64" where
  "pauseOrResume env pt has6 d =
     (if pt = PtModeNone then d\<lparr>d_paused := True\<rparr>
      else if pt = PtModeAuto \<and> \<not> has6 then d\<lparr>d_paused := True\<rparr>
      else if d_paused d then resume_loop env (map fst (d_ip64 d)) (d\<lparr>d_paused := False\<rparr>)
      else d)"

subsection \<open>Synthesis\<close>

definition query64 :: "dnslib \<Rightarrow> net_env \<Rightarrow> string \<Rightarrow> dns_msg option \<Rightarrow> dns64 \<Rightarrow> derr + dns_msg option" where
  "query64 L env network msg6 d =
     (let msg4 = Request4FromResponse6 L msg6
      in if msg4 = None \<or> \<not> HasAnyQuestion msg4 then Inl errQuery
         else
           let proto = fst (Net2ProxyID network)
           in if \<not> d_mapper d then Inl errNoMapper
              else case env_query env 0 of
                     (err, res) \<Rightarrow>
                       if err then Inl errNet
                       else if \<not> HasAnyAnswer res then Inl errAns
                       else if HasTCFlag res \<and> proto \<noteq> NetTypeTCP then
                         (case env_query env 1 of
                            (err, res) \<Rightarrow>
                              if err then Inl errNet else if \<not> HasAnyAnswer res then Inl errAns else Inr res)
                       else Inr res)"

fun synth_rrs :: "rr \<Rightarrow> ipnet list \<Rightarrow> rr list option" where
  \<comment> \<open>the translation \<^verbatim>\<open>eval\<close> passes to \<^verbatim>\<open>TranslateRecords\<close>; \<open>None\<close> is the panic of \<^verbatim>\<open>ip4to6\<close>\<close>
  "synth_rrs r [] = Some []"
| "synth_rrs r (ipnet # rest) =
     do { x \<leftarrow> MaybeToQuadA r ipnet; xs \<leftarrow> synth_rrs r rest; Some (case x of Some rr \<Rightarrow> rr # xs | None \<Rightarrow> xs) }"

definition prefixes_for :: "string \<Rightarrow> dns64 \<Rightarrow> ipnet list" where
  "prefixes_for r d =
     (let ip64 = d64_get (id64 r) d
      in if length ip64 > 0 then ip64
         else let ip64 = d64_get UnderlayResolver d
              in if length ip64 > 0 then ip64
                 else let ip64 = d64_get StdlibResolver d
                      in if length ip64 > 0 then ip64 else d64_get Local464Resolver d)"

definition d64_eval :: "dnslib \<Rightarrow> net_env \<Rightarrow> string \<Rightarrow> bool \<Rightarrow> dns_msg option \<Rightarrow> string \<Rightarrow> dns64 \<Rightarrow> dns_msg option option" where
  \<comment> \<open>the outer \<open>None\<close> is a panic: of a nil message, or of \<^verbatim>\<open>ip4to6\<close> on a prefix that is too long\<close>
  "d64_eval L env network force64 ansin r d =
     (case ansin of
        None \<Rightarrow> None
      | Some m6 \<Rightarrow>
          let hasq6 = HasAAAAQuestion ansin;
              hasans6 = HasAAAAAnswer m6;
              ans00006 = AQuadAUnspecified ansin;
              hasauth = IsDNSSECAnswerAuthenticated ansin
          in if \<not> hasq6 \<or> ((hasauth \<or> hasans6) \<and> \<not> force64) \<or> ans00006 then Some None
             else
               let ip64 = prefixes_for r d
               in case query64 L env network ansin d of
                    Inl _ \<Rightarrow> Some None
                  | Inr None \<Rightarrow> Some None
                  | Inr (Some m4) \<Rightarrow>
                      if \<not> HasAnyAnswer (Some m4) \<or> AQuadAUnspecified (Some m4) then Some None
                      else if list_ex (\<lambda>r. h_Rrtype (rr_hdr r) = TypeA \<and> synth_rrs r ip64 = None) (m_Answer m4) then None
                      else
                        (case TranslateRecords L (Some m4) TypeA (\<lambda>r. (the (synth_rrs r ip64), False)) of
                           (ans64, didTranslate) \<Rightarrow> if \<not> didTranslate then Some None else Some ans64))"

subsection \<open>natpt.go\<close>

record natPt =
  n_dns64 :: dns64
  n_ip4s :: "bytes list"
  n_ip6s :: "bytes list"

definition NewNatPt2 :: natPt where
  "NewNatPt2 = \<lparr>n_dns64 = newDns64, n_ip4s = [], n_ip6s = []\<rparr>"

definition D64 :: "dnslib \<Rightarrow> net_env \<Rightarrow> PtMode \<Rightarrow> string \<Rightarrow> string \<Rightarrow> dns_msg option \<Rightarrow> natPt \<Rightarrow> dns_msg option option" where
  "D64 L env ptmode network ident ans6 n =
     (if ptmode \<noteq> PtModeNone then
        let force64 = (ptmode = PtModeForce64 \<or> ptmode = PtModeForce)
        in d64_eval L env network force64 ans6 ident (n_dns64 n)
      else Some None)"

definition addr2ip :: "addr \<Rightarrow> bytes" where "addr2ip ip = as_slice ip"
definition ip2addr4 :: "bytes \<Rightarrow> addr" where "ip2addr4 ip = fst (addr_from_slice (ip_to4 ip))"
definition ip2addr6 :: "bytes \<Rightarrow> addr" where "ip2addr6 ip = fst (addr_from_slice (ip_to16 ip))"

fun match :: "ipnet list \<Rightarrow> bytes \<Rightarrow> ipnet option" where
  "match [] ip = None"
| "match (n # nets) ip = (if net_contains n ip then Some n else match nets ip)"

definition nat64PrefixForResolver :: "string \<Rightarrow> natPt \<Rightarrow> ipnet list" where
  "nat64PrefixForResolver ident n = d64_get (id64 ident) (n_dns64 n)"

definition IsNat64 :: "string \<Rightarrow> addr \<Rightarrow> natPt \<Rightarrow> bool" where
  "IsNat64 ident ip n = (match (nat64PrefixForResolver ident n) (addr2ip ip) \<noteq> None)"

definition X46 :: "string \<Rightarrow> addr \<Rightarrow> natPt \<Rightarrow> addr" where
  "X46 ident ip4 n =
     (let unmapped = unmap ip4
      in if \<not> is4 unmapped then AddrZero
         else if is_unspecified unmapped then Addr6 0
         else
           let prefixes = nat64PrefixForResolver ident n
           in if length prefixes \<le> 0 then AddrZero
              else ip2addr6 (prefixAddr (Some (prefixes ! 0)) (addr2ip unmapped)))"

fun any_loop :: "(string \<times> ipnet list) list \<Rightarrow> bytes \<Rightarrow> addr option" where
  \<comment> \<open>the loop over all resolvers; Go leaves their order open\<close>
  "any_loop [] rawip = Some AddrZero"
| "any_loop ((tid, prefixes) # r) rawip =
     (if length prefixes \<le> 0 then any_loop r rawip
      else case match prefixes rawip of
             Some x \<Rightarrow> map_option ip2addr4 (xAddr (Some x) rawip)
           | None \<Rightarrow> any_loop r rawip)"

definition X64 :: "string \<Rightarrow> addr \<Rightarrow> natPt \<Rightarrow> addr option" where
  "X64 ident ip6 n =
     (if \<not> is6 ip6 then Some AddrZero
      else if is_unspecified ip6 then Some (Addr4 0)
      else if ident = AnyResolver then any_loop (d_ip64 (n_dns64 n)) (addr2ip ip6)
      else
        let prefixes = nat64PrefixForResolver ident n
        in if length prefixes \<le> 0 then Some AddrZero
           else case match prefixes (addr2ip ip6) of
                  Some x \<Rightarrow> map_option ip2addr4 (xAddr (Some x) (addr2ip ip6))
                | None \<Rightarrow> Some AddrZero)"

definition Add64 :: "net_env \<Rightarrow> string \<Rightarrow> natPt \<Rightarrow> bool \<times> natPt" where
  "Add64 env ident n = (case AddResolver env ident (n_dns64 n) of (ok, d) \<Rightarrow> (ok, n\<lparr>n_dns64 := d\<rparr>))"

definition Remove64 :: "string \<Rightarrow> natPt \<Rightarrow> bool \<times> natPt" where
  "Remove64 ident n = (case RemoveResolver (id64 ident) (n_dns64 n) of (ok, d) \<Rightarrow> (ok, n\<lparr>n_dns64 := d\<rparr>))"

definition ResetNat64Prefix :: "ipnet option \<Rightarrow> natPt \<Rightarrow> bool \<times> natPt" where
  \<comment> \<open>on what \<^verbatim>\<open>net.ParseCIDR\<close> makes of the string\<close>
  "ResetNat64Prefix parsed n =
     (case parsed of
        None \<Rightarrow> (False, n)
      | Some ipnet \<Rightarrow>
          let d = snd (register UnderlayResolver (n_dns64 n))
          in case addNat64Prefix UnderlayResolver ipnet d of (e, d) \<Rightarrow> (e = None, n\<lparr>n_dns64 := d\<rparr>))"

definition UIP :: "string \<Rightarrow> natPt \<Rightarrow> bytes" where
  "UIP network n =
     (if network = ''tcp6'' \<or> network = ''udp6'' then (if length (n_ip6s n) > 0 then n_ip6s n ! 0 else ipv6zero)
      else (if length (n_ip4s n) > 0 then n_ip4s n ! 0 else ipv4zero))"

subsection \<open>Embedding and extracting\<close>

lemma length4E: "length xs = 4 \<Longrightarrow> \<exists>a b c d. xs = [a, b, c, d]"
  by (auto simp: numeral_eq_Suc length_Suc_conv)

lemma length16E:
  assumes "length xs = 16"
  shows "\<exists>a b c d e f g h i j k l m n p q. xs = [a, b, c, d, e, f, g, h, i, j, k, l, m, n, p, q]"
proof -
  have "length (take 4 xs) = 4" "length (take 4 (drop 4 xs)) = 4" "length (take 4 (drop 8 xs)) = 4" "length (drop 12 xs) = 4"
    using assms by simp_all
  then obtain a b c d e f g h i j k l m n p q where
    "take 4 xs = [a, b, c, d]" "take 4 (drop 4 xs) = [e, f, g, h]" "take 4 (drop 8 xs) = [i, j, k, l]" "drop 12 xs = [m, n, p, q]"
    by (metis length4E)
  moreover have "xs = take 4 xs @ take 4 (drop 4 xs) @ take 4 (drop 8 xs) @ drop 12 xs"
    using append_take_drop_id [of 4 xs] append_take_drop_id [of 4 "drop 4 xs"] append_take_drop_id [of 4 "drop 8 xs"] by simp
  ultimately show ?thesis by auto
qed

definition prefix_of :: "bytes \<Rightarrow> nat \<Rightarrow> ipnet" where
  \<comment> \<open>a prefix of \<open>k\<close> bytes, as \<^verbatim>\<open>dns64.add\<close> makes them\<close>
  "prefix_of ip k = \<lparr>net_IP = ip, net_Mask = cidr_mask (8 * k) 128\<rparr>"

abbreviation rfc6052_bytes :: "nat set" where
  "rfc6052_bytes \<equiv> {4, 5, 6, 7, 8, 12}"

lemma prefix_of_start: "k \<in> rfc6052_bytes \<Longrightarrow> fst (mask_size (net_Mask (prefix_of ip k))) div 8 = k"
  using mask_size_cidr [of k] by (auto simp: prefix_of_def)

text \<open>Where the four bytes go, with byte 8 skipped.\<close>

definition embed :: "nat \<Rightarrow> bytes \<Rightarrow> bytes \<Rightarrow> bytes" where
  "embed k ip v4 =
     (if k = 8 then take 9 ip @ v4 @ drop 13 ip
      else if 4 < k \<and> k < 8 then take k ip @ take (8 - k) v4 @ [ip ! 8] @ drop (8 - k) v4 @ drop (k + 5) ip
      else take k ip @ v4 @ drop (k + 4) ip)"

lemma xdns_ip4to6_embed:
  assumes "k \<in> rfc6052_bytes" "length ip = 16" "length v4 = 4"
  shows "xdns_ip4to6 (prefix_of ip k) v4 = Some (embed k ip v4)"
proof -
  obtain x0 x1 x2 x3 x4 x5 x6 x7 x8 x9 xa xb xc xd xe xf where
    x: "ip = [x0, x1, x2, x3, x4, x5, x6, x7, x8, x9, xa, xb, xc, xd, xe, xf]" using length16E [OF assms(2)] by auto
  obtain a b c d where v: "v4 = [a, b, c, d]" using length4E [OF assms(3)] by auto
  have ip: "net_IP (prefix_of ip k) = ip" by (simp add: prefix_of_def)
  have "overlay (replicate 16 0) 0 ip = ip" using assms(2) by (simp add: overlay_def)
  then have "xdns_ip4to6 (prefix_of ip k) v4 = ip4to6_loop [0, 1, 2, 3] k v4 ip"
    using assms ip prefix_of_start [OF assms(1), of ip] by (simp add: xdns_ip4to6_def Let_def del: ip4to6_loop.simps)
  also have "\<dots> = Some (embed k ip v4)"
    using assms(1) by (elim insertE) (simp_all add: x v embed_def get8_def put8_def)
  finally show ?thesis .
qed

lemma ip6to4_embed:
  assumes "k \<in> rfc6052_bytes" "length ip = 16" "length v4 = 4" "\<not> ip_unspecified (embed k ip v4)"
  shows "ip6to4 (Some (prefix_of ip k)) (embed k ip v4) = Some v4"
proof -
  obtain x0 x1 x2 x3 x4 x5 x6 x7 x8 x9 xa xb xc xd xe xf where
    x: "ip = [x0, x1, x2, x3, x4, x5, x6, x7, x8, x9, xa, xb, xc, xd, xe, xf]" using length16E [OF assms(2)] by auto
  obtain a b c d where v: "v4 = [a, b, c, d]" using length4E [OF assms(3)] by auto
  have r: "replicate 4 0 = [0, 0, 0, 0 :: u8]" by (simp add: numeral_eq_Suc)
  have l: "length (embed k ip v4) = 16" using assms(1) by (elim insertE) (simp_all add: x v embed_def)
  have "ip6to4 (Some (prefix_of ip k)) (embed k ip v4) = ip6to4_loop [0, 1, 2, 3] k (embed k ip v4) (replicate 4 0)"
    using assms(1,4) prefix_of_start [OF assms(1), of ip] l by (auto simp: ip6to4_def Let_def simp del: ip6to4_loop.simps)
  also have "\<dots> = Some v4"
    using assms(1) unfolding r by (elim insertE) (simp_all add: x v embed_def get8_def put8_def)
  finally show ?thesis .
qed

lemma cidr_mask_nth: "i < 16 \<Longrightarrow> cidr_mask (8 * k) 128 ! i = (if i < k then 0xff else 0)"
  by (simp add: cidr_mask_def)

lemma net_contains_prefix:
  assumes "length ip = 16" "length x = 16" "take k x = take k ip" "take 4 ip \<noteq> [0, 0, 0, 0]" "4 \<le> k" "k \<le> 16"
  shows "net_contains (prefix_of ip k) x"
proof -
  have "take 4 x = take 4 ip" using assms(3,5) by (metis min.absorb1 take_take)
  moreover have "take 12 y \<noteq> v4in6_prefix" if "take 4 y = take 4 ip" for y
  proof
    assume "take 12 y = v4in6_prefix"
    then have "take 4 (take 12 y) = [0, 0, 0, 0]" by (simp add: v4in6_prefix_def)
    then show False using that assms(4) by simp
  qed
  ultimately have "take 12 x \<noteq> v4in6_prefix" "take 12 ip \<noteq> v4in6_prefix" by blast+
  then have no4: "ip_to4 ip = []" "ip_to4 x = []" using assms(1,2) by (simp_all add: ip_to4_def)
  have "length (cidr_mask (8 * k) 128) = 16" by (simp add: cidr_mask_def)
  then have nn: "network_number_and_mask (prefix_of ip k) = Some (ip, cidr_mask (8 * k) 128)"
    using no4(1) assms(1) by (simp add: network_number_and_mask_def prefix_of_def Let_def)
  have "(ip ! i AND cidr_mask (8 * k) 128 ! i) = (x ! i AND cidr_mask (8 * k) 128 ! i)" if "i < 16" for i
  proof (cases "i < k")
    case True
    then show ?thesis using assms(3) by (metis nth_take)
  next
    case False
    then show ?thesis using that by (simp add: cidr_mask_nth)
  qed
  then show ?thesis using no4(2) nn assms(1,2) by (simp add: net_contains_def list_all_iff)
qed

lemma embed_facts:
  assumes "k \<in> rfc6052_bytes" "length ip = 16" "length v4 = 4"
  shows "length (embed k ip v4) = 16" "take k (embed k ip v4) = take k ip" "4 \<le> k" "k \<le> 16"
  using assms(1) assms(2,3) by (elim insertE; simp add: embed_def)+

lemma nonzero_start:
  assumes "take 4 x \<noteq> [0, 0, 0, 0]" "length x = 16"
  shows "\<not> ip_unspecified x" "\<not> ip_equal x ipv6zero" "ip_to4 x = []"
proof -
  have "x \<noteq> ipv6zero" "x \<noteq> ipv4zero"
    using assms(1) by (auto simp: ipv6zero_def ipv4zero_def v4in6_prefix_def numeral_eq_Suc)
  then show "\<not> ip_unspecified x" "\<not> ip_equal x ipv6zero"
    using assms(2) by (simp_all add: ip_unspecified_def ip_equal_def ipv6zero_def ipv4zero_def v4in6_prefix_def)
  have "take 12 x \<noteq> v4in6_prefix"
  proof
    assume "take 12 x = v4in6_prefix"
    then have "take 4 (take 12 x) = [0, 0, 0, 0]" by (simp add: v4in6_prefix_def)
    then show False using assms(1) by simp
  qed
  then show "ip_to4 x = []" using assms(2) by (simp add: ip_to4_def)
qed

lemma addr6_of_slice:
  assumes "length x = 16"
  shows "addr_from_slice x = (Addr6 (of_nat (be_val x)), True)" "as_slice (Addr6 (of_nat (be_val x))) = x"
  using assms as_slice_addr_from_slice [of x "Addr6 (of_nat (be_val x))"] by (simp_all add: addr_from_slice_def)

lemma X64_single:
  assumes p: "d64_get (id64 ident) (n_dns64 n) = [p]" and i: "ident \<noteq> AnyResolver" and x: "length x = 16"
    and c: "net_contains p x" and u: "\<not> ip_unspecified x"
  shows "X64 ident (fst (addr_from_slice x)) n = map_option ip2addr4 (ip6to4 (Some p) x)"
proof -
  note a = addr6_of_slice [OF x]
  have "of_nat (be_val x) \<noteq> (0 :: u128)"
  proof
    assume "of_nat (be_val x) = (0 :: u128)"
    then have "x = as_slice (Addr6 0)" using a(2) by simp
    also have "\<dots> = ipv6zero" unfolding ipv6zero_def by code_simp
    finally show False using u by (simp add: ip_unspecified_def ip_equal_def)
  qed
  then show ?thesis using a p i c by (simp add: X64_def nat64PrefixForResolver_def addr2ip_def xAddr_def del: as_slice.simps)
qed

subsection \<open>Synthesis and translation agree\<close>

text \<open>
  C1: What \<^verbatim>\<open>dns64\<close> synthesizes, \<^verbatim>\<open>natpt\<close> translates back: for a resolver with one prefix of a length RFC
  6052 allows (32, 40, 48, 56, 64 or 96 bits), an A record with any address becomes an AAAA record with
  the address embedded in the prefix, that address is recognised as the resolver's, and \<^verbatim>\<open>X64\<close> returns the IPv4
  address of the A record.
\<close>

theorem synthesis_roundtrip:
  assumes p: "d64_get (id64 ident) (n_dns64 n) = [prefix_of ip k]" and i: "ident \<noteq> AnyResolver"
    and k: "k \<in> rfc6052_bytes" and ip: "length ip = 16" "take 4 ip \<noteq> [0, 0, 0, 0]"
    and a: "length v4 = 4" and h: "h_Rrtype h = TypeA"
  shows "\<exists>h' ip6. MaybeToQuadA (RR_A h v4) (prefix_of ip k) = Some (Some (RR_AAAA h' ip6)) \<and>
    h_Rrtype h' = TypeAAAA \<and> h_Name h' = h_Name h \<and> IsNat64 ident (fst (addr_from_slice ip6)) n \<and>
    X64 ident (fst (addr_from_slice ip6)) n = Some (addr_from4 v4)"
proof -
  let ?x = "embed k ip v4"
  note e = embed_facts [OF k ip(1) a]
  have "take 4 ?x = take 4 ip" using e(2,3) by (metis min.absorb1 take_take)
  then have nz: "take 4 ?x \<noteq> [0, 0, 0, 0]" using ip(2) by simp
  note z = nonzero_start [OF nz e(1)]
  have c: "net_contains (prefix_of ip k) ?x" using net_contains_prefix [OF ip(1) e(1,2) ip(2) e(3,4)] .
  have v: "ip_to4 v4 = v4" "v4 \<noteq> []" using a by (auto simp: ip_to4_def)
  have "\<not> IsZeroPrefix (prefix_of ip k)" using ip(1) by (auto simp: IsZeroPrefix_def prefix_of_def ip_equal_def)
  then have m: "MaybeToQuadA (RR_A h v4) (prefix_of ip k) =
      Some (Some (RR_AAAA (mk_hdr (h_Name h) TypeAAAA (h_Class h) (max ansTTL (h_Ttl h))) ?x))"
    using h v xdns_ip4to6_embed [OF k ip(1) a] e(1) z(2) by (simp add: MaybeToQuadA_def Let_def)
  have "X64 ident (fst (addr_from_slice ?x)) n = Some (addr_from4 v4)"
    using X64_single [OF p i e(1) c z(1)] ip6to4_embed [OF k ip(1) a z(1)] v a
    by (simp add: ip2addr4_def addr_from_slice_def addr_from4_def)
  moreover have "IsNat64 ident (fst (addr_from_slice ?x)) n"
    using p c addr6_of_slice [OF e(1)] by (simp add: IsNat64_def nat64PrefixForResolver_def addr2ip_def del: as_slice.simps)
  ultimately show ?thesis using m by (auto simp: mk_hdr_def)
qed

definition sample_net :: "nat \<Rightarrow> natPt" where
  \<comment> \<open>one resolver with the documentation prefix of RFC 6052\<close>
  "sample_net k = NewNatPt2\<lparr>n_dns64 := newDns64\<lparr>d_ip64 := [(''r'', [prefix_of [0x20, 0x01, 0x0d, 0xb8, 1, 0x22, 3, 0x44, 0, 0, 0, 0, 0, 0, 0, 0] k])]\<rparr>\<rparr>"

lemma sample_net_get: "d64_get (id64 ''r'') (n_dns64 (sample_net k)) = [prefix_of [0x20, 0x01, 0x0d, 0xb8, 1, 0x22, 3, 0x44, 0, 0, 0, 0, 0, 0, 0, 0] k]"
  by (simp add: sample_net_def d64_get_def id64_def NewNatPt2_def)

theorem synthesis_roundtrip_witness:
  "\<exists>h' ip6. MaybeToQuadA (RR_A (mk_hdr ''a.'' TypeA ClassINET 5) [192, 0, 2, 33]) (prefix_of [0x20, 0x01, 0x0d, 0xb8, 1, 0x22, 3, 0x44, 0, 0, 0, 0, 0, 0, 0, 0] 8) =
     Some (Some (RR_AAAA h' ip6)) \<and> X64 ''r'' (fst (addr_from_slice ip6)) (sample_net 8) = Some (addr_from4 [192, 0, 2, 33])"
  using synthesis_roundtrip [OF sample_net_get [of 8], of "[192, 0, 2, 33]" "mk_hdr ''a.'' TypeA ClassINET 5"]
  by (auto simp: AnyResolver_def mk_hdr_def)

lemma rep4: "replicate 4 0 = [0, 0, 0, 0 :: u8]"
  by (simp add: numeral_eq_Suc)

lemma overlay_read:
  assumes "k \<in> rfc6052_bytes" "length ip = 16"
  shows "ip6to4_loop [0, 1, 2, 3] k (overlay ip k [a, b, c, d]) [0, 0, 0, 0] = Some
    (if k = 5 then [a, b, c, ip ! 9] else if k = 6 then [a, b, d, ip ! 10]
     else if k = 7 then [a, c, d, ip ! 11] else if k = 8 then [b, c, d, ip ! 12] else [a, b, c, d])"
proof -
  obtain x0 x1 x2 x3 x4 x5 x6 x7 x8 x9 xa xb xc xd xe xf where
    x: "ip = [x0, x1, x2, x3, x4, x5, x6, x7, x8, x9, xa, xb, xc, xd, xe, xf]" using length16E [OF assms(2)] by auto
  show ?thesis using assms(1) by (elim insertE) (simp_all add: x overlay_def get8_def put8_def)
qed

text \<open>
  C34: The converse direction, \<^verbatim>\<open>X46\<close> and then \<^verbatim>\<open>X64\<close>, returns the address only for prefixes of 32 and 96 bits:
  \<^verbatim>\<open>ip4to6\<close> of \<^verbatim>\<open>nat64.go\<close> writes byte 8 where \<^verbatim>\<open>ip6to4\<close> skips it, so for the lengths in between one byte
  of the address is lost and one of the prefix taken instead.
\<close>

theorem x46_x64:
  assumes p: "d64_get (id64 ident) (n_dns64 n) = [prefix_of ip k]" and i: "ident \<noteq> AnyResolver"
    and k: "k \<in> rfc6052_bytes" and ip: "length ip = 16" "take 4 ip \<noteq> [0, 0, 0, 0]"
    and a: "as_slice (Addr4 w) = [a, b, c, d]" "w \<noteq> 0"
  shows "X64 ident (X46 ident (Addr4 w) n) n = Some (addr_from4
    (if k = 5 then [a, b, c, ip ! 9] else if k = 6 then [a, b, d, ip ! 10]
     else if k = 7 then [a, c, d, ip ! 11] else if k = 8 then [b, c, d, ip ! 12] else [a, b, c, d]))"
proof -
  let ?x = "overlay ip k [a, b, c, d]"
  have "[a, b, c, d] \<noteq> [0, 0, 0, 0]"
  proof
    assume "[a, b, c, d] = [0, 0, 0, 0]"
    then have "fst (addr_from_slice (as_slice (Addr4 w))) = Addr4 (of_nat (be_val [0, 0, 0, 0]))"
      unfolding a(1) by (simp add: addr_from_slice_def)
    then show False using addr_from_slice_as_slice [of "Addr4 w"] a(2) by (simp add: be_val_def del: as_slice.simps)
  qed
  then have u: "\<not> ip_unspecified [a, b, c, d]"
    using rep4 by (simp add: ip_unspecified_def ip_equal_def ipv4zero_def ipv6zero_def v4in6_prefix_def)
  have l: "length ?x = 16" using ip(1) by simp
  have tk: "take k ?x = take k ip" using ip(1) k by (auto simp: overlay_def)
  have k4: "4 \<le> k" "k \<le> 12" using k by auto
  have "take 4 ?x = take 4 ip" using arg_cong [OF tk, of "take 4"] k4 by (simp only: take_take min.absorb1)
  then have nz: "take 4 ?x \<noteq> [0, 0, 0, 0]" using ip(2) by (simp only: not_False_eq_True)
  note z = nonzero_start [OF nz l]
  have c: "net_contains (prefix_of ip k) ?x" using net_contains_prefix [OF ip(1) l tk ip(2)] k4 by simp
  have "overlay (replicate 16 0) 0 (ip_to16 ip) = ip" using ip(1) by (simp add: overlay_def ip_to16_def)
  then have "ip4to6 (Some (prefix_of ip k)) [a, b, c, d] = ?x"
    using u prefix_of_start [OF k, of ip] k4 ip(1) by (simp add: ip4to6_def Let_def ip_to4_def prefix_of_def)
  then have "X46 ident (Addr4 w) n = fst (addr_from_slice ?x)"
    using p a l by (simp add: X46_def nat64PrefixForResolver_def addr2ip_def prefixAddr_def ip2addr6_def ip_to16_def del: as_slice.simps)
  then have "X64 ident (X46 ident (Addr4 w) n) n = map_option ip2addr4 (ip6to4 (Some (prefix_of ip k)) ?x)"
    using X64_single [OF p i l c z(1)] by simp
  moreover have "ip6to4 (Some (prefix_of ip k)) ?x = ip6to4_loop [0, 1, 2, 3] k ?x [0, 0, 0, 0]"
    using z(1) l k4 prefix_of_start [OF k, of ip] rep4 by (simp add: ip6to4_def Let_def del: ip6to4_loop.simps)
  ultimately show ?thesis using overlay_read [OF k ip(1), of a b c d]
    by (simp add: ip2addr4_def ip_to4_def addr_from_slice_def addr_from4_def del: ip6to4_loop.simps)
qed

theorem x46_x64_witness:
  "X64 ''r'' (X46 ''r'' (Addr4 258) (sample_net 8)) (sample_net 8) = Some (addr_from4 [0, 1, 2, 0])"
proof -
  have "as_slice (Addr4 258) = [0, 0, 1, 2]" by code_simp
  then show ?thesis
    using x46_x64 [OF sample_net_get [of 8], of 258 0 0 1 2] by (simp add: AnyResolver_def del: as_slice.simps)
qed

subsection \<open>Prefixes\<close>

definition d64_inv :: "dns64 \<Rightarrow> bool" where
  "d64_inv d \<longleftrightarrow> gm_wf (d_ip64 d) \<and> gm_wf (d_uniqIP64 d) \<and>
     (\<forall>i. map_option (\<lambda>l. network_number_and_mask ` set l) (map_of (d_ip64 d) i) = map_of (d_uniqIP64 d) i) \<and>
     (\<forall>i l. map_of (d_ip64 d) i = Some l \<longrightarrow>
        distinct (map network_number_and_mask l) \<and> list_all (\<lambda>p. \<not> IsZeroPrefix p) l)"

lemma register_inv: "d64_inv d \<Longrightarrow> d64_inv (snd (register i d))"
  by (auto simp: d64_inv_def register_def Let_def gm_get_put)

lemma RemoveResolver_inv: "d64_inv d \<Longrightarrow> d64_inv (snd (RemoveResolver i d))"
  by (auto simp: d64_inv_def RemoveResolver_def Let_def gm_get_del)

lemma addNat64Prefix_inv:
  assumes "d64_inv d"
  shows "d64_inv (snd (addNat64Prefix i p d))"
proof (cases "IsZeroPrefix p \<or> map_of (d_ip64 d) i = None")
  case True
  then show ?thesis using assms by (auto simp: addNat64Prefix_def)
next
  case False
  then obtain l where l: "map_of (d_ip64 d) i = Some l" by auto
  then have u: "map_of (d_uniqIP64 d) i = Some (network_number_and_mask ` set l)"
    using assms unfolding d64_inv_def by (metis option.simps(9))
  have ok: "distinct (map network_number_and_mask l)" "list_all (\<lambda>p. \<not> IsZeroPrefix p) l"
    using assms l unfolding d64_inv_def by blast+
  have e: "snd (addNat64Prefix i p d) =
      (if network_number_and_mask p \<in> network_number_and_mask ` set l
       then d\<lparr>d_ip64 := gm_put i l (d_ip64 d), d_uniqIP64 := gm_put i (network_number_and_mask ` set l) (d_uniqIP64 d)\<rparr>
       else d\<lparr>d_ip64 := gm_put i (l @ [p]) (d_ip64 d),
              d_uniqIP64 := gm_put i (insert (network_number_and_mask p) (network_number_and_mask ` set l)) (d_uniqIP64 d)\<rparr>)"
    using False l u by (simp add: addNat64Prefix_def)
  show ?thesis unfolding e using assms ok False by (auto simp: d64_inv_def gm_get_put)
qed

lemma d64_add_loop_inv: "d64_inv d \<Longrightarrow> d64_inv (snd (d64_add_loop i ips d))"
proof (induction i ips d rule: d64_add_loop.induct)
  case (2 i ip r d)
  let ?p = "\<lparr>net_IP = take (find_endByte ip) ip @ drop (find_endByte ip) ipv6zero, net_Mask = cidr_mask (find_endByte ip * 8) 128\<rparr>"
  have "d64_inv (snd (addNat64Prefix i ?p d))" using 2(4) by (rule addNat64Prefix_inv)
  then show ?case using 2 by (auto simp: Let_def split: prod.splits option.splits)
qed simp

lemma d64_add_inv: "d64_inv d \<Longrightarrow> d64_inv (snd (d64_add i ips d))"
  using d64_add_loop_inv [of d i ips] by (auto simp: d64_add_def split: prod.splits option.splits)

lemma ofStdlib_inv: "d64_inv d \<Longrightarrow> d64_inv (snd (ofStdlib env d))"
  using register_inv [of d StdlibResolver] d64_add_inv
  by (auto simp: ofStdlib_def split: prod.splits)

lemma ofLocal464_inv: "d64_inv d \<Longrightarrow> d64_inv (snd (ofLocal464 d))"
  using register_inv [of d Local464Resolver] d64_add_inv
  by (auto simp: ofLocal464_def Let_def split: prod.splits)

lemma query_phase_cases:
  obtains "query_phase env i d = (False, snd (RemoveResolver i d))"
  | ips d' where "d64_add i ips d = (None, d')" "query_phase env i d = (True, d')"
  | ips e d' where "d64_add i ips d = (Some e, d')" "query_phase env i d = (False, snd (RemoveResolver i d'))"
proof -
  obtain err1 ans1 where 1: "env_query env 0 = (err1, ans1)" by fastforce
  obtain err2 ans2 where 2: "(if HasTCFlag ans1 then env_query env 1 else (False, ans1)) = (err2, ans2)" by fastforce
  show thesis
  proof (cases "\<not> d_mapper d \<or> err1 \<or> ans1 = None \<or> \<not> HasAnyAnswer ans1 \<or> err2 \<or> \<not> HasAnyAnswer ans2")
    case True
    then have "query_phase env i d = (False, snd (RemoveResolver i d))"
      using 1 2 by (auto simp: query_phase_def Let_def split: option.splits)
    then show thesis by (rule that(1))
  next
    case False
    then obtain a where a: "ans2 = Some a" by (cases ans2) (auto simp: HasAnyAnswer_def)
    obtain e d' where d': "d64_add i (aaaa_ips a) d = (e, d')" by fastforce
    have "query_phase env i d = (case (e, d') of (None, d) \<Rightarrow> (True, d) | (Some _, d) \<Rightarrow> (False, snd (RemoveResolver i d)))"
      using False 1 2 a d' by (auto simp: query_phase_def Let_def)
    then show thesis using that(2,3) d' by (cases e) auto
  qed
qed

lemma query_phase_inv:
  assumes "d64_inv d"
  shows "d64_inv (snd (query_phase env i d))"
proof (cases rule: query_phase_cases [of env i d])
  case 1
  then show ?thesis using RemoveResolver_inv [OF assms] by simp
next
  case (2 ips d')
  then show ?thesis using d64_add_inv [OF assms, of i ips] by simp
next
  case (3 ips e d')
  then show ?thesis using RemoveResolver_inv d64_add_inv [OF assms, of i ips] by simp
qed

lemma AddResolver_inv:
  assumes "d64_inv d"
  shows "d64_inv (snd (AddResolver env r d))"
proof -
  have l: "d64_inv (snd (ofLocal464 d))" and t: "d64_inv (snd (ofStdlib env d))"
    using assms by (rule ofLocal464_inv, rule ofStdlib_inv)
  have "d64_inv (snd (case register i d' of (paused, d) \<Rightarrow> if \<not> paused then (False, d) else query_phase env i d))"
    if "d64_inv d'" for i d'
    using register_inv [OF that, of i] query_phase_inv by (auto split: prod.splits)
  then show ?thesis using l t assms by (simp add: AddResolver_def Let_def split_beta)
qed

lemma pauseOrResume_inv: "d64_inv d \<Longrightarrow> d64_inv (pauseOrResume env pt has6 d)"
proof -
  have loop: "d64_inv d \<Longrightarrow> d64_inv (resume_loop env ids d)" for ids d
    by (induction env ids d rule: resume_loop.induct) (simp_all add: AddResolver_inv)
  have p: "d64_inv (d\<lparr>d_paused := b\<rparr>) = d64_inv d" for b d by (simp add: d64_inv_def)
  assume "d64_inv d"
  then show ?thesis using loop p by (simp add: pauseOrResume_def)
qed

inductive natpt_reach :: "natPt \<Rightarrow> bool" where
  new: "natpt_reach (NewNatPt2\<lparr>n_dns64 := d64_init newDns64\<rparr>)"
| kick: "natpt_reach n \<Longrightarrow> natpt_reach (n\<lparr>n_dns64 := kickstart m (n_dns64 n)\<rparr>)"
| flow: "natpt_reach n \<Longrightarrow> natpt_reach (n\<lparr>n_dns64 := pauseOrResume env pt has6 (n_dns64 n)\<rparr>)"
| add: "natpt_reach n \<Longrightarrow> natpt_reach (snd (Add64 env ident n))"
| remove: "natpt_reach n \<Longrightarrow> natpt_reach (snd (Remove64 ident n))"
| reset: "natpt_reach n \<Longrightarrow> natpt_reach (snd (ResetNat64Prefix parsed n))"

lemma natpt_reach_inv: "natpt_reach n \<Longrightarrow> d64_inv (n_dns64 n)"
proof (induction rule: natpt_reach.induct)
  case new
  have "d64_inv newDns64" by (simp add: d64_inv_def newDns64_def)
  then show ?case using ofLocal464_inv by (simp add: d64_init_def)
next
  case (kick n m)
  then show ?case by (simp add: kickstart_def d64_inv_def)
next
  case (flow n env pt has6)
  then show ?case by (simp add: pauseOrResume_inv)
next
  case (add n env ident)
  then show ?case using AddResolver_inv [of "n_dns64 n" env ident] by (simp add: Add64_def split_beta)
next
  case (remove n ident)
  then show ?case using RemoveResolver_inv [of "n_dns64 n" "id64 ident"] by (simp add: Remove64_def split_beta)
next
  case (reset n parsed)
  then show ?case
    using addNat64Prefix_inv [OF register_inv [OF reset.IH, of UnderlayResolver], of UnderlayResolver]
    by (cases parsed) (simp_all add: ResetNat64Prefix_def split_beta Let_def)
qed

lemma get8_some_lt: "j < length b \<Longrightarrow> get8 b j = Some (b ! j)"
  by (simp add: get8_def)

lemma ip6to4_loop_total:
  assumes "length ip6 = 16" "s \<le> 12"
  shows "ip6to4_loop [0, 1, 2, 3] s ip6 [0, 0, 0, 0] \<noteq> None"
proof -
  have "s < 5 \<or> s = 5 \<or> s = 6 \<or> s = 7 \<or> s = 8 \<or> 8 < s" by linarith
  then show ?thesis using assms by (elim disjE) (simp_all add: get8_def put8_def)
qed

lemma ip6to4_total: "length ip6 = 16 \<Longrightarrow> ip6to4 p ip6 \<noteq> None"
  using ip6to4_loop_total [of ip6] rep4
  by (cases p) (auto simp: ip6to4_def Let_def simp del: ip6to4_loop.simps)

lemma any_loop_total: "length ip6 = 16 \<Longrightarrow> any_loop m ip6 \<noteq> None"
proof (induction m ip6 rule: any_loop.induct)
  case (2 tid ps r ip6)
  then show ?case using ip6to4_total [of ip6] by (auto simp: xAddr_def split: option.splits)
qed simp

text \<open>
  C10: In every state the facade reaches, whatever the network answers, a resolver has no zero prefix and
  no prefix twice, the set of known prefixes agrees with the list, and \<^verbatim>\<open>X64\<close> never reads out of range.
\<close>

theorem natpt_invariant:
  assumes "natpt_reach n"
  shows "distinct (map network_number_and_mask (d64_get i (n_dns64 n))) \<and>
    list_all (\<lambda>p. \<not> IsZeroPrefix p) (d64_get i (n_dns64 n)) \<and>
    map_option (\<lambda>l. network_number_and_mask ` set l) (map_of (d_ip64 (n_dns64 n)) i) = map_of (d_uniqIP64 (n_dns64 n)) i \<and>
    X64 ident ip6 n \<noteq> None"
proof -
  have inv: "d64_inv (n_dns64 n)" using assms by (rule natpt_reach_inv)
  have "distinct (map network_number_and_mask (d64_get i (n_dns64 n)))"
    "list_all (\<lambda>p. \<not> IsZeroPrefix p) (d64_get i (n_dns64 n))"
    using inv by (auto simp: d64_inv_def d64_get_def split: option.splits)
  moreover have "map_option (\<lambda>l. network_number_and_mask ` set l) (map_of (d_ip64 (n_dns64 n)) i) = map_of (d_uniqIP64 (n_dns64 n)) i"
    using inv unfolding d64_inv_def by blast
  moreover have "X64 ident ip6 n \<noteq> None"
  proof (cases ip6)
    case (Addr6 w)
    then have "length (addr2ip ip6) = 16" by (simp add: addr2ip_def)
    then show ?thesis using any_loop_total [of "addr2ip ip6"] ip6to4_total [of "addr2ip ip6"]
      by (auto simp: X64_def xAddr_def Let_def split: option.splits)
  qed (simp_all add: X64_def)
  ultimately show ?thesis by blast
qed

theorem natpt_invariant_witness:
  "X64 ''r'' (Addr6 5) (snd (ResetNat64Prefix (Some (prefix_of [0x20, 1, 0, 0, 0, 0, 0, 0, 0, 0, 0, 0, 0, 0, 0, 0] 12))
     (NewNatPt2\<lparr>n_dns64 := d64_init newDns64\<rparr>))) \<noteq> None"
  using natpt_invariant [OF natpt_reach.reset [OF natpt_reach.new]] by blast

text \<open>
  C35: \<^verbatim>\<open>AddResolver\<close> of an ordinary resolver learns its prefixes only while translation is paused:
  \<^verbatim>\<open>register\<close> returns whether it is paused and the caller goes on exactly then. When translation is on
  the call fails without a query and leaves the resolver with no prefix, whatever it had before; so
  does resuming.
\<close>

theorem AddResolver_unpaused:
  assumes "\<not> d_paused d" "id64 r = ident" "ident \<notin> {Local464Resolver, StdlibResolver, UnderlayResolver}"
  shows "AddResolver env r d = (False, snd (register ident d)) \<and> d64_get ident (snd (AddResolver env r d)) = []"
  using assms by (simp add: AddResolver_def register_def d64_get_def Let_def)

definition quiet_env :: net_env where
  "quiet_env = \<lparr>env_query = (\<lambda>_. (True, None)), env_lookup = (True, []), env_Loopingback = False\<rparr>"

theorem AddResolver_unpaused_witness:
  "d64_get ''r'' (n_dns64 (sample_net 8)) \<noteq> [] \<and>
   d64_get ''r'' (snd (AddResolver quiet_env ''r'' (n_dns64 (sample_net 8)))) = []"
proof -
  have "\<not> d_paused (n_dns64 (sample_net 8))" by (simp add: sample_net_def newDns64_def)
  moreover have "id64 ''r'' = ''r''" by (simp add: id64_def)
  moreover have "''r'' \<notin> {Local464Resolver, StdlibResolver, UnderlayResolver}"
    by (simp add: Local464Resolver_def StdlibResolver_def UnderlayResolver_def)
  ultimately show ?thesis using AddResolver_unpaused [of "n_dns64 (sample_net 8)" "''r''" "''r''" quiet_env] sample_net_get [of 8]
    by (metis list.distinct(1))
qed

text \<open>A prefix longer than 96 bits, which \<^verbatim>\<open>ResetNat64Prefix\<close> accepts, makes the synthesis write out of range.\<close>

lemma mask_size_104: "mask_size (cidr_mask 104 128) = (104, 128)"
  by (simp add: mask_size_def cidr_mask_def upt_conv_Cons Let_def)

lemma long_prefix_panics:
  assumes "length ip = 16" "length v4 = 4" "h_Rrtype h = TypeA"
  shows "MaybeToQuadA (RR_A h v4) \<lparr>net_IP = ip, net_Mask = cidr_mask 104 128\<rparr> = None"
proof -
  have o: "overlay (replicate 16 0) 0 ip = ip" using assms(1) by (simp add: overlay_def)
  have "ip \<noteq> []" "v4 \<noteq> []" using assms by auto
  then have "xdns_ip4to6 \<lparr>net_IP = ip, net_Mask = cidr_mask 104 128\<rparr> v4 = None"
    using assms o by (simp add: xdns_ip4to6_def mask_size_104 Let_def get8_def put8_def)
  moreover have "\<not> IsZeroPrefix \<lparr>net_IP = ip, net_Mask = cidr_mask 104 128\<rparr>"
    using assms(1) by (auto simp: IsZeroPrefix_def ip_equal_def)
  ultimately show ?thesis using assms \<open>v4 \<noteq> []\<close> by (simp add: MaybeToQuadA_def ip_to4_def Let_def)
qed

end
