(* ===== verification/Stamp.thy ===== *)
theory Stamp
  imports Xdns Gomap
begin

text \<open>
  On-device blocking of \<^verbatim>\<open>intra/dnsx/rethinkdns.go\<close>: a stamp packs the ids of the chosen blocklists into
  16-bit flags, the first one a header that says which of the 16 groups of 16 ids follow; queries and
  answers are looked up in a trie with the stamp. The trie library is not part of the repository: its
  tables and its lookup are the fields of \<open>trielib\<close>, an argument of the definitions, and \<open>trielib_ok\<close>
  says what the tables hold. The textual encoding of stamps (base64, base32) is not modelled.
\<close>

subsection \<open>State\<close>

record trielib =
  tl_W :: nat
  tl_MaskLo :: "nat \<Rightarrow> u16 list"
  tl_BitsetTable256 :: "nat \<Rightarrow> nat"
  tl_DNlookup :: "string \<Rightarrow> string \<Rightarrow> bool \<times> string list"

datatype rerr = errRemote | errNoStamps | errNotEnoughAnswers | errNoBlocklistMatch | errMissingQueryName | errNoAnswer | errMismatch | errQType | errNotInBlocklist

datatype rmode = localBlock | remoteBlock

record rethinkdns =
  r_flags :: "string list"
  r_tags :: "(string, string) gomap"
  r_mode :: rmode
  r_stamp :: string

definition OnDeviceBlock :: "rethinkdns \<Rightarrow> bool" where
  "OnDeviceBlock r = (r_mode r = localBlock)"

definition getStamp :: "rethinkdns \<Rightarrow> rerr + string" where
  "getStamp r =
     (if \<not> OnDeviceBlock r then Inl errRemote
      else Inr (if length (r_stamp r) \<le> 0 then '''' else r_stamp r))"

subsection \<open>Flags\<close>

definition shl16 :: "u16 \<Rightarrow> u16 \<Rightarrow> u16" where
  \<comment> \<open>\<^verbatim>\<open>x << n\<close>: zero when the count reaches the width\<close>
  "shl16 x n = push_bit (unat n) x"

definition shr16 :: "u16 \<Rightarrow> u16 \<Rightarrow> u16" where
  "shr16 x n = drop_bit (unat n) x"

definition countSetBits :: "trielib \<Rightarrow> u16 \<Rightarrow> nat" where
  "countSetBits T n = tl_BitsetTable256 T (unat (n AND 0xff)) + tl_BitsetTable256 T (unat (shr16 n 8 AND 0xff))"

definition flagtostamp_step :: "trielib \<Rightarrow> u16 \<Rightarrow> u16 list \<Rightarrow> u16 list option" where
  "flagtostamp_step T val res =
     (let w = tl_W T; uw = of_nat w :: u16; hindex = val div uw; pos = val mod uw; h = res ! 0
      in if length res = 1 then
           Some [h OR shl16 1 (15 - hindex), 0 OR shl16 1 (15 - pos)]
         else
           let mm = unat (uw - hindex); ww = tl_MaskLo T w
           in if length ww \<le> 0 \<or> mm \<ge> length ww then Some res
              else
                let hmask = h AND ww ! mm;
                    databit = shr16 h (15 - hindex);
                    dataindex = countSetBits T hmask + 1;
                    datafound = ((databit AND 1) = 1)
                in if datafound then
                     (if dataindex < length res then Some (res[dataindex := res ! dataindex OR shl16 1 (15 - pos)]) else None)
                   else
                     let n = 0 OR shl16 1 (15 - pos); res = res[0 := h OR shl16 1 (15 - hindex)]
                     in do { pre \<leftarrow> slice res 0 dataindex;
                             Some ((pre @ [n]) @ (if dataindex < length res then drop dataindex res else [])) })"

fun flagtostamp_loop :: "trielib \<Rightarrow> u16 list \<Rightarrow> u16 list \<Rightarrow> u16 list option" where
  "flagtostamp_loop T [] res = Some res"
| "flagtostamp_loop T (val # fl) res = do { res \<leftarrow> flagtostamp_step T val res; flagtostamp_loop T fl res }"

definition flagtostamp :: "trielib \<Rightarrow> u16 list \<Rightarrow> u16 list option" where
  "flagtostamp T fl = flagtostamp_loop T fl [0]"

fun tag_loop :: "nat list \<Rightarrow> u16 \<Rightarrow> u16 \<Rightarrow> nat list \<Rightarrow> nat list" where
  \<comment> \<open>the first loop of \<^verbatim>\<open>flagstoinfo\<close>\<close>
  "tag_loop [] header m tagIndices = tagIndices"
| "tag_loop (i # is) header m tagIndices =
     (if push_bit i header = 0 then tagIndices
      else tag_loop is header (drop_bit 1 m) (if (header AND m) = m then tagIndices @ [i] else tagIndices))"

fun flag_loop :: "nat list \<Rightarrow> string list \<Rightarrow> nat \<Rightarrow> u16 \<Rightarrow> u16 \<Rightarrow> (nat \<times> string) list \<Rightarrow> (nat \<times> string) list" where
  \<comment> \<open>the loop over the bits of one flag; an id beyond the loaded ones is skipped before the mask is shifted\<close>
  "flag_loop [] flags index flag m values = values"
| "flag_loop (j # js) flags index flag m values =
     (if push_bit j flag = 0 then values
      else if (flag AND m) = m then
        let pos = index * 16 + j
        in if pos \<ge> length flags then flag_loop js flags index flag m values
           else flag_loop js flags index flag (drop_bit 1 m) (values @ [(pos, flags ! pos)])
      else flag_loop js flags index flag (drop_bit 1 m) values)"

fun info_loop :: "string list \<Rightarrow> (nat \<times> u16) list \<Rightarrow> (nat \<times> string) list \<Rightarrow> (nat \<times> string) list" where
  "info_loop flags [] values = values"
| "info_loop flags ((index, flag) # r) values =
     info_loop flags r (flag_loop [0..<16] flags index flag 0x8000 values)"

definition flagstoinfo :: "rethinkdns \<Rightarrow> u16 list \<Rightarrow> (rerr + (nat \<times> string) list) option" where
  "flagstoinfo r flags =
     (if flags = [] then None
      else
        let header = flags ! 0; tagIndices = tag_loop [0..<16] header 0x8000 []
        in if length tagIndices \<noteq> length flags - 1 then Some (Inl errMismatch)
           else Some (Inr (info_loop (r_flags r) (zip tagIndices (drop 1 flags)) [])))"

definition byte2uint16 :: "bytes \<Rightarrow> u16 list" where
  "byte2uint16 b = map (\<lambda>i. of_nat (unat (b ! (2 * i)) + 256 * unat (b ! (2 * i + 1)))) [0..<length b div 2]"

definition uint16tobyte :: "u16 list \<Rightarrow> bytes" where
  "uint16tobyte u = concat (map (\<lambda>v. [of_nat (unat v mod 256), of_nat (unat v div 256)]) u)"

subsection \<open>Blocking\<close>

fun keyToNames_loop :: "(string, string) gomap \<Rightarrow> string list \<Rightarrow> string list \<Rightarrow> string list" where
  "keyToNames_loop tags [] v = v"
| "keyToNames_loop tags (l # ls) v =
     (let x = (case map_of tags l of Some s \<Rightarrow> s | None \<Rightarrow> '''')
      in keyToNames_loop tags ls (if length x > 0 then v @ [x] else v))"

definition keyToNames :: "rethinkdns \<Rightarrow> string list \<Rightarrow> string list" where
  "keyToNames r list = keyToNames_loop (r_tags r) list []"

definition remote_blockQuery :: "dns_msg \<Rightarrow> rerr + string" where
  "remote_blockQuery m = Inl errRemote"

definition remote_blockAnswer :: "dns_msg option \<Rightarrow> rerr + string \<times> string" where
  "remote_blockAnswer m = Inl errRemote"

fun blockQuery_loop :: "trielib \<Rightarrow> rethinkdns \<Rightarrow> string \<Rightarrow> u16 \<Rightarrow> question list \<Rightarrow> rerr + string" where
  "blockQuery_loop T r stamp qtype [] = Inl errNoBlocklistMatch"
| "blockQuery_loop T r stamp qtype (quest # qs) =
     (let qname = fst (NormalizeQName (q_Name quest))
      in if \<not> (IsAAAAQType qtype \<or> IsAQType qtype \<or> IsSVCBQType qtype \<or> IsHTTPSQType qtype) then Inl errQType
         else case tl_DNlookup T qname stamp of
                (block, names) \<Rightarrow>
                  if block then Inr (join_with CHR '','' (keyToNames r names)) else blockQuery_loop T r stamp qtype qs)"

definition blockQuery :: "trielib \<Rightarrow> rethinkdns \<Rightarrow> dns_msg \<Rightarrow> rerr + string" where
  "blockQuery T r msg =
     (if length (m_Question msg) \<le> 0 then Inl errMissingQueryName
      else case getStamp r of
             Inl e \<Rightarrow> Inl e
           | Inr stamp \<Rightarrow>
               if length stamp \<le> 0 then Inl errNoStamps
               else blockQuery_loop T r stamp (q_Qtype (m_Question msg ! 0)) (m_Question msg))"

fun cloak_target :: "rr \<Rightarrow> string" where
  "cloak_target (RR_CNAME _ t) = t"
| "cloak_target (RR_SVCB _ p t _) = (if p = 0 then t else '''')"
| "cloak_target (RR_HTTPS _ p t _) = (if p = 0 then t else '''')"
| "cloak_target _ = ''''"

fun blockAnswer_loop :: "trielib \<Rightarrow> rethinkdns \<Rightarrow> string \<Rightarrow> string \<Rightarrow> rr list \<Rightarrow> rerr + string \<times> string" where
  "blockAnswer_loop T r stamp qname [] = Inl errNotInBlocklist"
| "blockAnswer_loop T r stamp qname (a # as) =
     (let target = cloak_target a
      in if length target \<le> 0 then blockAnswer_loop T r stamp qname as
         else
           let target = (if length target = 1 \<and> target ! 0 = CHR ''.'' then qname else target);
               target = fst (NormalizeQName target)
           in case tl_DNlookup T target stamp of
                (block, names) \<Rightarrow>
                  if block then Inr (target, join_with CHR '','' (keyToNames r names))
                  else blockAnswer_loop T r stamp qname as)"

definition blockAnswer :: "trielib \<Rightarrow> rethinkdns \<Rightarrow> dns_msg option \<Rightarrow> rerr + string \<times> string" where
  "blockAnswer T r msg =
     (case msg of
        None \<Rightarrow> Inl errNoAnswer
      | Some m \<Rightarrow>
          if length (m_Answer m) \<le> 0 then Inl errNotEnoughAnswers
          else case getStamp r of
                 Inl e \<Rightarrow> Inl e
               | Inr stamp \<Rightarrow>
                   if length stamp \<le> 0 then Inl errNoStamps
                   else blockAnswer_loop T r stamp (QName msg) (m_Answer m))"

subsection \<open>What a stamp stands for\<close>

definition trielib_ok :: "trielib \<Rightarrow> bool" where
  \<comment> \<open>words of 16 bits; the mask table clears the low bits; the bit table counts the bits of a byte\<close>
  "trielib_ok T \<longleftrightarrow> tl_W T = 16 \<and> tl_MaskLo T 16 = map (\<lambda>m. NOT (mask m)) [0..<17] \<and>
     (\<forall>i < 256. tl_BitsetTable256 T i = card {k. bit i k})"

definition word_of :: "nat set \<Rightarrow> u16" where
  \<comment> \<open>the word with the bits at these positions, counted from the left\<close>
  "word_of P = horner_sum of_bool 2 (map (\<lambda>n. 15 - n \<in> P) [0..<16])"

definition groups :: "nat set \<Rightarrow> nat set" where
  "groups S = (\<lambda>v. v div 16) ` S"

definition members :: "nat set \<Rightarrow> nat \<Rightarrow> nat set" where
  "members S h = {p. p < 16 \<and> 16 * h + p \<in> S}"

definition stamp_of :: "nat set \<Rightarrow> u16 list" where
  "stamp_of S = word_of (groups S) # map (\<lambda>h. word_of (members S h)) (sorted_list_of_set (groups S))"

lemma bit_word_of: "bit (word_of P) n \<longleftrightarrow> n < 16 \<and> 15 - n \<in> P"
  by (auto simp: word_of_def bit_horner_sum_bit_word_iff)

lemma word_of_eqI: "(\<And>n. n < 16 \<Longrightarrow> bit w n \<longleftrightarrow> 15 - n \<in> P) \<Longrightarrow> w = word_of P"
  by (rule bit_word_eqI) (simp add: bit_word_of)

subsection \<open>Encoding\<close>

lemma u16_minus15: "i \<le> 15 \<Longrightarrow> unat (15 - word_of_nat i :: u16) = 15 - i"
proof -
  assume i: "i \<le> 15"
  have "(15 :: u16) - of_nat i = of_nat (15 - i)" using i by (subst of_nat_diff) simp_all
  moreover have "unat (of_nat (15 - i) :: u16) = 15 - i" by (simp add: unat_of_nat)
  ultimately show ?thesis by simp
qed

lemma bit_shl16: "i \<le> 15 \<Longrightarrow> bit (shl16 1 (15 - word_of_nat i)) n \<longleftrightarrow> n = 15 - i"
  by (auto simp: shl16_def u16_minus15 push_bit_of_1 bit_exp_iff)

lemma word_of_insert: "p \<le> 15 \<Longrightarrow> word_of P OR shl16 1 (15 - word_of_nat p) = word_of (insert p P)"
  by (rule word_of_eqI) (auto simp: bit_or_iff bit_word_of bit_shl16)

lemma word_of_empty: "word_of {} = 0"
  by (rule word_of_eqI [symmetric]) simp

lemma word_of_single: "p \<le> 15 \<Longrightarrow> shl16 1 (15 - word_of_nat p) = word_of {p}"
  using word_of_insert [of p "{}"] by (simp add: word_of_empty)

lemma shr16_bit: "i \<le> 15 \<Longrightarrow> (shr16 (word_of P) (15 - word_of_nat i) AND 1) = 1 \<longleftrightarrow> i \<in> P"
  by (simp add: shr16_def u16_minus15 and_one_eq odd_iff_mod_2_eq_one [symmetric] bit_0 [symmetric] bit_drop_bit_eq bit_word_of) linarith

lemma bit_unat: "bit (unat (w :: u16)) k \<longleftrightarrow> bit w k"
  by (simp add: unsigned_of_nat bit_unsigned_iff)

lemma countSetBits_card:
  assumes "trielib_ok T"
  shows "countSetBits T w = card {k. bit w k}"
proof -
  have t: "tl_BitsetTable256 T i = card {k. bit i k}" if "i < 256" for i
    using assms that by (simp add: trielib_ok_def)
  have l: "unat (x AND 0xff) < 256" for x :: u16
    using word_and_le1 [of x "0xff"] by (simp add: word_le_nat_alt)
  have f: "0xff = (mask 8 :: u16)" by (simp add: mask_eq_exp_minus_1)
  have "{k. bit (unat (w AND 0xff)) k} = {k. k < 8 \<and> bit w k}"
    by (auto simp: bit_unat f bit_simps dest: bit_imp_le_length)
  moreover have "{k. bit (unat (shr16 w 8 AND 0xff)) k} = {k. k < 8 \<and> bit w (8 + k)}"
    by (auto simp: bit_unat f bit_simps shr16_def dest: bit_imp_le_length)
  moreover have "card {k. k < 8 \<and> bit w (8 + k)} = card ((\<lambda>k. 8 + k) ` {k. k < 8 \<and> bit w (8 + k)})"
    by (simp add: card_image)
  moreover have "{k. bit w k} = {k. k < 8 \<and> bit w k} \<union> (\<lambda>k. 8 + k) ` {k. k < 8 \<and> bit w (8 + k)}" (is "?L = ?R")
  proof
    show "?L \<subseteq> ?R"
    proof
      fix k assume "k \<in> ?L"
      hence "bit w k" "k < 16" using bit_imp_le_length [of w k] by auto
      thus "k \<in> ?R" by (cases "k < 8") (auto intro!: image_eqI [of _ _ "k - 8"])
    qed
  qed auto
  moreover have "card ({k. k < 8 \<and> bit w k} \<union> (\<lambda>k. 8 + k) ` {k. k < 8 \<and> bit w (8 + k)}) =
      card {k. k < 8 \<and> bit w k} + card ((\<lambda>k. 8 + k) ` {k. k < 8 \<and> bit w (8 + k)})"
    by (rule card_Un_disjoint) auto
  ultimately show ?thesis by (simp add: countSetBits_def t l)
qed

lemma countSetBits_below:
  assumes "trielib_ok T" "G \<subseteq> {..<16}" "h < 16"
  shows "countSetBits T (word_of G AND NOT (mask (16 - h))) = card {g \<in> G. g < h}"
proof -
  have "{k. bit (word_of G AND NOT (mask (16 - h))) k} = (\<lambda>g. 15 - g) ` {g \<in> G. g < h}"
  proof (intro equalityI subsetI)
    fix k assume "k \<in> {k. bit (word_of G AND NOT (mask (16 - h))) k}"
    hence "k < 16" "15 - k \<in> G" "\<not> k < 16 - h" by (auto simp: bit_simps bit_word_of)
    thus "k \<in> (\<lambda>g. 15 - g) ` {g \<in> G. g < h}" using assms(3) by (intro image_eqI [of _ _ "15 - k"]) auto
  qed (use assms in \<open>auto simp: bit_simps bit_word_of\<close>)
  moreover have "inj_on (\<lambda>g. 15 - g) {g \<in> G. g < h}" using assms(2,3) by (auto simp: inj_on_def)
  ultimately show ?thesis by (simp add: countSetBits_card [OF assms(1)] card_image)
qed

lemma sorted_split:
  fixes G :: "nat set"
  assumes "finite G"
  shows "sorted_list_of_set G = sorted_list_of_set {g \<in> G. g < h} @ (if h \<in> G then [h] else []) @ sorted_list_of_set {g \<in> G. h < g}"
    (is "_ = ?r")
proof -
  have "sorted_wrt (<) ?r" using assms by (auto simp: sorted_wrt_append)
  moreover have "set ?r = G" using assms by auto
  ultimately show ?thesis using sorted_list_of_set.idem_if_sorted_distinct [of ?r]
    by (simp add: strict_sorted_iff)
qed


lemma groups_insert: "groups (insert v S) = insert (v div 16) (groups S)"
  by (auto simp: groups_def)

lemma id_eq: "p < 16 \<Longrightarrow> 16 * g + p = v \<longleftrightarrow> g = v div 16 \<and> p = v mod 16" for v :: nat
  by auto

lemma members_insert: "members (insert v S) g = (if g = v div 16 then insert (v mod 16) (members S g) else members S g)"
  by (auto simp: members_def id_eq)

lemma members_empty: "h \<notin> groups S \<Longrightarrow> members S h = {}"
  by (auto simp: members_def groups_def image_iff)

lemma groups_lt: "S \<subseteq> {..<256} \<Longrightarrow> groups S \<subseteq> {..<16}"
  by (auto simp: groups_def)

lemma groups_empty: "groups S = {} \<longleftrightarrow> S = {}"
  by (simp add: groups_def)

definition tail_of :: "nat set \<Rightarrow> nat set \<Rightarrow> u16 list" where
  "tail_of S G = map (\<lambda>h. word_of (members S h)) (sorted_list_of_set G)"

lemma tail_of_insert: "finite G \<Longrightarrow> v div 16 \<notin> G \<Longrightarrow> tail_of (insert v S) G = tail_of S G"
  by (auto simp: tail_of_def members_insert)

lemma stamp_of_split:
  assumes "finite S"
  shows "stamp_of S = word_of (groups S) # tail_of S {g \<in> groups S. g < h} @
           (if h \<in> groups S then [word_of (members S h)] else []) @ tail_of S {g \<in> groups S. h < g}"
  using sorted_split [of "groups S" h] assms by (simp add: stamp_of_def tail_of_def groups_def)

lemma length_tail_of: "finite G \<Longrightarrow> length (tail_of S G) = card G"
  by (simp add: tail_of_def)

lemma u16_div16: "v < 256 \<Longrightarrow> (word_of_nat v :: u16) div 16 = word_of_nat (v div 16)"
  by (simp add: word_arith_nat_div unat_of_nat)

lemma u16_mod16: "v < 256 \<Longrightarrow> (word_of_nat v :: u16) mod 16 = word_of_nat (v mod 16)"
  by (simp add: word_arith_nat_mod unat_of_nat)

lemma u16_minus16: "h < 16 \<Longrightarrow> unat (16 - word_of_nat h :: u16) = 16 - h"
proof -
  assume h: "h < 16"
  have "(16 :: u16) - of_nat h = of_nat (16 - h)" using h by (subst of_nat_diff) simp_all
  moreover have "unat (of_nat (16 - h) :: u16) = 16 - h" by (simp add: unat_of_nat)
  ultimately show ?thesis by simp
qed

lemma step_first:
  assumes "trielib_ok T" "v < 256"
  shows "flagtostamp_step T (word_of_nat v) (stamp_of {}) = Some (stamp_of {v})"
  using assms members_insert [of v "{}" "v div 16"]
  by (simp add: flagtostamp_step_def stamp_of_def groups_def trielib_ok_def Let_def members_empty u16_div16 u16_mod16 word_of_single word_of_empty)


lemma trielib_okD:
  assumes "trielib_ok T"
  shows "tl_W T = 16" "length (tl_MaskLo T 16) = 17" "m < 17 \<Longrightarrow> tl_MaskLo T 16 ! m = NOT (mask m)"
  using assms by (simp_all add: trielib_ok_def del: upt_rec_numeral)

lemma step_eval:
  assumes T: "trielib_ok T" and v: "v < 256" and G: "G \<subseteq> {..<16}" and xs: "xs \<noteq> []"
    and h: "h = v div 16" and k: "k = Suc (card {g \<in> G. g < h})"
  shows "flagtostamp_step T (word_of_nat v) (word_of G # xs) =
    (if h \<in> G then (if k < Suc (length xs) then Some ((word_of G # xs)[k := (word_of G # xs) ! k OR shl16 1 (15 - word_of_nat (v mod 16))]) else None)
     else do { pre \<leftarrow> slice (word_of (insert h G) # xs) 0 k;
               Some ((pre @ [word_of {v mod 16}]) @ (if k < Suc (length xs) then drop k (word_of (insert h G) # xs) else [])) })"
proof -
  have l: "h < 16" "h \<le> 15" "v mod 16 \<le> 15" "16 - h < 17" using v h by auto
  have c: "countSetBits T (word_of G AND NOT (mask (16 - h))) + 1 = k"
    using countSetBits_below [OF T G l(1)] k by simp
  have d: "(word_of_nat v :: u16) div 16 = word_of_nat h" using u16_div16 [OF v] h by simp
  have m: "tl_MaskLo T 16 ! (16 - h) = NOT (mask (16 - h))" using trielib_okD(3) [OF T l(4)] .
  have z: "\<not> 17 \<le> 16 - h" by simp
  have one: "length (word_of G # xs) \<noteq> 1" using xs by simp
  show ?thesis
    unfolding flagtostamp_step_def Let_def trielib_okD(1,2) [OF T] of_nat_numeral d u16_mod16 [OF v] u16_minus16 [OF l(1)] m
      if_not_P [OF one] nth_Cons_0 c word_of_insert [OF l(2)] word_of_single [OF l(3)] or.left_neutral shr16_bit [OF l(2)] list_update_code
    using z by simp
qed


lemma step_next:
  assumes T: "trielib_ok T" and v: "v < 256" and S: "S \<subseteq> {..<256}" "S \<noteq> {}"
  shows "flagtostamp_step T (word_of_nat v) (stamp_of S) = Some (stamp_of (insert v S))"
proof -
  define h where "h = v div 16"
  define A where "A = tail_of S {g \<in> groups S. g < h}"
  define B where "B = tail_of S {g \<in> groups S. h < g}"
  define M where "M = (if h \<in> groups S then [word_of (members S h)] else [])"
  have fin: "finite S" using S(1) finite_subset by blast
  have fg: "finite {g \<in> groups S. P g}" for P using fin by (simp add: groups_def)
  have k: "card {g \<in> groups S. g < h} = length A" using fg by (simp add: A_def length_tail_of)
  have st: "stamp_of S = word_of (groups S) # A @ M @ B"
    using stamp_of_split [OF fin, of h] by (simp add: A_def B_def M_def)
  have "length (stamp_of S) = Suc (card (groups S))" by (simp add: stamp_of_def)
  moreover have "card (groups S) \<noteq> 0" using S(2) fin by (simp add: groups_def)
  ultimately have ne: "A @ M @ B \<noteq> []" using st by auto
  have ti: "tail_of (insert v S) {g \<in> groups S. g < h} = A" "tail_of (insert v S) {g \<in> groups S. h < g} = B"
    by (simp_all add: tail_of_insert A_def B_def h_def fg)
  have gs: "{g \<in> groups (insert v S). g < h} = {g \<in> groups S. g < h}" "{g \<in> groups (insert v S). h < g} = {g \<in> groups S. h < g}"
    by (auto simp: groups_insert h_def)
  have st': "stamp_of (insert v S) = word_of (insert h (groups S)) # A @ word_of (insert (v mod 16) (members S h)) # B"
    using stamp_of_split [of "insert v S" h] fin ti gs by (simp add: groups_insert members_insert h_def)
  have p: "v mod 16 \<le> 15" by simp
  show ?thesis
    unfolding st st' step_eval [OF T v groups_lt [OF S(1)] ne h_def refl] k
    by (cases "h \<in> groups S")
      (simp_all add: M_def word_of_insert [OF p] insert_absorb nth_append slice_def members_empty)
qed

lemma flagtostamp_loop_stamp:
  assumes "trielib_ok T"
  shows "S \<subseteq> {..<256} \<Longrightarrow> list_all (\<lambda>v. v < 256) ids \<Longrightarrow>
    flagtostamp_loop T (map word_of_nat ids) (stamp_of S) = Some (stamp_of (S \<union> set ids))"
proof (induction ids arbitrary: S)
  case (Cons v ids)
  hence "flagtostamp_step T (word_of_nat v) (stamp_of S) = Some (stamp_of (insert v S))"
    using step_first [OF assms] step_next [OF assms] by (cases "S = {}") auto
  thus ?case using Cons.IH [of "insert v S"] Cons.prems by simp
qed simp

lemma flagtostamp_stamp:
  assumes "trielib_ok T" "list_all (\<lambda>v. v < 256) ids"
  shows "flagtostamp T (map word_of_nat ids) = Some (stamp_of (set ids))"
proof -
  have "stamp_of {} = [0]" by (simp add: stamp_of_def groups_def word_of_empty)
  thus ?thesis using flagtostamp_loop_stamp [of T "{}" ids] assms by (simp add: flagtostamp_def)
qed

subsection \<open>Decoding\<close>

lemma rest_zero: "push_bit i (w :: u16) = 0 \<longleftrightarrow> (\<forall>n < 16 - i. \<not> bit w n)"
  by (auto simp: bit_eq_iff bit_simps) (metis add.commute add_diff_cancel_left' le_add1 less_diff_conv)

lemma push_word_of: "push_bit i (word_of P) = 0 \<longleftrightarrow> (\<forall>p. i \<le> p \<and> p < 16 \<longrightarrow> p \<notin> P)"
proof -
  have "(\<forall>n < 16 - i. \<not> (n < 16 \<and> 15 - n \<in> P)) \<longleftrightarrow> (\<forall>p. i \<le> p \<and> p < 16 \<longrightarrow> p \<notin> P)"
  proof (intro iffI allI impI)
    fix p assume *: "\<forall>n < 16 - i. \<not> (n < 16 \<and> 15 - n \<in> P)" and "i \<le> p \<and> p < 16"
    hence "15 - p < 16 - i" "15 - p < 16" "15 - (15 - p) = p" by arith+
    thus "p \<notin> P" using * [rule_format, of "15 - p"] by auto
  next
    fix n assume *: "\<forall>p. i \<le> p \<and> p < 16 \<longrightarrow> p \<notin> P" and "n < 16 - i"
    hence "i \<le> 15 - n \<and> 15 - n < 16" by arith
    thus "\<not> (n < 16 \<and> 15 - n \<in> P)" using * by blast
  qed
  thus ?thesis by (simp add: rest_zero bit_word_of)
qed

definition bit_at :: "nat \<Rightarrow> u16" where
  \<comment> \<open>the mask of the \<open>i\<close>-th round\<close>
  "bit_at i = drop_bit i 0x8000"

lemma bit_at_Suc: "drop_bit 1 (bit_at i) = bit_at (Suc i)"
  by (simp add: bit_at_def)

lemma bit_at_0: "bit_at 0 = 0x8000"
  by (simp add: bit_at_def)

lemma bit_bit_at: "bit (bit_at i) n \<longleftrightarrow> n + i = 15"
proof -
  have "(0x8000 :: u16) = 2 ^ 15" by simp
  thus ?thesis unfolding bit_at_def by (simp only: bit_drop_bit_eq comp_def bit_exp_iff) (auto simp: add.commute)
qed

lemma test_bit16: "i < 16 \<Longrightarrow> ((word_of P AND bit_at i) = bit_at i) \<longleftrightarrow> i \<in> P"
proof -
  assume i: "i < 16"
  have "bit (word_of P AND bit_at i) n \<longleftrightarrow> bit (bit_at i) n \<and> i \<in> P" for n
  proof (cases "n + i = 15")
    case True
    hence "n < 16" "15 - n = i" by arith+
    with True show ?thesis by (simp add: bit_and_iff bit_bit_at bit_word_of)
  qed (simp add: bit_and_iff bit_bit_at)
  moreover have "bit (bit_at i) (15 - i)" using i by (simp add: bit_bit_at)
  ultimately show ?thesis by (metis bit_word_eqI)
qed

lemma filter_none: "(\<forall>p. i \<le> p \<and> p < 16 \<longrightarrow> p \<notin> P) \<Longrightarrow> filter (\<lambda>p. p \<in> P) [i..<16] = []"
  by (auto simp: filter_empty_conv)

lemma tag_loop_filter: "i \<le> 16 \<Longrightarrow> tag_loop [i..<16] (word_of P) (bit_at i) acc = acc @ filter (\<lambda>p. p \<in> P) [i..<16]"
proof (induction "16 - i" arbitrary: i acc)
  case (Suc n)
  hence u: "[i..<16] = i # [Suc i..<16]" by (simp add: upt_conv_Cons)
  have ih: "tag_loop [Suc i..<16] (word_of P) (bit_at (Suc i)) a = a @ filter (\<lambda>p. p \<in> P) [Suc i..<16]" for a
    using Suc by (intro Suc.hyps) auto
  show ?case
  proof (cases "push_bit i (word_of P) = 0")
    case True
    thus ?thesis using filter_none [of i P] unfolding u by (simp add: push_word_of)
  next
    case False
    thus ?thesis using Suc unfolding u tag_loop.simps bit_at_Suc ih by (simp add: test_bit16)
  qed
qed simp

lemma flag_loop_beyond: "\<forall>j \<in> set js. length flags \<le> index * 16 + j \<Longrightarrow> flag_loop js flags index flag m vals = vals"
  by (induction js arbitrary: m) (auto simp: Let_def)

lemma flag_loop_filter:
  "i \<le> 16 \<Longrightarrow> flag_loop [i..<16] flags index (word_of P) (bit_at i) vals =
     vals @ map (\<lambda>j. (index * 16 + j, flags ! (index * 16 + j))) (filter (\<lambda>j. j \<in> P \<and> index * 16 + j < length flags) [i..<16])"
proof (induction "16 - i" arbitrary: i vals)
  case (Suc n)
  hence u: "[i..<16] = i # [Suc i..<16]" by (simp add: upt_conv_Cons)
  have ih: "flag_loop [Suc i..<16] flags index (word_of P) (bit_at (Suc i)) a =
     a @ map (\<lambda>j. (index * 16 + j, flags ! (index * 16 + j))) (filter (\<lambda>j. j \<in> P \<and> index * 16 + j < length flags) [Suc i..<16])" for a
    using Suc by (intro Suc.hyps) auto
  consider "push_bit i (word_of P) = 0" | "length flags \<le> index * 16 + i"
    | "push_bit i (word_of P) \<noteq> 0" "index * 16 + i < length flags" by linarith
  thus ?case
  proof cases
    case 1
    hence "filter (\<lambda>j. j \<in> P \<and> index * 16 + j < length flags) [i..<16] = []"
      by (auto simp: push_word_of filter_empty_conv)
    thus ?thesis using 1 unfolding u by simp
  next
    case 2
    hence "filter (\<lambda>j. j \<in> P \<and> index * 16 + j < length flags) [i..<16] = []" by (auto simp: filter_empty_conv)
    thus ?thesis using 2 flag_loop_beyond [of "[i..<16]" flags index] by simp
  next
    case 3
    thus ?thesis using Suc(2) unfolding u flag_loop.simps bit_at_Suc Let_def ih by (simp add: test_bit16)
  qed
qed simp


lemma sorted_filter_upt: "S \<subseteq> {..<n} \<Longrightarrow> sorted_list_of_set S = filter (\<lambda>v. v \<in> S) [0..<n]"
proof -
  assume S: "S \<subseteq> {..<n}"
  hence "set (filter (\<lambda>v. v \<in> S) [0..<n]) = S" by auto
  thus ?thesis using sorted_list_of_set.idem_if_sorted_distinct [of "filter (\<lambda>v. v \<in> S) [0..<n]"]
    by (simp add: sorted_wrt_filter)
qed

lemma concat_filter_empty: "(\<And>x. x \<in> set xs \<Longrightarrow> \<not> P x \<Longrightarrow> f x = []) \<Longrightarrow> concat (map f (filter P xs)) = concat (map f xs)"
  by (induction xs) auto

lemma upt_blocks: "concat (map (\<lambda>h. map (\<lambda>j. h * 16 + j) [0..<16]) [0..<n]) = [0..<n * 16]"
proof (induction n)
  case (Suc n)
  have "[0..<Suc n * 16] = [0..<n * 16] @ [n * 16..<n * 16 + 16]"
    using upt_add_eq_append [of 0 "n * 16" 16] by (simp add: add.commute)
  moreover have "map (\<lambda>j. n * 16 + j) [0..<16] = [n * 16..<n * 16 + 16]"
    using map_add_upt [of "n * 16" 16] by (simp add: add.commute del: upt_rec_numeral)
  ultimately show ?case using Suc by (simp del: upt_rec_numeral)
qed simp

definition infos :: "string list \<Rightarrow> nat set \<Rightarrow> (nat \<times> string) list" where
  \<comment> \<open>the loaded ids of a set in increasing order, with their names\<close>
  "infos flags S = map (\<lambda>p. (p, flags ! p)) (filter (\<lambda>p. p < length flags) (sorted_list_of_set S))"

lemma info_loop_concat:
  "info_loop flags (zip hs (map (\<lambda>h. word_of (members S h)) hs)) vals =
     vals @ concat (map (\<lambda>h. map (\<lambda>j. (h * 16 + j, flags ! (h * 16 + j)))
       (filter (\<lambda>j. j \<in> members S h \<and> h * 16 + j < length flags) [0..<16])) hs)"
  by (induction hs arbitrary: vals) (simp_all add: flag_loop_filter [of 0, unfolded bit_at_0] del: upt_rec_numeral)

lemma blocks_infos:
  assumes "S \<subseteq> {..<256}"
  shows "concat (map (\<lambda>h. map (\<lambda>j. (h * 16 + j, flags ! (h * 16 + j)))
       (filter (\<lambda>j. j \<in> members S h \<and> h * 16 + j < length flags) [0..<16])) (sorted_list_of_set (groups S))) = infos flags S"
    (is "concat (map ?f _) = _")
proof -
  have f: "?f h = map (\<lambda>p. (p, flags ! p)) (filter (\<lambda>p. p < length flags) (filter (\<lambda>p. p \<in> S) (map (\<lambda>j. h * 16 + j) [0..<16])))" for h
    by (auto simp: filter_map comp_def members_def mult.commute conj_commute intro!: map_cong filter_cong simp del: upt_rec_numeral)
  have "sorted_list_of_set (groups S) = filter (\<lambda>h. h \<in> groups S) [0..<16]"
    using sorted_filter_upt [OF groups_lt [OF assms]] .
  hence "concat (map ?f (sorted_list_of_set (groups S))) = concat (map ?f [0..<16])"
    using concat_filter_empty [of "[0..<16]" "\<lambda>h. h \<in> groups S" ?f] members_empty [of _ S] by (simp del: upt_rec_numeral)
  also have "\<dots> = map (\<lambda>p. (p, flags ! p)) (filter (\<lambda>p. p < length flags) (filter (\<lambda>p. p \<in> S) (concat (map (\<lambda>h. map (\<lambda>j. h * 16 + j) [0..<16]) [0..<16]))))"
    unfolding f by (simp only: filter_concat map_concat map_map comp_def)
  also have "\<dots> = infos flags S"
    unfolding upt_blocks infos_def sorted_filter_upt [OF assms] by simp
  finally show ?thesis .
qed

lemma flagstoinfo_stamp:
  assumes "S \<subseteq> {..<256}"
  shows "flagstoinfo r (stamp_of S) = Some (Inr (infos (r_flags r) S))"
proof -
  have "tag_loop [0..<16] (word_of (groups S)) 0x8000 [] = sorted_list_of_set (groups S)"
    using tag_loop_filter [of 0 "groups S" "[]"] sorted_filter_upt [OF groups_lt [OF assms]]
    by (simp add: bit_at_0 del: upt_rec_numeral)
  thus ?thesis
    by (simp add: flagstoinfo_def stamp_of_def Let_def info_loop_concat blocks_infos [OF assms] del: upt_rec_numeral)
qed

lemma byte_pair: "of_nat (unat (of_nat (unat v mod 256) :: u8) + 256 * unat (of_nat (unat v div 256) :: u8)) = (v :: u16)"
proof -
  have "unat v < 65536" using unsigned_less [of v] by simp
  hence "unat (of_nat (unat v mod 256) :: u8) = unat v mod 256" "unat (of_nat (unat v div 256) :: u8) = unat v div 256"
    by (simp_all add: unat_of_nat less_mult_imp_div_less)
  thus ?thesis by (simp only: mod_mult_div_eq) simp
qed

lemma nth_uint16tobyte:
  "i < length u \<Longrightarrow> uint16tobyte u ! (2 * i) = of_nat (unat (u ! i) mod 256) \<and> uint16tobyte u ! (2 * i + 1) = of_nat (unat (u ! i) div 256)"
proof (induction u arbitrary: i)
  case (Cons v u)
  thus ?case by (cases i) (simp_all add: uint16tobyte_def)
qed simp

lemma byte2uint16_uint16tobyte: "byte2uint16 (uint16tobyte u) = u"
proof -
  have "length (uint16tobyte u) = 2 * length u" by (induction u) (simp_all add: uint16tobyte_def)
  moreover have "of_nat (unat (uint16tobyte u ! (2 * i)) + 256 * unat (uint16tobyte u ! (2 * i + 1))) = u ! i" if "i < length u" for i
    using nth_uint16tobyte [OF that] byte_pair [of "u ! i"] by (simp only:)
  ultimately show ?thesis by (intro nth_equalityI) (simp_all add: byte2uint16_def del: of_nat_add of_nat_mult of_nat_unat)
qed

text \<open>
  C8: For blocklist ids below 256, \<^verbatim>\<open>flagtostamp\<close> returns a stamp from whose bytes \<^verbatim>\<open>flagstoinfo\<close> reads back the ids
  of the lists that are loaded, each once and in increasing order, with their names.
\<close>
theorem stamp_roundtrip:
  assumes "trielib_ok T" "list_all (\<lambda>v. v < 256) ids"
  shows "\<exists>stamp. flagtostamp T (map of_nat ids) = Some stamp \<and>
    flagstoinfo r (byte2uint16 (uint16tobyte stamp)) =
      Some (Inr (map (\<lambda>p. (p, r_flags r ! p)) (filter (\<lambda>p. p < length (r_flags r)) (sorted_list_of_set (set ids)))))"
proof -
  have "set ids \<subseteq> {..<256}" using assms(2) by (auto simp: list_all_iff)
  thus ?thesis using flagtostamp_stamp [OF assms] flagstoinfo_stamp by (simp add: byte2uint16_uint16tobyte infos_def)
qed


definition mini_trie :: trielib where
  "mini_trie = \<lparr> tl_W = 16, tl_MaskLo = (\<lambda>w. map (\<lambda>m. NOT (mask m)) [0..<17]),
     tl_BitsetTable256 = (\<lambda>i. card {k. bit i k}), tl_DNlookup = (\<lambda>n s. (n = ''ads.com'' \<and> s \<noteq> '''', [''A''])) \<rparr>"

theorem stamp_roundtrip_witness:
  "trielib_ok mini_trie \<and> (\<exists>stamp. flagtostamp mini_trie (map of_nat [3, 1, 35, 2]) = Some stamp \<and>
    flagstoinfo \<lparr> r_flags = [''a:x'', ''a:y'', ''b:z''], r_tags = [], r_mode = localBlock, r_stamp = '''' \<rparr> (byte2uint16 (uint16tobyte stamp)) =
      Some (Inr [(1, ''a:y''), (2, ''b:z'')]))"
proof -
  have t: "trielib_ok mini_trie" by (simp add: trielib_ok_def mini_trie_def del: upt_rec_numeral)
  have s: "filter (\<lambda>p. p < 3) (sorted_list_of_set (set [3, 1, 35, 2])) = [1, 2 :: nat]"
    by (simp add: sorted_list_of_set_insert_remove)
  have l: "list_all (\<lambda>v. v < 256) [3, 1, 35, 2 :: nat]" by simp
  show ?thesis
    using t s stamp_roundtrip [OF t l, of "\<lparr> r_flags = [''a:x'', ''a:y'', ''b:z''], r_tags = [], r_mode = localBlock, r_stamp = '''' \<rparr>"]
    by (simp add: numeral_2_eq_2)
qed

end
