(* ===== verification/Gotext.thy ===== *)
theory Gotext
  imports Xdns "HOL-Library.Sublist"
begin

text \<open>
  What the code uses of Go's text handling: the runes of a string (UTF-8, with the replacement character for
  invalid bytes), decimal numbers, and the textual forms of addresses, ports and prefixes as \<^verbatim>\<open>net/netip\<close> and
  \<^verbatim>\<open>net\<close> parse and print them. The helpers of \<^verbatim>\<open>intra/core/ip.go\<close> and \<^verbatim>\<open>intra/xdns\<close> built on them follow.
\<close>

subsection \<open>Runes\<close>

definition cont :: "char \<Rightarrow> bool" where
  "cont c = (0x80 \<le> byte_of c \<and> byte_of c \<le> 0xbf)"

definition rune_error :: nat where
  "rune_error = 0xfffd"

definition decode_rune :: "string \<Rightarrow> nat \<times> nat" where
  \<comment> \<open>\<^verbatim>\<open>utf8.DecodeRune\<close> on a non-empty string: the rune and its width\<close>
  "decode_rune s =
     (let b = (\<lambda>i. byte_of (s ! i)); n = length s; b0 = b 0
      in if b0 < 0x80 then (b0, 1)
         else if 0xc2 \<le> b0 \<and> b0 \<le> 0xdf \<and> 2 \<le> n \<and> cont (s ! 1) then ((b0 - 0xc0) * 64 + (b 1 - 0x80), 2)
         else if 0xe0 \<le> b0 \<and> b0 \<le> 0xef \<and> 3 \<le> n \<and> cont (s ! 1) \<and> cont (s ! 2) \<and>
                 (b0 = 0xe0 \<longrightarrow> 0xa0 \<le> b 1) \<and> (b0 = 0xed \<longrightarrow> b 1 \<le> 0x9f)
              then ((b0 - 0xe0) * 4096 + (b 1 - 0x80) * 64 + (b 2 - 0x80), 3)
         else if 0xf0 \<le> b0 \<and> b0 \<le> 0xf4 \<and> 4 \<le> n \<and> cont (s ! 1) \<and> cont (s ! 2) \<and> cont (s ! 3) \<and>
                 (b0 = 0xf0 \<longrightarrow> 0x90 \<le> b 1) \<and> (b0 = 0xf4 \<longrightarrow> b 1 \<le> 0x8f)
              then ((b0 - 0xf0) * 262144 + (b 1 - 0x80) * 4096 + (b 2 - 0x80) * 64 + (b 3 - 0x80), 4)
         else (rune_error, 1))"

lemma decode_rune_width: "1 \<le> snd (decode_rune s)"
  by (simp add: decode_rune_def Let_def)

function runes :: "string \<Rightarrow> nat list" where
  \<comment> \<open>\<^verbatim>\<open>[]rune(s)\<close>\<close>
  "runes s = (if s = [] then [] else fst (decode_rune s) # runes (drop (snd (decode_rune s)) s))"
  by pat_completeness auto
termination
proof (relation "measure length")
  fix s :: string
  assume "s \<noteq> []"
  then show "(drop (snd (decode_rune s)) s, s) \<in> measure length"
    using decode_rune_width [of s] by (cases s) auto
qed simp

declare runes.simps [simp del]

definition encode_rune :: "nat \<Rightarrow> string" where
  "encode_rune r =
     (let r = (if r > 0x10ffff \<or> (0xd800 \<le> r \<and> r \<le> 0xdfff) then rune_error else r)
      in map char_of (if r < 0x80 then [r]
         else if r < 0x800 then [0xc0 + r div 64, 0x80 + r mod 64]
         else if r < 0x10000 then [0xe0 + r div 4096, 0x80 + r div 64 mod 64, 0x80 + r mod 64]
         else [0xf0 + r div 262144, 0x80 + r div 4096 mod 64, 0x80 + r div 64 mod 64, 0x80 + r mod 64]))"

definition string_of_runes :: "nat list \<Rightarrow> string" where
  "string_of_runes rs = concat (map encode_rune rs)"

subsection \<open>Numbers\<close>

definition is_digit :: "char \<Rightarrow> bool" where
  "is_digit c = (48 \<le> byte_of c \<and> byte_of c \<le> 57)"

definition digit_val :: "char \<Rightarrow> nat" where
  "digit_val c = byte_of c - 48"

definition dec_val :: "string \<Rightarrow> nat" where
  "dec_val s = foldl (\<lambda>n c. n * 10 + digit_val c) 0 s"

definition parse_uint16 :: "string \<Rightarrow> u16 option" where
  \<comment> \<open>\<^verbatim>\<open>strconv.ParseUint(s, 10, 16)\<close>\<close>
  "parse_uint16 s = (if s \<noteq> [] \<and> list_all is_digit s \<and> dec_val s \<le> 0xffff then Some (of_nat (dec_val s)) else None)"

definition dtoi :: "string \<Rightarrow> nat option" where
  \<comment> \<open>the decimal number a whole string is, as \<^verbatim>\<open>net.dtoi\<close> reads the length of a prefix\<close>
  "dtoi s = (if s \<noteq> [] \<and> list_all is_digit s \<and> dec_val s < 0xffffff then Some (dec_val s) else None)"

function dec :: "nat \<Rightarrow> string" where
  \<comment> \<open>decimal digits\<close>
  "dec n = (if n < 10 then [char_of (48 + n)] else dec (n div 10) @ [char_of (48 + n mod 10)])"
  by pat_completeness auto
termination by (relation "measure id") auto

declare dec.simps [simp del]

subsection \<open>Addresses\<close>

fun v4_loop :: "string \<Rightarrow> bool \<Rightarrow> nat \<Rightarrow> nat \<Rightarrow> bytes \<Rightarrow> bytes option" where
  \<comment> \<open>rest, at the start or after a dot, value and digits of the octet, octets so far\<close>
  "v4_loop [] dot val digLen octets = (if length octets < 3 then None else Some (octets @ [of_nat val]))"
| "v4_loop (c # s) dot val digLen octets =
     (if is_digit c then
        if digLen = 1 \<and> val = 0 then None
        else if val * 10 + digit_val c > 255 then None
        else v4_loop s False (val * 10 + digit_val c) (digLen + 1) octets
      else if c = CHR ''.'' then
        if dot \<or> s = [] \<or> length octets = 3 then None else v4_loop s True 0 0 (octets @ [of_nat val])
      else None)"

definition parse_ipv4_fields :: "string \<Rightarrow> bytes option" where
  "parse_ipv4_fields s = v4_loop s True 0 0 []"

definition hex_val :: "char \<Rightarrow> nat option" where
  "hex_val c = (let b = byte_of c
     in if 48 \<le> b \<and> b \<le> 57 then Some (b - 48) else if 97 \<le> b \<and> b \<le> 102 then Some (b - 87)
        else if 65 \<le> b \<and> b \<le> 70 then Some (b - 55) else None)"

fun hex_run :: "string \<Rightarrow> nat \<Rightarrow> nat \<Rightarrow> (nat \<times> nat \<times> string) option" where
  "hex_run [] off acc = Some (off, acc, [])"
| "hex_run (c # s) off acc =
     (case hex_val c of
        None \<Rightarrow> Some (off, acc, c # s)
      | Some d \<Rightarrow> if off > 3 \<or> acc * 16 + d > 0xffff then None else hex_run s (off + 1) (acc * 16 + d))"

fun v6_loop :: "nat \<Rightarrow> string \<Rightarrow> bytes \<Rightarrow> nat option \<Rightarrow> (string \<times> bytes \<times> nat option) option" where
  \<comment> \<open>groups left, rest, bytes so far, position of the ellipsis\<close>
  "v6_loop 0 s ip ellipsis = Some (s, ip, ellipsis)"
| "v6_loop (Suc k) s ip ellipsis =
     (case hex_run s 0 0 of
        None \<Rightarrow> None
      | Some (off, acc, r) \<Rightarrow>
          if off = 0 then None
          else if r \<noteq> [] \<and> hd r = CHR ''.'' then
            (if ellipsis = None \<and> length ip \<noteq> 12 then None
             else if length ip + 4 > 16 then None
             else case parse_ipv4_fields s of None \<Rightarrow> None | Some f \<Rightarrow> Some ([], ip @ f, ellipsis))
          else
            let ip = ip @ [of_nat (acc div 256), of_nat (acc mod 256)]
            in if r = [] then Some ([], ip, ellipsis)
               else if hd r \<noteq> CHR '':'' \<or> length r = 1 then None
               else
                 let s = tl r
                 in if hd s = CHR '':'' then
                      (if ellipsis \<noteq> None then None
                       else if tl s = [] then Some ([], ip, Some (length ip))
                       else v6_loop k (tl s) ip (Some (length ip)))
                    else v6_loop k s ip ellipsis)"

definition expand :: "string \<times> bytes \<times> nat option \<Rightarrow> bytes option" where
  "expand p = (case p of (s, ip, ellipsis) \<Rightarrow>
     if s \<noteq> [] then None
     else if length ip < 16 then
       (case ellipsis of None \<Rightarrow> None | Some e \<Rightarrow> Some (take e ip @ replicate (16 - length ip) 0 @ drop e ip))
     else if ellipsis \<noteq> None then None else Some ip)"

definition cut_at :: "char \<Rightarrow> string \<Rightarrow> (string \<times> string) option" where
  \<comment> \<open>what stands before and after the first occurrence\<close>
  "cut_at c s = (if c \<in> set s then Some (takeWhile (\<lambda>x. x \<noteq> c) s, drop 1 (dropWhile (\<lambda>x. x \<noteq> c) s)) else None)"

definition cut_last :: "char \<Rightarrow> string \<Rightarrow> (string \<times> string) option" where
  "cut_last c s = map_option (\<lambda>(a, b). (rev b, rev a)) (cut_at c (rev s))"

definition parse_ipv6 :: "string \<Rightarrow> (addr \<times> string) option" where
  "parse_ipv6 s0 =
     (case (case cut_at CHR ''%'' s0 of None \<Rightarrow> Some (s0, '''') | Some (s, z) \<Rightarrow> if z = '''' then None else Some (s, z)) of
        None \<Rightarrow> None
      | Some (s, zone) \<Rightarrow>
          if take 2 s = ''::'' then
            (if length s = 2 then Some (Addr6 0, zone)
             else case Option.bind (v6_loop 8 (drop 2 s) [] (Some 0)) expand of
                    None \<Rightarrow> None | Some ip \<Rightarrow> Some (Addr6 (of_nat (be_val ip)), zone))
          else case Option.bind (v6_loop 8 s [] None) expand of
                 None \<Rightarrow> None | Some ip \<Rightarrow> Some (Addr6 (of_nat (be_val ip)), zone))"

definition parse_addr :: "string \<Rightarrow> (addr \<times> string) option" where
  \<comment> \<open>\<^verbatim>\<open>netip.ParseAddr\<close>: the address and its zone\<close>
  "parse_addr s =
     (case List.find (\<lambda>c. c \<in> {CHR ''.'', CHR '':'', CHR ''%''}) s of
        None \<Rightarrow> None
      | Some c \<Rightarrow>
          if c = CHR ''.'' then map_option (\<lambda>f. (Addr4 (of_nat (be_val f)), '''')) (parse_ipv4_fields s)
          else if c = CHR '':'' then parse_ipv6 s else None)"

definition parse_addrport :: "string \<Rightarrow> (addrport \<times> string) option" where
  \<comment> \<open>\<^verbatim>\<open>netip.ParseAddrPort\<close>\<close>
  "parse_addrport s =
     (case cut_last CHR '':'' s of
        None \<Rightarrow> None
      | Some (ip, port) \<Rightarrow>
          if ip = [] \<or> port = [] then None
          else
            let bracket = (hd ip = CHR ''['')
            in if bracket \<and> (length ip < 2 \<or> last ip \<noteq> CHR '']'') then None
               else case (parse_uint16 port, parse_addr (if bracket then butlast (tl ip) else ip)) of
                      (Some p, Some (a, z)) \<Rightarrow>
                        if bracket \<and> is4 a then None else if \<not> bracket \<and> is6 a then None else Some ((a, p), z)
                    | _ \<Rightarrow> None)"

definition bit_len :: "addr \<Rightarrow> nat" where
  "bit_len a = (case a of AddrZero \<Rightarrow> 0 | Addr4 _ \<Rightarrow> 32 | Addr6 _ \<Rightarrow> 128)"

definition mask_bytes :: "bytes \<Rightarrow> bytes \<Rightarrow> bytes" where
  "mask_bytes ip m = map2 (AND) ip m"

definition parse_cidr :: "string \<Rightarrow> ipnet option" where
  \<comment> \<open>the network \<^verbatim>\<open>net.ParseCIDR\<close> returns\<close>
  "parse_cidr s =
     (case cut_at CHR ''/'' s of
        None \<Rightarrow> None
      | Some (a, m) \<Rightarrow>
          (case (parse_addr a, dtoi m) of
             (Some (ip, z), Some n) \<Rightarrow>
               if z \<noteq> '''' \<or> n > bit_len ip then None
               else let mask = cidr_mask n (bit_len ip) in Some \<lparr> net_IP = mask_bytes (as_slice ip) mask, net_Mask = mask \<rparr>
           | _ \<Rightarrow> None))"

definition parse_prefix :: "string \<Rightarrow> (addr \<times> nat) option" where
  \<comment> \<open>\<^verbatim>\<open>netip.ParsePrefix\<close>\<close>
  "parse_prefix s =
     (case cut_last CHR ''/'' s of
        None \<Rightarrow> None
      | Some (a, m) \<Rightarrow>
          (case parse_addr a of
             Some (ip, z) \<Rightarrow>
               if z \<noteq> '''' \<or> m = [] \<or> \<not> list_all is_digit m \<or> (length m > 1 \<and> hd m = CHR ''0'') \<or> dec_val m > bit_len ip then None
               else Some (ip, dec_val m)
           | None \<Rightarrow> None))"

subsection \<open>Printing\<close>

definition v4_string :: "bytes \<Rightarrow> string" where
  "v4_string b = join_with CHR ''.'' (map (\<lambda>x. dec (unat x)) b)"

definition hex_digit :: "nat \<Rightarrow> char" where
  "hex_digit d = char_of (if d < 10 then 48 + d else 87 + d)"

function hex :: "nat \<Rightarrow> string" where
  "hex n = (if n < 16 then [hex_digit n] else hex (n div 16) @ [hex_digit (n mod 16)])"
  by pat_completeness auto
termination by (relation "measure id") auto

declare hex.simps [simp del]

definition zero_run :: "nat list \<Rightarrow> nat" where
  "zero_run ws = length (takeWhile (\<lambda>w. w = 0) ws)"

fun best_run :: "nat list \<Rightarrow> nat list \<Rightarrow> (nat \<times> nat) option \<Rightarrow> (nat \<times> nat) option" where
  \<comment> \<open>the first longest run of at least two zero groups, as its bounds\<close>
  "best_run [] ws best = best"
| "best_run (i # is) ws best =
     (let l = zero_run (drop i ws); cur = (case best of None \<Rightarrow> 0 | Some (a, b) \<Rightarrow> b - a)
      in best_run is ws (if l \<ge> 2 \<and> l > cur then Some (i, i + l) else best))"

definition v6_string :: "bytes \<Rightarrow> string" where
  "v6_string b =
     (let ws = map (\<lambda>i. unat (b ! (2 * i)) * 256 + unat (b ! (2 * i + 1))) [0..<8];
          h = (\<lambda>l. join_with CHR '':'' (map hex l))
      in case best_run [0..<8] ws None of
           None \<Rightarrow> h ws
         | Some (a, e) \<Rightarrow> h (take a ws) @ ''::'' @ h (drop e ws))"

definition addr_string :: "addr \<Rightarrow> string" where
  \<comment> \<open>\<^verbatim>\<open>Addr.String\<close>\<close>
  "addr_string a =
     (case a of
        AddrZero \<Rightarrow> ''invalid IP''
      | Addr4 w \<Rightarrow> v4_string (be_bytes 4 (unat w))
      | Addr6 w \<Rightarrow> if is4in6 a then ''::ffff:'' @ v4_string (drop 12 (be_bytes 16 (unat w))) else v6_string (be_bytes 16 (unat w)))"

definition ip_string :: "bytes \<Rightarrow> string" where
  \<comment> \<open>\<^verbatim>\<open>IP.String\<close> on a slice of 4 or 16 bytes\<close>
  "ip_string ip = (if ip_to4 ip \<noteq> [] then v4_string (ip_to4 ip) else v6_string ip)"

definition net_string :: "ipnet \<Rightarrow> string" where
  \<comment> \<open>\<^verbatim>\<open>IPNet.String\<close>\<close>
  "net_string n =
     (case network_number_and_mask n of
        None \<Rightarrow> ''<nil>''
      | Some (nn, m) \<Rightarrow>
          (case simple_mask_length m 0 of
             None \<Rightarrow> ip_string nn @ ''/'' @ concat (map (\<lambda>x. [hex_digit (unat x div 16), hex_digit (unat x mod 16)]) m)
           | Some l \<Rightarrow> ip_string nn @ ''/'' @ dec l))"

subsection \<open>Helpers\<close>

definition swap :: "'a list \<Rightarrow> nat \<Rightarrow> nat \<Rightarrow> 'a list" where
  "swap r i j = r[i := r ! j, j := r ! i]"

fun reverse_loop :: "nat \<Rightarrow> nat \<Rightarrow> nat \<Rightarrow> 'a list \<Rightarrow> 'a list" where
  \<comment> \<open>rounds left, \<open>i\<close>, \<open>j\<close>\<close>
  "reverse_loop 0 i j r = r"
| "reverse_loop (Suc n) i j r = reverse_loop n (i + 1) (j - 1) (swap r i j)"

definition StringReverse :: "string \<Rightarrow> string" where
  "StringReverse s =
     (let r = runes s in string_of_runes (reverse_loop (length r div 2) 0 (length r - 1) r))"

definition IP2Cidr :: "string \<Rightarrow> ipnet option" where
  "IP2Cidr ippOrCidr =
     (case parse_cidr ippOrCidr of
        Some ipnet \<Rightarrow> Some ipnet
      | None \<Rightarrow>
          (case (case parse_addrport ippOrCidr of
                   Some ((a, p), z) \<Rightarrow> Some a
                 | None \<Rightarrow> (case parse_addr ippOrCidr of Some (a, z) \<Rightarrow> Some a | None \<Rightarrow> None)) of
             None \<Rightarrow> None
           | Some ipaddr \<Rightarrow>
               let ip = as_slice ipaddr;
                   prefixLen = (if is_unspecified ipaddr then 0 else bit_len ipaddr);
                   mask = cidr_mask prefixLen (bit_len ipaddr)
               in Some \<lparr> net_IP = ip, net_Mask = mask \<rparr>))"

definition IP2Cidr2 :: "string \<Rightarrow> (addr \<times> nat) option" where
  "IP2Cidr2 ippOrCidr =
     (case parse_prefix ippOrCidr of
        Some p \<Rightarrow> Some p
      | None \<Rightarrow>
          (case (case parse_addrport ippOrCidr of
                   Some ((a, p), z) \<Rightarrow> Some a
                 | None \<Rightarrow> (case parse_addr ippOrCidr of Some (a, z) \<Rightarrow> Some a | None \<Rightarrow> None)) of
             None \<Rightarrow> None
           | Some ipaddr \<Rightarrow> Some (ipaddr, bit_len ipaddr)))"

end
