(* ===== verification/Iptree.thy ===== *)
theory Iptree
  imports Gotext Gomap
begin

text \<open>
  The tries of \<^verbatim>\<open>intra/backend\<close>: \<^verbatim>\<open>core_iptree.go\<close>, comma-separated values by route, and \<^verbatim>\<open>core_radixtree.go\<close>,
  values by reversed name. Both wrap a library that is not part of the repository: its operations are the fields
  of \<open>netlib\<close> and \<open>critlib\<close>, arguments of the definitions, and \<open>netlib_ok\<close> and \<open>critlib_ok\<close> say what they promise,
  over the map a trie stands for. The code stores nothing but strings, so a trie holds strings. \<^verbatim>\<open>WalkMatch\<close> and
  \<^verbatim>\<open>Allprefixed\<close> call a function that never stops the walk: they are the list of what it is called with.
\<close>

subsection \<open>The trie of networks\<close>

record 'n netlib =
  nl_New :: 'n
  nl_Get :: "'n \<Rightarrow> ipnet \<Rightarrow> unit + string option"
  nl_Add :: "'n \<Rightarrow> ipnet \<Rightarrow> string \<Rightarrow> bool \<times> 'n"
  nl_Delete :: "'n \<Rightarrow> ipnet \<Rightarrow> (unit + bool) \<times> 'n"
  nl_Match :: "'n \<Rightarrow> ipnet \<Rightarrow> unit + (ipnet \<times> string) option"
  nl_WalkMatch :: "'n \<Rightarrow> ipnet \<Rightarrow> (ipnet \<times> string) list"
  nl_Clear :: "'n \<Rightarrow> 'n"
  nl_Size :: "'n \<Rightarrow> nat"

datatype terr = errCidr | errNetwork

record 'n iptree =
  t4 :: 'n
  t6 :: 'n

definition NewIpTree :: "'n netlib \<Rightarrow> 'n iptree" where
  "NewIpTree L = \<lparr> t4 = nl_New L, t6 = nl_New L \<rparr>"

definition ip2cidr :: "string \<Rightarrow> terr + ipnet" where
  "ip2cidr ippOrCidr = (case IP2Cidr ippOrCidr of None \<Rightarrow> Inl errCidr | Some r \<Rightarrow> Inr r)"

definition it_net :: "'n iptree \<Rightarrow> ipnet \<Rightarrow> 'n" where
  "it_net c r = (if ip_to4 (net_IP r) \<noteq> [] then t4 c else t6 c)"

definition it_upd :: "'n iptree \<Rightarrow> ipnet \<Rightarrow> 'n \<Rightarrow> 'n iptree" where
  \<comment> \<open>the tree after its trie for \<open>r\<close> became \<open>t\<close>\<close>
  "it_upd c r t = (if ip_to4 (net_IP r) \<noteq> [] then c\<lparr> t4 := t \<rparr> else c\<lparr> t6 := t \<rparr>)"

definition it_get :: "'n netlib \<Rightarrow> string \<Rightarrow> 'n iptree \<Rightarrow> terr + string" where
  "it_get L cidr c =
     (case ip2cidr cidr of
        Inl e \<Rightarrow> Inl e
      | Inr r \<Rightarrow>
          (case nl_Get L (it_net c r) r of
             Inr (Some s) \<Rightarrow> Inr s
           | Inr None \<Rightarrow> Inr ''''
           | Inl _ \<Rightarrow> Inl errNetwork))"

definition it_set :: "'n netlib \<Rightarrow> string \<Rightarrow> string \<Rightarrow> 'n iptree \<Rightarrow> terr option \<times> 'n iptree" where
  "it_set L cidr v c =
     (case ip2cidr cidr of
        Inl e \<Rightarrow> (Some e, c)
      | Inr r \<Rightarrow> (case nl_Add L (it_net c r) r v of (ok, t) \<Rightarrow> (if ok then None else Some errNetwork, it_upd c r t)))"

definition it_del :: "'n netlib \<Rightarrow> string \<Rightarrow> 'n iptree \<Rightarrow> bool \<times> 'n iptree" where
  "it_del L cidr c =
     (case ip2cidr cidr of
        Inl e \<Rightarrow> (False, c)
      | Inr r \<Rightarrow> (case nl_Delete L (it_net c r) r of (res, t) \<Rightarrow> (res = Inr True, it_upd c r t)))"

definition it_add_to :: "'n netlib \<Rightarrow> string \<Rightarrow> string \<Rightarrow> string \<Rightarrow> 'n iptree \<Rightarrow> terr option \<times> 'n iptree" where
  \<comment> \<open>what \<^verbatim>\<open>add\<close> does once \<^verbatim>\<open>get\<close> returned \<open>x\<close> and released the lock\<close>
  "it_add_to L x cidr v c =
     (if length v = 0 \<or> x = v then (None, c)
      else if length x = 0 then it_set L cidr v c
      else if sublist v x then
        (if v \<in> set (split_at CHR '','' x) then (None, c) else it_set L cidr (x @ '','' @ v) c)
      else it_set L cidr (x @ '','' @ v) c)"

definition it_add :: "'n netlib \<Rightarrow> string \<Rightarrow> string \<Rightarrow> 'n iptree \<Rightarrow> terr option \<times> 'n iptree" where
  "it_add L cidr v c =
     (case it_get L cidr c of
        Inl e \<Rightarrow> (Some e, c)
      | Inr x \<Rightarrow> it_add_to L x cidr v c)"

definition it_Set :: "'n netlib \<Rightarrow> string \<Rightarrow> string \<Rightarrow> 'n iptree \<Rightarrow> terr option \<times> 'n iptree" where
  "it_Set L cidr v c = it_add L cidr v (snd (it_del L cidr c))"

fun without_loop :: "string list \<Rightarrow> string \<Rightarrow> string list \<Rightarrow> string list" where
  "without_loop [] v cur = cur"
| "without_loop (val # old) v cur = without_loop old v (if val \<noteq> v then cur @ [val] else cur)"

definition it_esc :: "'n netlib \<Rightarrow> string \<Rightarrow> string \<Rightarrow> 'n iptree \<Rightarrow> bool \<times> 'n iptree" where
  "it_esc L cidr v c =
     (case it_get L cidr c of
        Inl e \<Rightarrow> (False, c)
      | Inr x \<Rightarrow>
          if length x = 0 \<or> length v = 0 then (False, c)
          else if x = v then it_del L cidr c
          else if sublist v x then
            (let cur = without_loop (split_at CHR '','' x) v []
             in if length cur = 0 then it_del L cidr c
                else case it_set L cidr (join_with CHR '','' cur) c of (e, c) \<Rightarrow> (e = None, c))
          else (False, c))"

definition it_has :: "'n netlib \<Rightarrow> string \<Rightarrow> 'n iptree \<Rightarrow> terr + bool" where
  "it_has L cidr c =
     (case ip2cidr cidr of
        Inl e \<Rightarrow> Inl e
      | Inr r \<Rightarrow> (case nl_Get L (it_net c r) r of Inr o' \<Rightarrow> Inr (o' \<noteq> None) | Inl _ \<Rightarrow> Inl errNetwork))"

fun del_keys :: "'n netlib \<Rightarrow> ipnet list \<Rightarrow> 'n \<Rightarrow> nat \<Rightarrow> nat \<times> 'n" where
  "del_keys L [] t n = (n, t)"
| "del_keys L (k # keys) t n =
     (case nl_Delete L t k of (res, t) \<Rightarrow> del_keys L keys t (if res = Inr True then n + 1 else n))"

definition it_delAll :: "'n netlib \<Rightarrow> string \<Rightarrow> 'n iptree \<Rightarrow> nat \<times> 'n iptree" where
  "it_delAll L cidr c =
     (case ip2cidr cidr of
        Inl e \<Rightarrow> (0, c)
      | Inr r \<Rightarrow>
          let t = it_net c r; keys = map fst (nl_WalkMatch L t r)
          in case del_keys L keys t 0 of (n, t) \<Rightarrow> (n, it_upd c r t))"

definition it_hasAny :: "'n netlib \<Rightarrow> string \<Rightarrow> 'n iptree \<Rightarrow> terr + bool" where
  "it_hasAny L cidr c =
     (case ip2cidr cidr of
        Inl e \<Rightarrow> Inl e
      | Inr r \<Rightarrow> (case nl_Match L (it_net c r) r of Inl _ \<Rightarrow> Inl errNetwork | Inr m \<Rightarrow> Inr (m \<noteq> None)))"

definition it_getAny :: "'n netlib \<Rightarrow> string \<Rightarrow> 'n iptree \<Rightarrow> terr + string" where
  "it_getAny L cidr c =
     (case ip2cidr cidr of
        Inl e \<Rightarrow> Inl e
      | Inr r \<Rightarrow>
          (case nl_Match L (it_net c r) r of
             Inl _ \<Rightarrow> Inl errNetwork
           | Inr None \<Rightarrow> Inr ''''
           | Inr (Some (m, v)) \<Rightarrow> Inr (net_string m @ ''@'' @ v)))"

definition trim_right :: "char \<Rightarrow> string \<Rightarrow> string" where
  \<comment> \<open>\<^verbatim>\<open>strings.TrimRight\<close> with a cutset of one byte\<close>
  "trim_right d s = rev (dropWhile (\<lambda>x. x = d) (rev s))"

fun getAll_walk :: "(ipnet \<times> string) list \<Rightarrow> string \<Rightarrow> string" where
  "getAll_walk [] rv = rv"
| "getAll_walk ((k, s) # w) rv =
     getAll_walk w ((rv @ net_string k @ (if length s > 0 then ''@'' @ s else '''')) @ ''|'')"

definition it_getAll :: "'n netlib \<Rightarrow> string \<Rightarrow> 'n iptree \<Rightarrow> terr + string" where
  "it_getAll L cidr c =
     (case ip2cidr cidr of
        Inl e \<Rightarrow> Inl e
      | Inr r \<Rightarrow> Inr (trim_right CHR ''|'' (getAll_walk (nl_WalkMatch L (it_net c r) r) '''')))"

definition it_routes :: "'n netlib \<Rightarrow> string \<Rightarrow> 'n iptree \<Rightarrow> string" where
  "it_routes L cidr c =
     (case ip2cidr cidr of
        Inl e \<Rightarrow> ''''
      | Inr r \<Rightarrow> join_with CHR '','' (map (\<lambda>(k, v). net_string k) (nl_WalkMatch L (it_net c r) r)))"

definition it_values :: "'n netlib \<Rightarrow> string \<Rightarrow> 'n iptree \<Rightarrow> string" where
  "it_values L cidr c =
     (case ip2cidr cidr of
        Inl e \<Rightarrow> ''''
      | Inr r \<Rightarrow> join_with CHR '','' (filter (\<lambda>s. length s > 0) (map snd (nl_WalkMatch L (it_net c r) r))))"

fun like_loop :: "string list \<Rightarrow> string \<Rightarrow> string list \<Rightarrow> string list \<Rightarrow> string list \<times> string list" where
  \<comment> \<open>the values without the prefix, and those with it\<close>
  "like_loop [] like cur grab = (cur, grab)"
| "like_loop (val # old) like cur grab =
     (if \<not> prefix like val then like_loop old like (cur @ [val]) grab else like_loop old like cur (grab @ [val]))"

definition it_escLike :: "'n netlib \<Rightarrow> string \<Rightarrow> string \<Rightarrow> 'n iptree \<Rightarrow> int \<times> 'n iptree" where
  "it_escLike L cidr like c =
     (case it_get L cidr c of
        Inl e \<Rightarrow> (-1, c)
      | Inr x \<Rightarrow>
          if length x = 0 then (0, c)
          else if length like = 0 then (case it_delAll L cidr c of (n, c) \<Rightarrow> (int n, c))
          else if x = like then (case it_del L cidr c of (rmv, c) \<Rightarrow> (if rmv then 1 else 0, c))
          else if sublist like x then
            (let old = split_at CHR '','' x
             in case like_loop old like [] [] of
                  (cur, grab) \<Rightarrow>
                    (int (length grab),
                     if length cur = 0 then snd (it_del L cidr c)
                     else if length cur \<noteq> length old then snd (it_set L cidr (join_with CHR '','' cur) c)
                     else c))
          else (0, c))"

definition it_getLike :: "'n netlib \<Rightarrow> string \<Rightarrow> string \<Rightarrow> 'n iptree \<Rightarrow> string" where
  "it_getLike L cidr like c =
     (case it_get L cidr c of
        Inl e \<Rightarrow> ''''
      | Inr x \<Rightarrow>
          if length x = 0 then ''''
          else if length like = 0 \<or> x = like then x
          else if sublist like x then
            join_with CHR '','' (snd (like_loop (split_at CHR '','' x) like [] []))
          else '''')"

definition it_routesLike :: "'n netlib \<Rightarrow> string \<Rightarrow> string \<Rightarrow> 'n iptree \<Rightarrow> string" where
  "it_routesLike L cidr like c =
     (case ip2cidr cidr of
        Inl e \<Rightarrow> ''''
      | Inr r \<Rightarrow>
          join_with CHR '',''
            (map (\<lambda>(k, v). net_string k)
              (filter (\<lambda>(k, s). length s > 0 \<and> sublist like s \<and> list_ex (prefix like) (split_at CHR '','' s))
                (nl_WalkMatch L (it_net c r) r))))"

definition it_valuesLike :: "'n netlib \<Rightarrow> string \<Rightarrow> string \<Rightarrow> 'n iptree \<Rightarrow> string" where
  "it_valuesLike L cidr like c =
     (case ip2cidr cidr of
        Inl e \<Rightarrow> ''''
      | Inr r \<Rightarrow>
          join_with CHR '',''
            (concat (map (\<lambda>(k, s). if length s > 0 \<and> sublist like s then filter (prefix like) (split_at CHR '','' s) else [])
              (nl_WalkMatch L (it_net c r) r))))"

definition it_Clear :: "'n netlib \<Rightarrow> 'n iptree \<Rightarrow> 'n iptree" where
  "it_Clear L c = c\<lparr> t4 := nl_Clear L (t4 c), t6 := nl_Clear L (t6 c) \<rparr>"

definition it_Len :: "'n netlib \<Rightarrow> 'n iptree \<Rightarrow> nat" where
  "it_Len L c = nl_Size L (t4 c) + nl_Size L (t6 c)"

subsection \<open>The trie of names\<close>

record 't critlib =
  cl_New :: 't
  cl_Insert :: "'t \<Rightarrow> string \<Rightarrow> string \<Rightarrow> bool \<times> 't"
  cl_Set :: "'t \<Rightarrow> string \<Rightarrow> string \<Rightarrow> 't"
  cl_Delete :: "'t \<Rightarrow> string \<Rightarrow> bool \<times> 't"
  cl_Contains :: "'t \<Rightarrow> string \<Rightarrow> bool"
  cl_Get :: "'t \<Rightarrow> string \<Rightarrow> string option"
  cl_Allprefixed :: "'t \<Rightarrow> string \<Rightarrow> (string \<times> string) list"
  cl_LongestPrefix :: "'t \<Rightarrow> string \<Rightarrow> (string \<times> string) option"
  cl_Clear :: "'t \<Rightarrow> 't"
  cl_Size :: "'t \<Rightarrow> nat"

definition NewRadixTree :: "'t critlib \<Rightarrow> 't" where
  "NewRadixTree C = cl_New C"

definition reversed :: "string \<Rightarrow> string" where
  "reversed s = StringReverse s"

definition rx_add :: "'t critlib \<Rightarrow> string \<Rightarrow> 't \<Rightarrow> bool \<times> 't" where
  "rx_add C k t = cl_Insert C t (reversed k) ''''"

definition rx_set :: "'t critlib \<Rightarrow> string \<Rightarrow> string \<Rightarrow> 't \<Rightarrow> 't" where
  "rx_set C k v t = cl_Set C t (reversed k) v"

definition rx_del :: "'t critlib \<Rightarrow> string \<Rightarrow> 't \<Rightarrow> bool \<times> 't" where
  "rx_del C k t = cl_Delete C t (reversed k)"

definition rx_has :: "'t critlib \<Rightarrow> string \<Rightarrow> 't \<Rightarrow> bool" where
  "rx_has C k t = cl_Contains C t (reversed k)"

definition rx_get :: "'t critlib \<Rightarrow> string \<Rightarrow> 't \<Rightarrow> string" where
  "rx_get C k t = (case cl_Get C t (reversed k) of Some s \<Rightarrow> s | None \<Rightarrow> '''')"

fun rx_del_keys :: "'t critlib \<Rightarrow> string list \<Rightarrow> 't \<Rightarrow> nat \<Rightarrow> nat \<times> 't" where
  "rx_del_keys C [] t n = (n, t)"
| "rx_del_keys C (k # keys) t n =
     (case cl_Delete C t k of (ok, t) \<Rightarrow> rx_del_keys C keys t (if ok then n + 1 else n))"

definition rx_delAll :: "'t critlib \<Rightarrow> string \<Rightarrow> 't \<Rightarrow> nat \<times> 't" where
  \<comment> \<open>the slice of keys starts with ten empty ones\<close>
  "rx_delAll C p t = rx_del_keys C (replicate 10 '''' @ map fst (cl_Allprefixed C t (reversed p))) t 0"

definition rx_getMatch :: "'t critlib \<Rightarrow> string \<Rightarrow> 't \<Rightarrow> string option option" where
  "rx_getMatch C str t =
     (let rev = reversed str
      in case cl_LongestPrefix C t rev of
           None \<Rightarrow> Some None
         | Some (match, s) \<Rightarrow>
             if length match = length rev then Some (Some s)
             else if length match < length rev then
               (if length match = 0 then None
                else Some (if rev ! (length match - 1) = CHR ''.'' then Some s else None))
             else Some None)"

definition rx_hasAny :: "'t critlib \<Rightarrow> string \<Rightarrow> 't \<Rightarrow> bool option" where
  "rx_hasAny C p t = map_option (\<lambda>m. m \<noteq> None) (rx_getMatch C p t)"

definition rx_getAny :: "'t critlib \<Rightarrow> string \<Rightarrow> 't \<Rightarrow> string option" where
  "rx_getAny C p t = map_option (\<lambda>m. case m of Some s \<Rightarrow> s | None \<Rightarrow> '''') (rx_getMatch C p t)"

definition rx_Clear :: "'t critlib \<Rightarrow> 't \<Rightarrow> 't" where
  "rx_Clear C t = cl_Clear C t"

definition rx_Len :: "'t critlib \<Rightarrow> 't \<Rightarrow> nat" where
  "rx_Len C t = cl_Size C t"

subsection \<open>What the libraries promise\<close>

definition netlib_ok :: "'n netlib \<Rightarrow> ('n \<Rightarrow> ipnet \<Rightarrow> string option) \<Rightarrow> (ipnet \<Rightarrow> ipnet option) \<Rightarrow> (ipnet \<Rightarrow> ipnet \<Rightarrow> bool) \<Rightarrow> bool" where
  \<comment> \<open>a trie is a map from networks to values; \<open>key\<close> is the network a route is filed under, if it is one\<close>
  "netlib_ok L m key covers \<longleftrightarrow>
     m (nl_New L) = Map.empty \<and>
     (\<forall>t. m (nl_Clear L t) = Map.empty) \<and>
     (\<forall>t r. nl_Get L t r = (case key r of None \<Rightarrow> Inl () | Some k \<Rightarrow> Inr (m t k))) \<and>
     (\<forall>t r v. key r = None \<longrightarrow> \<not> fst (nl_Add L t r v) \<and> m (snd (nl_Add L t r v)) = m t) \<and>
     (\<forall>t r v k. key r = Some k \<longrightarrow> fst (nl_Add L t r v) \<and> m (snd (nl_Add L t r v)) = (m t)(k \<mapsto> v)) \<and>
     (\<forall>t r. key r = None \<longrightarrow> fst (nl_Delete L t r) = Inl () \<and> m (snd (nl_Delete L t r)) = m t) \<and>
     (\<forall>t r k. key r = Some k \<longrightarrow> fst (nl_Delete L t r) = Inr (m t k \<noteq> None) \<and> m (snd (nl_Delete L t r)) = (m t)(k := None)) \<and>
     (\<forall>t n v. m t n = Some v \<longrightarrow> key n = Some n) \<and>
     (\<forall>t r. key r = None \<longrightarrow> nl_WalkMatch L t r = []) \<and>
     (\<forall>t r k. key r = Some k \<longrightarrow> set (nl_WalkMatch L t r) = {(n, v). m t n = Some v \<and> covers n k})"

definition mini_nets :: "(ipnet \<times> string) list netlib" where
  \<comment> \<open>an association list of networks that only contain themselves\<close>
  "mini_nets = \<lparr> nl_New = [], nl_Get = (\<lambda>t r. Inr (map_of t r)), nl_Add = (\<lambda>t r v. (True, AList.update r v t)),
     nl_Delete = (\<lambda>t r. (Inr (map_of t r \<noteq> None), AList.delete r t)),
     nl_Match = (\<lambda>t r. Inr (map_option (Pair r) (map_of t r))),
     nl_WalkMatch = (\<lambda>t r. case map_of t r of None \<Rightarrow> [] | Some v \<Rightarrow> [(r, v)]),
     nl_Clear = (\<lambda>t. []), nl_Size = length \<rparr>"

lemma mini_nets_ok: "netlib_ok mini_nets map_of Some (=)"
  by (auto simp: netlib_ok_def mini_nets_def update_conv' delete_conv' split: option.splits)

subsection \<open>Comma-separated values\<close>

lemma split_at_ne [simp]: "split_at c x \<noteq> []"
  by (induction x) (auto split: list.splits)

lemma split_at_snoc: "c \<notin> set v \<Longrightarrow> split_at c (x @ c # v) = split_at c x @ [v]"
  by (induction x) (auto simp: split_at_no split: list.splits)

lemma join_Cons: "join_with c ((a # w) # ws) = a # join_with c (w # ws)" "ws \<noteq> [] \<Longrightarrow> join_with c ([] # ws) = c # join_with c ws"
  by (cases ws; simp)+

lemma join_split_at [simp]: "join_with c (split_at c x) = x"
  by (induction x) (auto simp: join_Cons split: list.splits)

lemma split_at_parts: "w \<in> set (split_at c x) \<Longrightarrow> c \<notin> set w"
  by (induction x arbitrary: w) (auto split: list.splits if_splits)

lemma split_at_sublist: "w \<in> set (split_at c x) \<Longrightarrow> sublist w x"
proof -
  have "sublist w (join_with c ws)" if "w \<in> set ws" for ws
    using that
  proof (induction ws rule: join_with.induct [of _ c])
    case (3 c w1 w2 ws)
    have "sublist w2' (w1 @ c # w2')" for w2' by (metis append_Cons append_Nil append_assoc sublist_appendI append_Nil2)
    then show ?case using 3 by (auto intro: sublist_order.order_trans)
  qed auto
  then show "w \<in> set (split_at c x) \<Longrightarrow> sublist w x" using join_split_at [of c x] by metis
qed

lemma split_at_single: "c \<notin> set v \<Longrightarrow> split_at c v = [v]"
  by (rule split_at_no)

lemma without_loop_filter: "without_loop old v cur = cur @ filter (\<lambda>x. x \<noteq> v) old"
  by (induction old arbitrary: cur) auto

lemma like_loop_filter: "like_loop old like cur grab = (cur @ filter (\<lambda>x. \<not> prefix like x) old, grab @ filter (prefix like) old)"
  by (induction old arbitrary: cur grab) auto

subsection \<open>A multimap\<close>

type_synonym route = "bool \<times> ipnet"

definition route_of :: "(ipnet \<Rightarrow> ipnet option) \<Rightarrow> string \<Rightarrow> route option" where
  \<comment> \<open>the family and the network a textual route is filed under\<close>
  "route_of key cidr =
     (case ip2cidr cidr of Inl _ \<Rightarrow> None | Inr r \<Rightarrow> map_option (Pair (ip_to4 (net_IP r) \<noteq> [])) (key r))"

definition stored :: "('n \<Rightarrow> ipnet \<Rightarrow> string option) \<Rightarrow> 'n iptree \<Rightarrow> route \<Rightarrow> string option" where
  "stored m c q = m (if fst q then t4 c else t6 c) (snd q)"

definition values_of :: "('n \<Rightarrow> ipnet \<Rightarrow> string option) \<Rightarrow> 'n iptree \<Rightarrow> route \<Rightarrow> string list" where
  "values_of m c q = (case stored m c q of None \<Rightarrow> [] | Some x \<Rightarrow> split_at CHR '','' x)"

definition it_wf :: "('n \<Rightarrow> ipnet \<Rightarrow> string option) \<Rightarrow> 'n iptree \<Rightarrow> bool" where
  \<comment> \<open>what is stored for a route lists distinct values, none of them empty\<close>
  "it_wf m c \<longleftrightarrow> (\<forall>q. distinct (values_of m c q) \<and> '''' \<notin> set (values_of m c q))"

definition ins :: "string \<Rightarrow> string list \<Rightarrow> string list" where
  "ins v vs = (if v \<in> set vs then vs else vs @ [v])"

lemma route_of_Some: "route_of key cidr = Some q \<longleftrightarrow> (\<exists>r k. ip2cidr cidr = Inr r \<and> key r = Some k \<and> q = (ip_to4 (net_IP r) \<noteq> [], k))"
  by (auto simp: route_of_def split: sum.splits)

lemma route_of_None: "route_of key cidr = None \<longleftrightarrow> (\<forall>r. ip2cidr cidr = Inr r \<longrightarrow> key r = None)"
  by (auto simp: route_of_def split: sum.splits)

lemma get_stored:
  assumes "netlib_ok L m key covers" "route_of key cidr = Some q"
  shows "it_get L cidr c = Inr (case stored m c q of None \<Rightarrow> '''' | Some x \<Rightarrow> x)"
  using assms by (auto simp: route_of_Some it_get_def netlib_ok_def stored_def it_net_def split: option.splits)

lemma get_error:
  assumes "netlib_ok L m key covers" "route_of key cidr = None"
  shows "\<exists>e. it_get L cidr c = Inl e"
  using assms by (auto simp: route_of_None it_get_def netlib_ok_def split: sum.splits)

lemma netlib_okD:
  assumes "netlib_ok L m key covers"
  shows "m (nl_New L) = Map.empty" "m (nl_Clear L t) = Map.empty"
    "key r = None \<Longrightarrow> \<not> fst (nl_Add L t r v)" "key r = None \<Longrightarrow> m (snd (nl_Add L t r v)) = m t"
    "key r = Some k \<Longrightarrow> fst (nl_Add L t r v)" "key r = Some k \<Longrightarrow> m (snd (nl_Add L t r v)) = (m t)(k \<mapsto> v)"
    "key r = None \<Longrightarrow> fst (nl_Delete L t r) = Inl ()" "key r = None \<Longrightarrow> m (snd (nl_Delete L t r)) = m t"
    "key r = Some k \<Longrightarrow> fst (nl_Delete L t r) = Inr (m t k \<noteq> None)"
    "key r = Some k \<Longrightarrow> m (snd (nl_Delete L t r)) = (m t)(k := None)"
    "m t n = Some w \<Longrightarrow> key n = Some n"
    "key r = Some k \<Longrightarrow> set (nl_WalkMatch L t r) = {(n, v). m t n = Some v \<and> covers n k}"
    "key r = None \<Longrightarrow> nl_WalkMatch L t r = []"
proof -
  note a = assms [unfolded netlib_ok_def]
  note b = a [THEN conjunct2, THEN conjunct2, THEN conjunct2]
  note d = b [THEN conjunct2, THEN conjunct2]
  note w = d [THEN conjunct2, THEN conjunct2]
  show "m (nl_New L) = Map.empty" using a [THEN conjunct1] .
  show "m (nl_Clear L t) = Map.empty" using a [THEN conjunct2, THEN conjunct1] by blast
  show "key r = None \<Longrightarrow> \<not> fst (nl_Add L t r v)" "key r = None \<Longrightarrow> m (snd (nl_Add L t r v)) = m t"
    using b [THEN conjunct1] by blast+
  show "key r = Some k \<Longrightarrow> fst (nl_Add L t r v)" "key r = Some k \<Longrightarrow> m (snd (nl_Add L t r v)) = (m t)(k \<mapsto> v)"
    using b [THEN conjunct2, THEN conjunct1] by blast+
  show "key r = None \<Longrightarrow> fst (nl_Delete L t r) = Inl ()" "key r = None \<Longrightarrow> m (snd (nl_Delete L t r)) = m t"
    using d [THEN conjunct1] by blast+
  show "key r = Some k \<Longrightarrow> fst (nl_Delete L t r) = Inr (m t k \<noteq> None)"
    "key r = Some k \<Longrightarrow> m (snd (nl_Delete L t r)) = (m t)(k := None)"
    using d [THEN conjunct2, THEN conjunct1] by blast+
  show "m t n = Some w \<Longrightarrow> key n = Some n" using w [THEN conjunct1] by blast
  show "key r = Some k \<Longrightarrow> set (nl_WalkMatch L t r) = {(n, v). m t n = Some v \<and> covers n k}"
    using w [THEN conjunct2, THEN conjunct2] by blast
  show "key r = None \<Longrightarrow> nl_WalkMatch L t r = []" using w [THEN conjunct2, THEN conjunct1] by blast
qed

lemma stored_upd:
  "m t = (m (it_net c r))(k := x) \<Longrightarrow> stored m (it_upd c r t) = (stored m c)((ip_to4 (net_IP r) \<noteq> [], k) := x)"
  by (rule ext, rename_tac q, case_tac q) (simp add: stored_def it_upd_def it_net_def)

lemma stored_upd_same: "m t = m (it_net c r) \<Longrightarrow> stored m (it_upd c r t) = stored m c"
  by (rule ext) (simp add: stored_def it_upd_def it_net_def)

lemma stored_net: "stored m c (ip_to4 (net_IP r) \<noteq> [], k) = m (it_net c r) k"
  by (simp add: stored_def it_net_def)

lemma set_stored:
  assumes "netlib_ok L m key covers" "route_of key cidr = Some q"
  shows "fst (it_set L cidr v c) = None" "stored m (snd (it_set L cidr v c)) = (stored m c)(q \<mapsto> v)"
proof -
  obtain r k where r: "ip2cidr cidr = Inr r" "key r = Some k" "q = (ip_to4 (net_IP r) \<noteq> [], k)"
    using assms(2) by (auto simp: route_of_Some)
  note d = netlib_okD [OF assms(1)]
  show "fst (it_set L cidr v c) = None" using r d by (simp add: it_set_def case_prod_beta)
  show "stored m (snd (it_set L cidr v c)) = (stored m c)(q \<mapsto> v)"
    using r stored_upd [of m "snd (nl_Add L (it_net c r) r v)" c r k "Some v"] d(6) [OF r(2)] by (simp add: it_set_def case_prod_beta)
qed

lemma set_error:
  assumes "netlib_ok L m key covers" "route_of key cidr = None"
  shows "stored m (snd (it_set L cidr v c)) = stored m c"
  using assms(2) stored_upd_same [of m _ c] netlib_okD(4) [OF assms(1)]
  by (auto simp: route_of_None it_set_def case_prod_beta split: sum.splits)

lemma del_stored:
  assumes "netlib_ok L m key covers" "route_of key cidr = Some q"
  shows "fst (it_del L cidr c) \<longleftrightarrow> stored m c q \<noteq> None" "stored m (snd (it_del L cidr c)) = (stored m c)(q := None)"
proof -
  obtain r k where r: "ip2cidr cidr = Inr r" "key r = Some k" "q = (ip_to4 (net_IP r) \<noteq> [], k)"
    using assms(2) by (auto simp: route_of_Some)
  note d = netlib_okD [OF assms(1)]
  show "fst (it_del L cidr c) \<longleftrightarrow> stored m c q \<noteq> None"
    using r d(9) [OF r(2)] unfolding r(3) stored_net by (simp add: it_del_def case_prod_beta)
  show "stored m (snd (it_del L cidr c)) = (stored m c)(q := None)"
    using r stored_upd [of m "snd (nl_Delete L (it_net c r) r)" c r k None] d(10) [OF r(2)] by (simp add: it_del_def case_prod_beta)
qed

lemma del_error:
  assumes "netlib_ok L m key covers" "route_of key cidr = None"
  shows "stored m (snd (it_del L cidr c)) = stored m c"
  using assms(2) stored_upd_same [of m _ c] netlib_okD(8) [OF assms(1)]
  by (auto simp: route_of_None it_del_def case_prod_beta split: sum.splits)

lemma set_values:
  assumes "netlib_ok L m key covers" "route_of key cidr = Some q"
  shows "values_of m (snd (it_set L cidr v c)) = (values_of m c)(q := split_at CHR '','' v)"
  using set_stored [OF assms] by (auto simp: values_of_def fun_eq_iff)

lemma del_values:
  assumes "netlib_ok L m key covers" "route_of key cidr = Some q"
  shows "values_of m (snd (it_del L cidr c)) = (values_of m c)(q := [])" "fst (it_del L cidr c) \<longleftrightarrow> values_of m c q \<noteq> []"
  using del_stored [OF assms] by (auto simp: values_of_def fun_eq_iff split: option.splits)

lemma get_values:
  assumes "netlib_ok L m key covers" "it_wf m c" "route_of key cidr = Some q"
  shows "it_get L cidr c = Inr (join_with CHR '','' (values_of m c q))"
  using get_stored [OF assms(1,3)] by (simp add: values_of_def split: option.splits)

lemma wf_join_empty:
  assumes "it_wf m c"
  shows "join_with CHR '','' (values_of m c q) = [] \<longleftrightarrow> values_of m c q = []"
proof -
  have "[] \<notin> set (values_of m c q)" using assms unfolding it_wf_def by blast
  then show ?thesis by (cases "stored m c q") (auto simp: values_of_def)
qed

lemma add_values:
  assumes "netlib_ok L m key covers" "it_wf m c" "route_of key cidr = Some q" "v \<noteq> ''''" "CHR '','' \<notin> set v"
  shows "fst (it_add L cidr v c) = None" "values_of m (snd (it_add L cidr v c)) = (values_of m c)(q := ins v (values_of m c q))"
proof -
  let ?vs = "values_of m c q"
  have g: "it_get L cidr c = Inr (join_with CHR '','' ?vs)" using get_values [OF assms(1-3)] .
  note s = set_stored(1) [OF assms(1,3)] set_values [OF assms(1,3)]
  consider (e) "?vs = []" | (n) x where "stored m c q = Some x" "?vs = split_at CHR '','' x" "x \<noteq> ''''"
    using wf_join_empty [OF assms(2), of q] by (cases "stored m c q") (auto simp: values_of_def)
  then have "fst (it_add L cidr v c) = None \<and> values_of m (snd (it_add L cidr v c)) = (values_of m c)(q := ins v ?vs)"
  proof cases
    case e
    then show ?thesis using g assms(4,5) s by (simp add: it_add_def it_add_to_def ins_def split_at_single)
  next
    case n
    have c: "split_at CHR '','' (x @ '','' @ v) = ?vs @ [v]" using n assms(5) by (simp add: split_at_snoc)
    have i: "v \<in> set ?vs \<Longrightarrow> sublist v x" using n split_at_sublist by metis
    show ?thesis
      using g n assms(4,5) s c i by (auto simp: it_add_def it_add_to_def ins_def split_at_single simp del: append_Cons)
  qed
  then show "fst (it_add L cidr v c) = None" "values_of m (snd (it_add L cidr v c)) = (values_of m c)(q := ins v ?vs)" by auto
qed

lemma prefix_part_sublist: "w \<in> set (split_at c x) \<Longrightarrow> prefix p w \<Longrightarrow> sublist p x"
  using split_at_sublist prefix_imp_sublist sublist_order.order_trans by metis

lemma stored_cases:
  assumes "it_wf m c"
  obtains (none) "values_of m c q = []" "join_with CHR '','' (values_of m c q) = []"
    | (some) x where "values_of m c q = split_at CHR '','' x" "join_with CHR '','' (values_of m c q) = x" "x \<noteq> []"
  using wf_join_empty [OF assms, of q] by (cases "stored m c q") (auto simp: values_of_def)

lemma split_join_filter: "filter P (split_at c x) \<noteq> [] \<Longrightarrow> split_at c (join_with c (filter P (split_at c x))) = filter P (split_at c x)"
  by (rule split_join) (auto simp: list_all_iff dest: split_at_parts)

lemma esc_values:
  assumes "netlib_ok L m key covers" "it_wf m c" "route_of key cidr = Some q" "v \<noteq> ''''" "CHR '','' \<notin> set v"
  shows "values_of m (snd (it_esc L cidr v c)) = (values_of m c)(q := filter (\<lambda>w. w \<noteq> v) (values_of m c q)) \<and>
    (fst (it_esc L cidr v c) \<longleftrightarrow> values_of m c q \<noteq> [] \<and> sublist v (join_with CHR '','' (values_of m c q)))"
proof -
  note g = get_values [OF assms(1-3)] and s = set_stored(1) [OF assms(1,3)] set_values [OF assms(1,3)] del_values [OF assms(1,3)]
  from assms(2) show ?thesis
  proof (cases rule: stored_cases [where q = q])
    case none
    then show ?thesis using g by (simp add: it_esc_def fun_upd_idem)
  next
    case (some x)
    let ?cur = "filter (\<lambda>w. w \<noteq> v) (split_at CHR '','' x)"
    have ns: "\<not> sublist v x \<Longrightarrow> ?cur = split_at CHR '','' x"
      using split_at_sublist by (auto simp: filter_id_conv)
    show ?thesis
      using g some assms(4,5) s split_join_filter [of "\<lambda>w. w \<noteq> v" "CHR '',''" x] ns
      by (auto simp: it_esc_def without_loop_filter Let_def split_at_single fun_upd_idem case_prod_beta)
  qed
qed

lemma like_values:
  assumes "netlib_ok L m key covers" "it_wf m c" "route_of key cidr = Some q" "v \<noteq> ''''" "CHR '','' \<notin> set v"
  shows "values_of m (snd (it_escLike L cidr v c)) = (values_of m c)(q := filter (\<lambda>w. \<not> prefix v w) (values_of m c q)) \<and>
    fst (it_escLike L cidr v c) = int (length (filter (prefix v) (values_of m c q)))"
proof -
  note g = get_values [OF assms(1-3)] and s = set_stored(1) [OF assms(1,3)] set_values [OF assms(1,3)] del_values [OF assms(1,3)]
  from assms(2) show ?thesis
  proof (cases rule: stored_cases [where q = q])
    case none
    then show ?thesis using g by (simp add: it_escLike_def fun_upd_idem)
  next
    case (some x)
    let ?cur = "filter (\<lambda>w. \<not> prefix v w) (split_at CHR '','' x)"
    have ns: "\<not> sublist v x \<Longrightarrow> ?cur = split_at CHR '','' x" "\<not> sublist v x \<Longrightarrow> filter (prefix v) (split_at CHR '','' x) = []"
      using prefix_part_sublist by (auto simp: filter_id_conv filter_empty_conv)
    have len: "length ?cur = length (split_at CHR '','' x) \<Longrightarrow> ?cur = split_at CHR '','' x"
      by (metis filter_id_conv length_filter_less less_irrefl)
    show ?thesis
      using g some assms(4,5) s split_join_filter [of "\<lambda>w. \<not> prefix v w" "CHR '',''" x] ns len
      by (auto simp: it_escLike_def like_loop_filter Let_def split_at_single fun_upd_idem case_prod_beta)
  qed
qed

lemma Set_values:
  assumes "netlib_ok L m key covers" "it_wf m c" "route_of key cidr = Some q" "v \<noteq> ''''" "CHR '','' \<notin> set v"
  shows "values_of m (snd (it_Set L cidr v c)) = (values_of m c)(q := [v])"
proof -
  note d = del_values(1) [OF assms(1,3), of c]
  have "it_wf m (snd (it_del L cidr c))" using assms(2) by (simp add: it_wf_def d)
  from add_values(2) [OF assms(1) this assms(3-5)] show ?thesis by (simp add: it_Set_def d ins_def)
qed

lemma del_keys_map:
  assumes "netlib_ok L m key covers"
  shows "list_all (\<lambda>k. key k = Some k) ks \<Longrightarrow> m (snd (del_keys L ks t n)) = (\<lambda>k. if k \<in> set ks then None else m t k)"
proof (induction ks arbitrary: t n)
  case (Cons k ks)
  then show ?case using netlib_okD(10) [OF assms, of k k t] by (auto simp: case_prod_beta fun_eq_iff)
qed simp

lemma walk_keys:
  assumes "netlib_ok L m key covers" "key r = Some k"
  shows "set (map fst (nl_WalkMatch L t r)) = {n. m t n \<noteq> None \<and> covers n k}" "list_all (\<lambda>k. key k = Some k) (map fst (nl_WalkMatch L t r))"
proof -
  show s: "set (map fst (nl_WalkMatch L t r)) = {n. m t n \<noteq> None \<and> covers n k}"
    using netlib_okD(12) [OF assms] by force
  show "list_all (\<lambda>k. key k = Some k) (map fst (nl_WalkMatch L t r))"
    using s netlib_okD(11) [OF assms(1)] unfolding list_all_iff by blast
qed

definition uncover :: "(ipnet \<Rightarrow> ipnet \<Rightarrow> bool) \<Rightarrow> route \<Rightarrow> (route \<Rightarrow> string list) \<Rightarrow> route \<Rightarrow> string list" where
  \<comment> \<open>without the routes that contain a route\<close>
  "uncover covers q M = (\<lambda>p. if fst p = fst q \<and> covers (snd p) (snd q) then [] else M p)"

lemma delAll_values:
  assumes "netlib_ok L m key covers" "route_of key cidr = Some q"
  shows "values_of m (snd (it_delAll L cidr c)) = uncover covers q (values_of m c)"
proof -
  obtain r k where r: "ip2cidr cidr = Inr r" "key r = Some k" "q = (ip_to4 (net_IP r) \<noteq> [], k)"
    using assms(2) by (auto simp: route_of_Some)
  let ?t = "it_net c r"
  let ?t' = "snd (del_keys L (map fst (nl_WalkMatch L ?t r)) ?t 0)"
  have m: "m ?t' = (\<lambda>n. if covers n k then None else m ?t n)"
    using del_keys_map [OF assms(1) walk_keys(2) [OF assms(1) r(2)]] walk_keys(1) [OF assms(1) r(2), of ?t] by (auto simp: fun_eq_iff)
  have "stored m (it_upd c r ?t') p = (if fst p = (ip_to4 (net_IP r) \<noteq> []) \<and> covers (snd p) k then None else stored m c p)" for p
    using m by (cases p) (auto simp: stored_def it_upd_def it_net_def)
  then show ?thesis using r by (auto simp: it_delAll_def Let_def case_prod_beta values_of_def uncover_def fun_eq_iff)
qed

subsection \<open>Runs\<close>

datatype it_op = OpAdd string string | OpSet string string | OpEsc string string | OpEscLike string string
  | OpDel string | OpDelAll string | OpClear

fun it_step :: "'n netlib \<Rightarrow> it_op \<Rightarrow> 'n iptree \<Rightarrow> 'n iptree" where
  "it_step L (OpAdd cidr v) c = snd (it_add L cidr v c)"
| "it_step L (OpSet cidr v) c = snd (it_Set L cidr v c)"
| "it_step L (OpEsc cidr v) c = snd (it_esc L cidr v c)"
| "it_step L (OpEscLike cidr like) c = snd (it_escLike L cidr like c)"
| "it_step L (OpDel cidr) c = snd (it_del L cidr c)"
| "it_step L (OpDelAll cidr) c = snd (it_delAll L cidr c)"
| "it_step L OpClear c = it_Clear L c"

fun clean :: "it_op \<Rightarrow> bool" where
  \<comment> \<open>values are not empty and have no comma; a pattern has no comma\<close>
  "clean (OpAdd cidr v) = (v \<noteq> '''' \<and> CHR '','' \<notin> set v)"
| "clean (OpSet cidr v) = (v \<noteq> '''' \<and> CHR '','' \<notin> set v)"
| "clean (OpEsc cidr v) = (v \<noteq> '''' \<and> CHR '','' \<notin> set v)"
| "clean (OpEscLike cidr like) = (CHR '','' \<notin> set like)"
| "clean _ = True"

definition at_route :: "(ipnet \<Rightarrow> ipnet option) \<Rightarrow> string \<Rightarrow> (string list \<Rightarrow> string list) \<Rightarrow> (route \<Rightarrow> string list) \<Rightarrow> route \<Rightarrow> string list" where
  "at_route key cidr f M = (case route_of key cidr of None \<Rightarrow> M | Some q \<Rightarrow> M(q := f (M q)))"

fun mm_step :: "(ipnet \<Rightarrow> ipnet option) \<Rightarrow> (ipnet \<Rightarrow> ipnet \<Rightarrow> bool) \<Rightarrow> it_op \<Rightarrow> (route \<Rightarrow> string list) \<Rightarrow> route \<Rightarrow> string list" where
  \<comment> \<open>the operations on a map from routes to lists of values\<close>
  "mm_step key covers (OpAdd cidr v) M = at_route key cidr (ins v) M"
| "mm_step key covers (OpSet cidr v) M = at_route key cidr (\<lambda>_. [v]) M"
| "mm_step key covers (OpEsc cidr v) M = at_route key cidr (filter (\<lambda>w. w \<noteq> v)) M"
| "mm_step key covers (OpEscLike cidr like) M =
     (if like = '''' then case route_of key cidr of None \<Rightarrow> M | Some q \<Rightarrow> if M q = [] then M else uncover covers q M
      else at_route key cidr (filter (\<lambda>w. \<not> prefix like w)) M)"
| "mm_step key covers (OpDel cidr) M = at_route key cidr (\<lambda>_. []) M"
| "mm_step key covers (OpDelAll cidr) M = (case route_of key cidr of None \<Rightarrow> M | Some q \<Rightarrow> uncover covers q M)"
| "mm_step key covers OpClear M = (\<lambda>_. [])"

lemma step_error:
  assumes "netlib_ok L m key covers" "route_of key cidr = None"
  shows "stored m (snd (it_add L cidr v c)) = stored m c" "stored m (snd (it_Set L cidr v c)) = stored m c"
    "stored m (snd (it_esc L cidr v c)) = stored m c" "stored m (snd (it_escLike L cidr v c)) = stored m c"
    "stored m (snd (it_delAll L cidr c)) = stored m c"
proof -
  obtain e where e: "\<And>c. it_get L cidr c = Inl (e c)" using get_error [OF assms] by metis
  show "stored m (snd (it_add L cidr v c)) = stored m c" "stored m (snd (it_esc L cidr v c)) = stored m c"
    "stored m (snd (it_escLike L cidr v c)) = stored m c"
    by (simp_all add: it_add_def it_esc_def it_escLike_def e)
  show "stored m (snd (it_Set L cidr v c)) = stored m c"
    using del_error [OF assms] by (simp add: it_Set_def it_add_def e)
  show "stored m (snd (it_delAll L cidr c)) = stored m c"
    using assms(2) netlib_okD(13) [OF assms(1)] stored_upd_same [of m _ c]
    by (auto simp: it_delAll_def route_of_None Let_def case_prod_beta split: sum.splits)
qed

lemma stored_values: "stored m c' = stored m c \<Longrightarrow> values_of m c' = values_of m c"
  by (simp add: values_of_def fun_eq_iff)

lemma step_values:
  assumes "netlib_ok L m key covers" "it_wf m c" "clean op"
  shows "values_of m (it_step L op c) = mm_step key covers op (values_of m c)"
proof -
  note e = step_error [OF assms(1), THEN stored_values] del_error [OF assms(1), THEN stored_values]
  note v = add_values(2) [OF assms(1,2)] Set_values [OF assms(1,2)] esc_values [OF assms(1,2), THEN conjunct1]
    like_values [OF assms(1,2), THEN conjunct1] del_values(1) [OF assms(1)] delAll_values [OF assms(1)]
  show ?thesis
  proof (cases op)
    case (OpEscLike cidr like)
    show ?thesis
    proof (cases "like = [] \<and> route_of key cidr \<noteq> None")
      case True
      then obtain q where q: "route_of key cidr = Some q" by blast
      then show ?thesis
        using True OpEscLike get_values [OF assms(1,2) q] wf_join_empty [OF assms(2), of q] delAll_values [OF assms(1) q]
        by (auto simp: it_escLike_def case_prod_beta)
    next
      case False
      then show ?thesis using OpEscLike assms(3) e v by (cases "route_of key cidr") (auto simp: at_route_def)
    qed
  next
    case OpClear
    then show ?thesis using netlib_okD(2) [OF assms(1)] by (simp add: it_Clear_def values_of_def stored_def fun_eq_iff)
  qed (use assms(3) e v in \<open>auto simp: at_route_def split: option.splits\<close>)
qed

lemma step_wf:
  assumes "netlib_ok L m key covers" "it_wf m c" "clean op"
  shows "it_wf m (it_step L op c)"
proof -
  have u: "'''' \<notin> set (M p)" "distinct (M p)" if "M = values_of m c" for M p using assms(2) that unfolding it_wf_def by blast+
  show ?thesis
    unfolding it_wf_def step_values [OF assms]
    using assms(3) u [OF refl] by (cases op) (auto simp: at_route_def ins_def uncover_def split: option.splits)
qed

definition it_run :: "'n netlib \<Rightarrow> it_op list \<Rightarrow> 'n iptree" where
  "it_run L ops = fold (it_step L) ops (NewIpTree L)"

lemma run_values:
  assumes "netlib_ok L m key covers" "list_all clean ops"
  shows "it_wf m c \<Longrightarrow> it_wf m (fold (it_step L) ops c) \<and>
    values_of m (fold (it_step L) ops c) = fold (mm_step key covers) ops (values_of m c)"
  using assms(2) step_wf [OF assms(1)] step_values [OF assms(1)] by (induction ops arbitrary: c) auto

lemma new_values: "netlib_ok L m key covers \<Longrightarrow> values_of m (NewIpTree L) = (\<lambda>_. [])"
  using netlib_okD(1) by (fastforce simp: NewIpTree_def values_of_def stored_def)

lemma it_run_values:
  assumes "netlib_ok L m key covers" "list_all clean ops"
  shows "it_wf m (it_run L ops)" "values_of m (it_run L ops) = fold (mm_step key covers) ops (\<lambda>_. [])"
  using run_values [OF assms, of "NewIpTree L"] new_values [OF assms(1)] by (auto simp: it_run_def it_wf_def)


lemma has_values:
  assumes "netlib_ok L m key covers" "route_of key cidr = Some q"
  shows "it_has L cidr c = Inr (values_of m c q \<noteq> [])"
proof -
  have "it_has L cidr c = Inr (stored m c q \<noteq> None)"
    using assms by (auto simp: route_of_Some it_has_def netlib_ok_def stored_net)
  then show ?thesis by (simp add: values_of_def split: option.splits)
qed

lemma getLike_values:
  assumes "netlib_ok L m key covers" "it_wf m c" "route_of key cidr = Some q" "CHR '','' \<notin> set like"
  shows "it_getLike L cidr like c = join_with CHR '','' (filter (prefix like) (values_of m c q))"
proof -
  note g = get_values [OF assms(1-3)]
  from assms(2) show ?thesis
  proof (cases rule: stored_cases [where q = q])
    case none
    then show ?thesis using g by (simp add: it_getLike_def)
  next
    case (some x)
    have "\<not> sublist like x \<Longrightarrow> filter (prefix like) (split_at CHR '','' x) = []"
      using prefix_part_sublist by (auto simp: filter_empty_conv)
    then show ?thesis
      using g some assms(4) by (auto simp: it_getLike_def like_loop_filter split_at_single)
  qed
qed

text \<open>
  C29: After any operations on a fresh tree with values that are neither empty nor contain a comma, what \<^verbatim>\<open>Get\<close> returns
  for a route is empty or a comma-separated list of distinct non-empty values, and \<^verbatim>\<open>Has\<close> reports whether it is not empty.
\<close>
theorem iptree_wf:
  assumes "netlib_ok L m key covers" "list_all clean ops" "route_of key cidr = Some q"
  shows "\<exists>x. it_get L cidr (it_run L ops) = Inr x \<and> it_has L cidr (it_run L ops) = Inr (x \<noteq> '''') \<and>
    (x \<noteq> '''' \<longrightarrow> distinct (split_at CHR '','' x) \<and> '''' \<notin> set (split_at CHR '','' x))"
proof -
  note w = it_run_values(1) [OF assms(1,2)]
  have "distinct (values_of m (it_run L ops) q)" "'''' \<notin> set (values_of m (it_run L ops) q)" using w unfolding it_wf_def by blast+
  then show ?thesis
    using get_values [OF assms(1) w assms(3)] has_values [OF assms(1,3), of "it_run L ops"]
    by (cases rule: stored_cases [OF w, where q = q]) auto
qed

text \<open>
  C9: The tree is a map from routes to lists of values: after any operations on a fresh tree with values without
  commas, what \<^verbatim>\<open>Get\<close>, \<^verbatim>\<open>Has\<close>, \<^verbatim>\<open>GetLike\<close>, \<^verbatim>\<open>Esc\<close> and \<^verbatim>\<open>Del\<close> return is what the same operations give on such a map, where
  adding appends a value that is not there, and \<^verbatim>\<open>Esc\<close> reports success when its value occurs anywhere in the text.
\<close>
theorem iptree_refines:
  assumes "netlib_ok L m key covers" "list_all clean ops" "v \<noteq> ''''" "CHR '','' \<notin> set v"
  shows "case route_of key cidr of
      None \<Rightarrow> (\<exists>e. it_get L cidr (it_run L ops) = Inl e)
    | Some q \<Rightarrow>
        let vs = fold (mm_step key covers) ops (\<lambda>_. []) q; x = join_with CHR '','' vs; c = it_run L ops
        in it_get L cidr c = Inr x \<and> it_has L cidr c = Inr (vs \<noteq> []) \<and>
           it_getLike L cidr v c = join_with CHR '','' (filter (prefix v) vs) \<and>
           fst (it_escLike L cidr v c) = int (length (filter (prefix v) vs)) \<and>
           fst (it_esc L cidr v c) = (vs \<noteq> [] \<and> sublist v x) \<and> fst (it_del L cidr c) = (vs \<noteq> []) \<and>
           it_get L cidr (snd (it_add L cidr v c)) = Inr (join_with CHR '','' (ins v vs)) \<and>
           it_get L cidr (snd (it_esc L cidr v c)) = Inr (join_with CHR '','' (filter (\<lambda>w. w \<noteq> v) vs))"
proof (cases "route_of key cidr")
  case None
  then show ?thesis using get_error [OF assms(1)] by simp
next
  case (Some q)
  let ?c = "it_run L ops"
  note w = it_run_values [OF assms(1,2)]
  have wf: "it_wf m (snd (it_add L cidr v ?c))" "it_wf m (snd (it_esc L cidr v ?c))"
    using step_wf [OF assms(1) w(1), of "OpAdd cidr v"] step_wf [OF assms(1) w(1), of "OpEsc cidr v"] assms(3,4) by simp_all
  show ?thesis
    using Some get_values [OF assms(1) w(1) Some] has_values [OF assms(1) Some, of ?c] getLike_values [OF assms(1) w(1) Some assms(4)]
      like_values [OF assms(1) w(1) Some assms(3,4)] esc_values [OF assms(1) w(1) Some assms(3,4)] del_values(2) [OF assms(1) Some, of ?c]
      get_values [OF assms(1) wf(1) Some] get_values [OF assms(1) wf(2) Some] add_values(2) [OF assms(1) w(1) Some assms(3,4)]
    by (simp add: Let_def w(2))
qed

lemma route_one: "route_of Some ''0.0.0.1'' = Some (True, \<lparr> net_IP = [0, 0, 0, 1], net_Mask = [0xff, 0xff, 0xff, 0xff] \<rparr>)"
  by code_simp

theorem iptree_wf_witness:
  "netlib_ok mini_nets map_of Some (=) \<and>
   (\<exists>x. it_get mini_nets ''0.0.0.1'' (it_run mini_nets [OpAdd ''0.0.0.1'' ''b'', OpAdd ''0.0.0.1'' ''ab'', OpAdd ''0.0.0.1'' ''a'']) = Inr x \<and>
     it_has mini_nets ''0.0.0.1'' (it_run mini_nets [OpAdd ''0.0.0.1'' ''b'', OpAdd ''0.0.0.1'' ''ab'', OpAdd ''0.0.0.1'' ''a'']) = Inr (x \<noteq> '''') \<and>
     (x = '''' \<or> distinct (split_at CHR '','' x)))"
  using mini_nets_ok iptree_wf [OF mini_nets_ok _ route_one, of "[OpAdd ''0.0.0.1'' ''b'', OpAdd ''0.0.0.1'' ''ab'', OpAdd ''0.0.0.1'' ''a'']"]
  by auto

theorem iptree_refines_witness:
  "netlib_ok mini_nets map_of Some (=) \<and>
   it_get mini_nets ''0.0.0.1'' (it_run mini_nets [OpAdd ''0.0.0.1'' ''b'', OpAdd ''0.0.0.1'' ''ab'']) = Inr ''b,ab'' \<and>
   fst (it_esc mini_nets ''0.0.0.1'' ''a'' (it_run mini_nets [OpAdd ''0.0.0.1'' ''b'', OpAdd ''0.0.0.1'' ''ab''])) \<and>
   it_get mini_nets ''0.0.0.1'' (snd (it_esc mini_nets ''0.0.0.1'' ''a'' (it_run mini_nets [OpAdd ''0.0.0.1'' ''b'', OpAdd ''0.0.0.1'' ''ab'']))) = Inr ''b,ab''"
  using mini_nets_ok iptree_refines [OF mini_nets_ok, of "[OpAdd ''0.0.0.1'' ''b'', OpAdd ''0.0.0.1'' ''ab'']" "''a''" "''0.0.0.1''"]
  by (simp add: route_one Let_def at_route_def ins_def sublist_Cons_right)

text \<open>\<^verbatim>\<open>Add\<close> reads under one lock and writes under another: of two that read before either writes, one is lost.\<close>

lemma iptree_add_lost:
  assumes "netlib_ok L m key covers" "it_wf m c" "route_of key cidr = Some q" "values_of m c q = []"
    "v \<noteq> ''''" "CHR '','' \<notin> set v" "w \<noteq> ''''" "CHR '','' \<notin> set w"
    "it_get L cidr c = Inr x"
  shows "it_get L cidr (snd (it_add_to L x cidr w (snd (it_add_to L x cidr v c)))) = Inr w"
proof -
  have x: "x = ''''" using get_values [OF assms(1-3)] assms(4,9) by simp
  then show ?thesis
    using assms(5,7) get_stored [OF assms(1,3)] set_stored(2) [OF assms(1,3)] by (simp add: it_add_to_def)
qed

subsection \<open>Names\<close>

definition critlib_ok :: "'t critlib \<Rightarrow> ('t \<Rightarrow> string \<Rightarrow> string option) \<Rightarrow> bool" where
  \<comment> \<open>a trie is a map from keys to values; an insertion keeps what is there\<close>
  "critlib_ok C m \<longleftrightarrow>
     m (cl_New C) = Map.empty \<and>
     (\<forall>t k v. fst (cl_Insert C t k v) = (m t k = None)) \<and>
     (\<forall>t k v. m (snd (cl_Insert C t k v)) = (if m t k = None then (m t)(k \<mapsto> v) else m t)) \<and>
     (\<forall>t k v. m (cl_Set C t k v) = (m t)(k \<mapsto> v)) \<and>
     (\<forall>t k. fst (cl_Delete C t k) = (m t k \<noteq> None)) \<and>
     (\<forall>t k. m (snd (cl_Delete C t k)) = (m t)(k := None)) \<and>
     (\<forall>t k. cl_Get C t k = m t k) \<and>
     (\<forall>t k. cl_Contains C t k = (m t k \<noteq> None)) \<and>
     (\<forall>t p. set (cl_Allprefixed C t p) = {(k, v). m t k = Some v \<and> prefix p k}) \<and>
     (\<forall>t s. cl_LongestPrefix C t s = None \<longrightarrow> (\<forall>k. prefix k s \<longrightarrow> m t k = None)) \<and>
     (\<forall>t s k v. cl_LongestPrefix C t s = Some (k, v) \<longrightarrow>
        prefix k s \<and> m t k = Some v \<and> (\<forall>k'. prefix k' s \<and> m t k' \<noteq> None \<longrightarrow> length k' \<le> length k))"

definition ascii :: "string \<Rightarrow> bool" where
  "ascii s = list_all (\<lambda>c. byte_of c < 0x80) s"

lemma runes_ascii: "ascii s \<Longrightarrow> runes s = map byte_of s"
proof (induction s)
  case (Cons c s)
  then have "decode_rune (c # s) = (byte_of c, 1)" by (simp add: decode_rune_def ascii_def)
  then show ?case using Cons by (simp add: runes.simps [of "c # s"] ascii_def)
qed (simp add: runes.simps)

lemma string_of_runes_ascii: "ascii s \<Longrightarrow> string_of_runes (map byte_of s) = s"
proof (induction s)
  case (Cons c s)
  then have "encode_rune (byte_of c) = [c]" by (simp add: encode_rune_def ascii_def Let_def byte_of_def)
  then show ?case using Cons by (simp add: string_of_runes_def ascii_def)
qed (simp add: string_of_runes_def)

lemma swap_ends:
  "swap (A @ (x # M @ [y]) @ B) (length A) (length A + Suc (length M)) = (A @ [y]) @ M @ (x # B)"
proof -
  have "length A + Suc (length M) = length (A @ x # M)" by simp
  moreover have "length A + Suc (length M) = length (A @ y # M)" by simp
  ultimately show ?thesis
    unfolding swap_def by (metis (no_types, lifting) append.assoc append_Cons append_Nil list_update_length nth_append_length)
qed

lemma reverse_loop_rev:
  "n = length M div 2 \<Longrightarrow> reverse_loop n (length A) (length A + length M - 1) (A @ M @ B) = A @ rev M @ B"
proof (induction n arbitrary: A M B)
  case 0
  then have "length M \<le> 1" by simp
  then have "rev M = M" by (cases M) auto
  then show ?case by simp
next
  case (Suc n)
  then have "length M \<ge> 2" by simp
  then obtain x N y where M: "M = x # N @ [y]" by (cases M; cases "tl M" rule: rev_cases) auto
  have "reverse_loop (Suc n) (length A) (length A + length M - 1) (A @ M @ B) =
      reverse_loop n (length (A @ [y])) (length (A @ [y]) + length N - 1) ((A @ [y]) @ N @ (x # B))"
    using swap_ends [of A x N y B] by (simp add: M)
  also have "\<dots> = (A @ [y]) @ rev N @ (x # B)" using Suc M by (intro Suc.IH) simp
  finally show ?case by (simp add: M)
qed

lemma reversed_ascii: "ascii s \<Longrightarrow> reversed s = rev s"
proof -
  assume s: "ascii s"
  have "reverse_loop (length s div 2) 0 (length s - 1) (map byte_of s) = map byte_of (rev s)"
    using reverse_loop_rev [of "length s div 2" "map byte_of s" "[]" "[]"] by (simp add: rev_map)
  moreover have "ascii (rev s)" using s by (simp add: ascii_def)
  ultimately show ?thesis using s by (simp add: reversed_def StringReverse_def Let_def runes_ascii string_of_runes_ascii)
qed

definition rx_names :: "'t critlib \<Rightarrow> string list \<Rightarrow> 't" where
  \<comment> \<open>the trie after these names were added\<close>
  "rx_names C names = fold (\<lambda>k t. snd (rx_add C k t)) names (NewRadixTree C)"

lemma rx_names_dom:
  assumes "critlib_ok C m" "list_all ascii names"
  shows "dom (m (rx_names C names)) = rev ` set names"
proof -
  have i: "dom (m (snd (cl_Insert C t k v))) = insert k (dom (m t))" for t k v
    using assms(1) by (auto simp: critlib_ok_def)
  have "dom (m (fold (\<lambda>k t. snd (rx_add C k t)) names t)) = dom (m t) \<union> rev ` set names" for t
    using assms(2) by (induction names arbitrary: t) (auto simp: rx_add_def i reversed_ascii)
  moreover have "m (NewRadixTree C) = Map.empty" using assms(1) by (simp add: critlib_ok_def NewRadixTree_def)
  ultimately show ?thesis by (simp add: rx_names_def)
qed


definition longest_key :: "(string \<times> string) list \<Rightarrow> string \<Rightarrow> (string \<times> string) option" where
  "longest_key t s = map_option (\<lambda>k. (k, the (map_of t k))) (List.find (\<lambda>k. map_of t k \<noteq> None) (map (\<lambda>n. take n s) (rev [0..<Suc (length s)])))"

definition mini_crit :: "(string \<times> string) list critlib" where
  \<comment> \<open>an association list\<close>
  "mini_crit = \<lparr> cl_New = [], cl_Insert = (\<lambda>t k v. (map_of t k = None, if map_of t k = None then (k, v) # t else t)),
     cl_Set = (\<lambda>t k v. AList.update k v t), cl_Delete = (\<lambda>t k. (map_of t k \<noteq> None, AList.delete k t)),
     cl_Contains = (\<lambda>t k. map_of t k \<noteq> None), cl_Get = map_of,
     cl_Allprefixed = (\<lambda>t p. filter (\<lambda>(k, v). prefix p k) (AList.clearjunk t)),
     cl_LongestPrefix = longest_key, cl_Clear = (\<lambda>t. []), cl_Size = length \<rparr>"

lemma longest_key_None: "longest_key t s = None \<Longrightarrow> prefix k s \<Longrightarrow> map_of t k = None"
proof -
  assume n: "longest_key t s = None" and "prefix k s"
  then have k: "k = take (length k) s" "length k < Suc (length s)" by (auto simp: prefix_def)
  then have "k \<in> set (map (\<lambda>n. take n s) (rev [0..<Suc (length s)]))" by (force simp del: upt_Suc)
  then show "map_of t k = None" using n by (auto simp add: longest_key_def find_None_iff simp del: upt_Suc)
qed

lemma longest_key_Some:
  assumes "longest_key t s = Some (k, v)"
  shows "prefix k s" "map_of t k = Some v" "prefix k' s \<Longrightarrow> map_of t k' \<noteq> None \<Longrightarrow> length k' \<le> length k"
proof -
  obtain i where i: "i < Suc (length s)" "map_of t (take (length s - i) s) \<noteq> None" "k = take (length s - i) s" "v = the (map_of t k)"
      "\<And>j. j < i \<Longrightarrow> map_of t (take (length s - j) s) = None"
    using assms by (auto simp: longest_key_def find_Some_iff rev_nth simp del: upt_Suc)
  show "prefix k s" "map_of t k = Some v" using i by (auto simp: take_is_prefix)
  assume k': "prefix k' s" "map_of t k' \<noteq> None"
  then have "k' = take (length s - (length s - length k')) s"
    by (metis append_eq_conv_conj diff_diff_cancel prefix_def prefix_length_le)
  then have "\<not> length s - length k' < i" using i(5) k'(2) by metis
  then show "length k' \<le> length k" using i(1,3) prefix_length_le [OF k'(1)] by simp
qed

lemma mini_crit_ok: "critlib_ok mini_crit map_of"
proof -
  have "set (filter (\<lambda>(k, v). prefix p k) (AList.clearjunk t)) = {(k, v). map_of t k = Some v \<and> prefix p k}" for p :: string and t :: "(string \<times> string) list"
    using map_of_eq_Some_iff [OF distinct_clearjunk [of t]] by (auto simp: map_of_clearjunk)
  then show ?thesis
    using longest_key_None longest_key_Some
    by (auto simp: critlib_ok_def mini_crit_def update_conv' delete_conv' fun_eq_iff)
qed


text \<open>An empty key makes a lookup that matches nothing longer read before the start of the name, and every \<^verbatim>\<open>DelAll\<close> deletes it.\<close>

lemma radix_empty_key:
  assumes "critlib_ok C m" "cl_LongestPrefix C t (reversed s) = Some ([], v)" "reversed s \<noteq> []"
  shows "rx_getMatch C s t = None"
  using assms(2,3) by (simp add: rx_getMatch_def Let_def)

lemma rx_del_keys_map:
  assumes "critlib_ok C m"
  shows "m (snd (rx_del_keys C ks t n)) = (\<lambda>k. if k \<in> set ks then None else m t k)"
proof (induction ks arbitrary: t n)
  case (Cons k ks)
  have "m (snd (cl_Delete C t k)) = (m t)(k := None)" using assms unfolding critlib_ok_def by blast
  then show ?case using Cons by (auto simp: case_prod_beta fun_eq_iff)
qed simp

lemma radix_DelAll:
  assumes "critlib_ok C m"
  shows "m (snd (rx_delAll C p t)) = (\<lambda>k. if k = [] \<or> prefix (reversed p) k then None else m t k)"
proof -
  have "set (cl_Allprefixed C t (reversed p)) = {(k, v). m t k = Some v \<and> prefix (reversed p) k}"
    using assms unfolding critlib_ok_def by blast
  then have "set (map fst (cl_Allprefixed C t (reversed p))) = {k. m t k \<noteq> None \<and> prefix (reversed p) k}" by force
  then show ?thesis by (auto simp: rx_delAll_def rx_del_keys_map [OF assms] fun_eq_iff)
qed

end
