(* ===== verification/Ipmap.thy ===== *)
theory Ipmap
  imports Iptree Slices
begin

text \<open>
  The map from hosts to addresses of \<^verbatim>\<open>intra/protect/ipmap/ipmap.go\<close>. Sets of addresses are shared by pointer:
  \<open>im_sets\<close> is the store, a pointer is a position in it, and the maps hold pointers. What the resolver answers,
  whether the tunnel loops back and how a slice is shuffled is the argument \<open>im_env\<close>; the trie library under the
  reverse map is an argument as in \<open>Iptree\<close>. \<^verbatim>\<open>Confirm\<close>, \<^verbatim>\<open>Disconfirm\<close> and \<^verbatim>\<open>Clear\<close> leave work to a goroutine: it
  is a definition of its own, a later step. A nil set is \<open>None\<close>. The order of a Go map is the order of the list.
\<close>

subsection \<open>What the code uses of the standard library\<close>

definition split_host_port :: "string \<Rightarrow> string option" where
  \<comment> \<open>the host of \<^verbatim>\<open>net.SplitHostPort\<close>, or None for its error\<close>
  "split_host_port hp =
     (case cut_last CHR '':'' hp of
        None \<Rightarrow> None
      | Some (h, port) \<Rightarrow>
          if hd hp = CHR ''['' then
            (case cut_at CHR '']'' hp of
               None \<Rightarrow> None
             | Some (a, b) \<Rightarrow>
                 if length a + 1 \<noteq> length h then None
                 else if CHR ''['' \<in> set (drop 1 hp) \<or> CHR '']'' \<in> set b then None
                 else Some (drop 1 a))
          else if CHR '':'' \<in> set h then None
          else if CHR ''['' \<in> set hp \<or> CHR '']'' \<in> set hp then None
          else Some h)"

definition is_space :: "nat \<Rightarrow> bool" where
  "is_space r = (r \<in> {9, 10, 11, 12, 13, 32, 0x85, 0xa0, 0x1680, 0x2028, 0x2029, 0x202f, 0x205f, 0x3000} \<or> (0x2000 \<le> r \<and> r \<le> 0x200a))"

definition trim_space :: "string \<Rightarrow> string" where
  \<comment> \<open>\<^verbatim>\<open>strings.TrimSpace\<close> on valid UTF-8\<close>
  "trim_space s = string_of_runes (rev (dropWhile is_space (rev (dropWhile is_space (runes s)))))"

definition is_loopback :: "addr \<Rightarrow> bool" where
  "is_loopback a = (case unmap a of Addr4 w \<Rightarrow> drop_bit 24 w = 127 | Addr6 w \<Rightarrow> w = 1 | AddrZero \<Rightarrow> False)"

definition is_multicast :: "addr \<Rightarrow> bool" where
  "is_multicast a = (case unmap a of Addr4 w \<Rightarrow> drop_bit 28 w = 14 | Addr6 w \<Rightarrow> drop_bit 120 w = 255 | AddrZero \<Rightarrow> False)"

definition is_linklocal :: "addr \<Rightarrow> bool" where
  "is_linklocal a = (case unmap a of Addr4 w \<Rightarrow> drop_bit 16 w = 43518 | Addr6 w \<Rightarrow> drop_bit 118 w = 1018 | AddrZero \<Rightarrow> False)"

definition is_global_unicast :: "addr \<Rightarrow> bool" where
  "is_global_unicast a =
     (a \<noteq> AddrZero \<and> a \<noteq> Addr4 0 \<and> a \<noteq> Addr4 0xffffffff \<and> a \<noteq> Addr6 0 \<and>
      \<not> is_loopback a \<and> \<not> is_multicast a \<and> \<not> is_linklocal a)"

definition strip_port :: "string \<Rightarrow> string" where
  \<comment> \<open>the first statement of most operations: the host of a host and port, or the text itself\<close>
  "strip_port hostOrIP = (case split_host_port hostOrIP of Some host \<Rightarrow> host | None \<Rightarrow> hostOrIP)"

definition parse_ip :: "string \<Rightarrow> addr option" where
  \<comment> \<open>\<^verbatim>\<open>netip.ParseAddr\<close> without the zone\<close>
  "parse_ip s = map_option fst (parse_addr s)"

subsection \<open>State\<close>

datatype IPSetType = Protected | Regular | IPAddr | AutoType

definition Selfhost :: string where "Selfhost = ''rethink''"
definition Systemhost :: string where "Systemhost = ''system''"
definition HostlessPrefix :: string where "HostlessPrefix = ''hostless.''"
definition maxFailLimit :: u32 where "maxFailLimit = 8"

definition NeverResolve :: "string \<Rightarrow> bool" where
  "NeverResolve hostname = (hostname = Selfhost \<or> hostname = Systemhost \<or> prefix HostlessPrefix hostname)"

record IPSet =
  s_ips :: "addr list"
  s_typ :: IPSetType
  s_seed :: "string list"
  s_confirmed :: addr
  s_fails :: u32
  s_any4 :: bool
  s_any6 :: bool

type_synonym ptr = nat

record 'n ipmap =
  im_sets :: "IPSet list"
  im_m :: "(string, ptr) gomap"
  im_p :: "(string, ptr) gomap"
  im_ip :: "(string, ptr) gomap"
  im_rptr :: "'n iptree"
  im_pptr :: "'n iptree"

record im_env =
  ie_lookup :: "string \<Rightarrow> bool \<Rightarrow> unit + addr list"
  ie_loop :: bool
  ie_shuffle :: "addr list \<Rightarrow> addr list"

definition NewIPMapFor :: "'n netlib \<Rightarrow> 'n ipmap" where
  "NewIPMapFor L = \<lparr> im_sets = [], im_m = [], im_p = [], im_ip = [], im_rptr = NewIpTree L, im_pptr = NewIpTree L \<rparr>"

subsection \<open>Sets of addresses\<close>

fun hasLocked :: "addr list \<Rightarrow> addr \<Rightarrow> bool" where
  "hasLocked [] ip = False"
| "hasLocked (oldIP # ips) ip = (if oldIP = ip then True else hasLocked ips ip)"

fun addLocked_loop :: "addr list \<Rightarrow> addr list \<Rightarrow> bool \<Rightarrow> bool \<Rightarrow> addr list \<times> bool \<times> bool" where
  "addLocked_loop [] sips new4 new6 = (sips, new4, new6)"
| "addLocked_loop (ip # ips) sips new4 new6 =
     (let ip = unmap ip; nouns = (\<not> is_unspecified ip); valip = is_valid ip; newip = (\<not> hasLocked sips ip)
      in if nouns \<and> valip \<and> newip
         then addLocked_loop ips (sips @ [ip]) (new4 \<or> is4 ip) (new6 \<or> is6 ip)
         else addLocked_loop ips sips new4 new6)"

definition addLocked :: "addr list \<Rightarrow> IPSet \<Rightarrow> IPSet" where
  "addLocked ips s =
     (if s_typ s = IPAddr then s
      else if length ips \<le> 0 then
        (if s_typ s = Regular then s\<lparr> s_ips := [], s_any4 := False, s_any6 := False \<rparr> else s)
      else case addLocked_loop ips (s_ips s) False False of
             (sips, new4, new6) \<Rightarrow> s\<lparr> s_ips := sips, s_any4 := new4 \<or> s_any4 s, s_any6 := new6 \<or> s_any6 s \<rparr>)"

definition Seed :: "IPSet \<Rightarrow> string list" where
  "Seed s = s_seed s"

definition s_addAll :: "addr list \<Rightarrow> IPSet \<Rightarrow> bool \<times> IPSet" where
  \<comment> \<open>whether there was no error\<close>
  "s_addAll ips s =
     (if s_typ s = IPAddr then (False, s) else if length ips \<le> 0 then (False, s) else (True, addLocked ips s))"

definition Confirmed :: "IPSet \<Rightarrow> addr" where
  "Confirmed s = s_confirmed s"

definition s_Size :: "IPSet \<Rightarrow> u32" where
  "s_Size s = (if s_typ s = IPAddr then 1 else of_nat (length (s_ips s)))"

definition s_Empty :: "IPSet \<Rightarrow> bool" where
  "s_Empty s = (s_Size s = 0)"

definition s_add :: "im_env \<Rightarrow> string \<Rightarrow> IPSet \<Rightarrow> (addr list \<times> bool) \<times> IPSet" where
  "s_add env hostOrIP s =
     (if s_typ s = IPAddr then (([], False), s)
      else
        let hostOrIP = strip_port hostOrIP;
            resolved = (if s_typ s = Protected \<and> \<not> ie_loop env then ie_lookup env hostOrIP True
                        else if s_typ s = Regular \<or> s_typ s = AutoType then ie_lookup env hostOrIP False
                        else Inr [])
        in case resolved of
             Inl _ \<Rightarrow> (([], False), s)
           | Inr ips \<Rightarrow>
               let s = (if length ips > 0 then addLocked ips s else s);
                   ok = (\<not> s_Empty s);
                   s = (if ok then s\<lparr> s_fails := 0 \<rparr> else s)
               in ((ips, ok), s))"

fun bootstrap_loop :: "string list \<Rightarrow> nat \<Rightarrow> IPSet \<Rightarrow> nat \<times> IPSet" where
  "bootstrap_loop [] n s = (n, s)"
| "bootstrap_loop (ipstr # seed) n s =
     (let ipstr = trim_space ipstr
      in if length ipstr \<le> 0 then bootstrap_loop seed n s
         else case parse_ip ipstr of
                Some ip \<Rightarrow> bootstrap_loop seed (n + 1) (addLocked [ip] s)
              | None \<Rightarrow>
                  (case parse_addrport ipstr of
                     Some ((ip, port), z) \<Rightarrow> bootstrap_loop seed (n + 1) (addLocked [ip] s)
                   | None \<Rightarrow> bootstrap_loop seed n s))"

definition bootstrap :: "IPSet \<Rightarrow> nat \<times> IPSet" where
  "bootstrap s = bootstrap_loop (s_seed s) 0 s"

definition has4 :: "IPSet option \<Rightarrow> bool" where
  "has4 s = (case s of None \<Rightarrow> False | Some s \<Rightarrow> if s_typ s = IPAddr then is4 (Confirmed s) else s_any4 s)"

definition has6 :: "IPSet option \<Rightarrow> bool" where
  "has6 s = (case s of None \<Rightarrow> False | Some s \<Rightarrow> if s_typ s = IPAddr then is6 (Confirmed s) else s_any6 s)"

definition Addrs :: "im_env \<Rightarrow> IPSet option \<Rightarrow> addr list" where
  "Addrs env s =
     (case s of
        None \<Rightarrow> []
      | Some s \<Rightarrow>
          if s_typ s = IPAddr then [Confirmed s]
          else if length (s_ips s) \<le> 0 then [] else ie_shuffle env (s_ips s))"

definition OneIPOnly :: "IPSet \<Rightarrow> bool" where
  "OneIPOnly s = (s_typ s = IPAddr)"

definition Confirm :: "addr \<Rightarrow> IPSet \<Rightarrow> bool" where
  \<comment> \<open>whether the goroutine is started\<close>
  "Confirm ip s = (if s_typ s = IPAddr then False else if ip = Confirmed s then False else True)"

definition confirm_go :: "addr \<Rightarrow> IPSet \<Rightarrow> IPSet" where
  "confirm_go ip s =
     (let newIP = (\<not> hasLocked (s_ips s) ip)
      in if s_typ s = Protected \<and> newIP then s\<lparr> s_confirmed := AddrZero \<rparr>
         else
           let s = s\<lparr> s_confirmed := ip \<rparr>
           in if s_typ s \<noteq> Protected \<and> newIP then addLocked [ip] s else s)"

definition s_clear :: "IPSet \<Rightarrow> IPSet" where
  "s_clear s =
     (if s_typ s = IPAddr then s
      else
        let s = (if s_typ s \<noteq> Protected then addLocked [] s else s)
        in s\<lparr> s_confirmed := AddrZero, s_fails := 0 \<rparr>)"

definition Disconfirm :: "addr \<Rightarrow> IPSet \<Rightarrow> (bool \<times> addr) option \<times> IPSet" where
  \<comment> \<open>\<^verbatim>\<open>done\<close> and the confirmed address the goroutine starts with, if it is started\<close>
  "Disconfirm ip s =
     (if s_typ s = IPAddr then (None, s)
      else let c = Confirmed s
           in if ip = c then (Some (True, c), s\<lparr> s_confirmed := AddrZero \<rparr>) else (Some (False, c), s))"

definition disconfirm_go :: "bool \<Rightarrow> addr \<Rightarrow> IPSet \<Rightarrow> IPSet" where
  "disconfirm_go done' c s =
     (let sz = s_Size s
      in if sz > 0 then
           let s = (if done' \<or> c = AddrZero then s\<lparr> s_fails := s_fails s + 1 \<rparr> else s);
               tot = s_fails s
           in if tot > max (2 * sz) maxFailLimit then s_clear (s\<lparr> s_fails := 0 \<rparr>) else s
         else s)"

subsection \<open>The maps\<close>

definition set_at :: "'n ipmap \<Rightarrow> ptr \<Rightarrow> IPSet" where
  "set_at m a = im_sets m ! a"

definition put_set :: "ptr \<Rightarrow> IPSet \<Rightarrow> 'n ipmap \<Rightarrow> 'n ipmap" where
  "put_set a s m = m\<lparr> im_sets := (im_sets m)[a := s] \<rparr>"

fun esc_loop :: "'n netlib \<Rightarrow> addr list \<Rightarrow> string \<Rightarrow> 'n iptree \<Rightarrow> 'n iptree" where
  "esc_loop L [] host t = t"
| "esc_loop L (ip # ips) host t =
     esc_loop L ips host (if is_valid ip then snd (it_esc L (addr_string ip) host t) else t)"

fun add_loop :: "'n netlib \<Rightarrow> addr list \<Rightarrow> string \<Rightarrow> 'n iptree \<Rightarrow> 'n iptree" where
  "add_loop L [] host t = t"
| "add_loop L (ip # ips) host t =
     add_loop L ips host (if is_valid ip then snd (it_add L (addr_string ip) host t) else t)"

definition revmap :: "'n netlib \<Rightarrow> im_env \<Rightarrow> string \<Rightarrow> ptr option \<Rightarrow> ptr option \<Rightarrow> 'n ipmap \<Rightarrow> 'n ipmap" where
  "revmap L env hostOrIP new old m =
     (let host = strip_port hostOrIP
      in case parse_ip host of
           Some maybeip \<Rightarrow> m
         | None \<Rightarrow>
             let new = map_option (set_at m) new; old = map_option (set_at m) old;
                 add = Addrs env new; remove = Addrs env old;
                 newp = (case new of Some s \<Rightarrow> s_typ s = Protected | None \<Rightarrow> False);
                 oldp = (case old of Some s \<Rightarrow> s_typ s = Protected | None \<Rightarrow> False);
                 m = (if oldp then m\<lparr> im_pptr := esc_loop L remove host (im_pptr m) \<rparr>
                      else m\<lparr> im_rptr := esc_loop L remove host (im_rptr m) \<rparr>)
             in if newp then m\<lparr> im_pptr := add_loop L add host (im_pptr m) \<rparr>
                else m\<lparr> im_rptr := add_loop L add host (im_rptr m) \<rparr>)"

definition set_type :: "string \<Rightarrow> string list \<Rightarrow> IPSetType \<Rightarrow> IPSetType \<times> addr" where
  \<comment> \<open>the type \<^verbatim>\<open>makeIPSet\<close> decides on, and the address when it is \<^verbatim>\<open>IPAddr\<close>\<close>
  "set_type hostname ipps ogtyp =
     (let typ = (if length ipps = 0 then AutoType else ogtyp)
      in if NeverResolve hostname \<or> typ = Protected then (Protected, AddrZero)
         else case parse_ip hostname of
                Some ip \<Rightarrow> if \<not> is_unspecified ip \<and> is_valid ip then (IPAddr, ip) else (Regular, AddrZero)
              | None \<Rightarrow> (Regular, AddrZero))"

definition fresh_set :: "IPSetType \<Rightarrow> addr \<Rightarrow> string list \<Rightarrow> IPSet" where
  "fresh_set t ip seed =
     \<lparr> s_ips = [], s_typ = t, s_seed = seed, s_confirmed = (if t = IPAddr then ip else AddrZero),
       s_fails = 0, s_any4 = False, s_any6 = False \<rparr>"

definition makeIPSet :: "'n netlib \<Rightarrow> im_env \<Rightarrow> string \<Rightarrow> string list \<Rightarrow> IPSetType \<Rightarrow> 'n ipmap \<Rightarrow> ptr \<times> 'n ipmap" where
  "makeIPSet L env hostname ipps ogtyp m =
     (case set_type hostname ipps ogtyp of
        (typ, ip) \<Rightarrow>
          (case bootstrap (fresh_set typ ip (CopyUniq [ipps])) of
               (totalseeds, s) \<Rightarrow>
                 let a = length (im_sets m); m = m\<lparr> im_sets := im_sets m @ [s] \<rparr>
                 in if typ = Protected \<and> totalseeds \<le> 0 then (a, m)
                    else
                      (a, case typ of
                            Protected \<Rightarrow> revmap L env hostname (Some a) (map_of (im_p m) hostname) (m\<lparr> im_p := gm_put hostname a (im_p m) \<rparr>)
                          | IPAddr \<Rightarrow> revmap L env hostname (Some a) (map_of (im_ip m) hostname) (m\<lparr> im_ip := gm_put hostname a (im_ip m) \<rparr>)
                          | _ \<Rightarrow> revmap L env hostname (Some a) (map_of (im_m m) hostname) (m\<lparr> im_m := gm_put hostname a (im_m m) \<rparr>))))"

definition MakeIPSet :: "'n netlib \<Rightarrow> im_env \<Rightarrow> string \<Rightarrow> string list \<Rightarrow> IPSetType \<Rightarrow> 'n ipmap \<Rightarrow> ptr \<times> 'n ipmap" where
  "MakeIPSet L env hostOrIP ipps typ m =
     (let hostOrIP = strip_port hostOrIP;
          ipps = (if length ipps \<le> 0 \<and> typ = Protected
                  then case parse_ip hostOrIP of None \<Rightarrow> [] | Some ip \<Rightarrow> if is_valid ip then [hostOrIP] else []
                  else ipps)
      in makeIPSet L env hostOrIP ipps typ m)"

definition im_get :: "'n netlib \<Rightarrow> im_env \<Rightarrow> string \<Rightarrow> IPSetType \<Rightarrow> 'n ipmap \<Rightarrow> ptr \<times> 'n ipmap" where
  "im_get L env hostOrIP typ m =
     (let hostOrIP = strip_port hostOrIP;
          sp = map_of (im_p m) hostOrIP; sr = map_of (im_m m) hostOrIP; si = map_of (im_ip m) hostOrIP;
          (s, typ) = (if sp \<noteq> None \<or> typ = Protected then (sp, Protected)
                      else if si \<noteq> None \<or> typ = IPAddr then (si, IPAddr)
                      else (sr, Regular))
      in case s of
           Some a \<Rightarrow> (a, m)
         | None \<Rightarrow> makeIPSet L env hostOrIP [] typ m)"

definition GetAny :: "'n netlib \<Rightarrow> im_env \<Rightarrow> string \<Rightarrow> 'n ipmap \<Rightarrow> ptr \<times> 'n ipmap" where
  "GetAny L env hostOrIP m = im_get L env hostOrIP AutoType m"

definition im_Get :: "'n netlib \<Rightarrow> im_env \<Rightarrow> string \<Rightarrow> 'n ipmap \<Rightarrow> ptr \<times> 'n ipmap" where
  "im_Get L env hostOrIP m =
     (case im_get L env hostOrIP AutoType m of
        (a, m) \<Rightarrow>
          if s_Empty (set_at m a) then
            (case s_add env hostOrIP (set_at m a) of
               ((ips, ok), s) \<Rightarrow>
                 let m = put_set a s m
                 in (a, if \<not> ok then m else revmap L env hostOrIP (Some a) None m))
          else (a, m))"

definition im_Add :: "'n netlib \<Rightarrow> im_env \<Rightarrow> string \<Rightarrow> 'n ipmap \<Rightarrow> ptr \<times> 'n ipmap" where
  "im_Add L env hostOrIP m =
     (case im_get L env hostOrIP AutoType m of
        (a, m) \<Rightarrow>
          (case s_add env hostOrIP (set_at m a) of
             ((ips, ok), s) \<Rightarrow>
               let m = put_set a s m in (a, if ok then revmap L env hostOrIP (Some a) None m else m)))"

definition AddMany :: "'n netlib \<Rightarrow> im_env \<Rightarrow> string \<Rightarrow> addr list \<Rightarrow> 'n ipmap \<Rightarrow> ptr \<times> 'n ipmap" where
  "AddMany L env host ips m =
     (case im_get L env host AutoType m of
        (a, m) \<Rightarrow>
          (case s_addAll ips (set_at m a) of
             (ok, s) \<Rightarrow>
               let m = put_set a s m in (a, if ok then revmap L env host (Some a) None m else m)))"

definition ReverseGet :: "'n netlib \<Rightarrow> addr \<Rightarrow> 'n ipmap \<Rightarrow> string list" where
  "ReverseGet L ip m =
     (let q = addr_string ip;
          hosts = (case it_get L q (im_rptr m) of Inr s \<Rightarrow> s | Inl _ \<Rightarrow> '''')
      in if length hosts > 0 then split_at CHR '','' hosts
         else
           let hosts = (case it_get L q (im_pptr m) of Inr s \<Rightarrow> s | Inl _ \<Rightarrow> '''')
           in if length hosts > 0 then split_at CHR '','' hosts else [])"

definition im_Clear :: "'n ipmap \<Rightarrow> ptr list \<times> 'n ipmap" where
  \<comment> \<open>the sets left to the goroutine that clears them, while another clears the reverse map\<close>
  "im_Clear m = (map snd (im_m m) @ map snd (im_p m), m\<lparr> im_m := [] \<rparr>)"

definition clear_rptr :: "'n netlib \<Rightarrow> 'n ipmap \<Rightarrow> 'n ipmap" where
  "clear_rptr L m = m\<lparr> im_rptr := it_Clear L (im_rptr m) \<rparr>"

definition desiredfamily :: "string \<Rightarrow> addr \<Rightarrow> bool" where
  "desiredfamily ipver ip = (if ipver = ''v4'' then is4 ip else if ipver = ''v6'' then is6 ip else is_valid ip)"

definition oneip :: "im_env \<Rightarrow> string \<Rightarrow> IPSet \<Rightarrow> addr" where
  "oneip env ipver s =
     (let confirmed = Confirmed s
      in if desiredfamily ipver confirmed \<and> is_global_unicast confirmed then confirmed
         else case List.find (\<lambda>ip. desiredfamily ipver ip \<and> is_global_unicast ip) (Addrs env (Some s)) of
                Some ip \<Rightarrow> ip | None \<Rightarrow> AddrZero)"

fun getmany_loop :: "im_env \<Rightarrow> nat \<Rightarrow> string \<Rightarrow> IPSet list \<Rightarrow> addr list \<Rightarrow> addr list" where
  "getmany_loop env n ipver [] ips = ips"
| "getmany_loop env n ipver (s # sets) ips =
     (if length ips \<ge> n then ips
      else let ip = oneip env ipver s in getmany_loop env n ipver sets (if is_valid ip then ips @ [ip] else ips))"

definition GetMany :: "im_env \<Rightarrow> u8 \<Rightarrow> string \<Rightarrow> 'n ipmap \<Rightarrow> addr list" where
  "GetMany env n ipver m =
     (let sets = (\<lambda>g. map (\<lambda>(h, a). set_at m a) g)
      in getmany_loop env (unat n) ipver (sets (im_ip m))
           (getmany_loop env (unat n) ipver (sets (im_p m)) (getmany_loop env (unat n) ipver (sets (im_m m)) [])))"

definition hasDesiredIPFamily :: "IPSet \<Rightarrow> string \<Rightarrow> bool" where
  "hasDesiredIPFamily ips ipver = (if ipver = ''v4'' then has4 (Some ips) else if ipver = ''v6'' then has6 (Some ips) else True)"

definition possiblyPublicHost :: "'t critlib \<Rightarrow> 't \<Rightarrow> string \<Rightarrow> bool option" where
  "possiblyPublicHost C undelegated host =
     do { mdns \<leftarrow> IsMDNSQuery host;
          if mdns then Some False
          else do { u \<leftarrow> rx_hasAny C host undelegated;
                    Some (if u then False else if parse_ip host \<noteq> None then False else CHR ''.'' \<in> set host) } }"

fun hosts_loop :: "'t critlib \<Rightarrow> 't \<Rightarrow> nat \<Rightarrow> string \<Rightarrow> (string \<times> IPSet) list \<Rightarrow> string list \<Rightarrow> string list option" where
  "hosts_loop C u nn ipver [] hosts = Some hosts"
| "hosts_loop C u nn ipver ((host, ips) # g) hosts =
     (if length hosts \<ge> nn then Some hosts
      else do { pub \<leftarrow> possiblyPublicHost C u host;
                hosts_loop C u nn ipver g (if pub \<and> hasDesiredIPFamily ips ipver then hosts @ [host] else hosts) })"

definition ReverseGetMany :: "'t critlib \<Rightarrow> 't \<Rightarrow> u8 \<Rightarrow> string \<Rightarrow> 'n ipmap \<Rightarrow> string list option" where
  "ReverseGetMany C u n ipver m =
     (let nn = (if n > 4 then unat n - 2 else 0); sets = map (\<lambda>(h, a). (h, set_at m a))
      in do { hosts \<leftarrow> hosts_loop C u nn ipver (sets (im_m m)) [];
              hosts_loop C u (unat n) ipver (sets (im_p m)) hosts })"

definition UndelegatedDomains :: "string list" where
  "UndelegatedDomains = [
    ''0.0.0.0.0.0.0.0.0.0.0.0.0.0.0.0.0.0.0.0.0.0.0.0.0.0.0.0.0.0.0.0.ip6.arpa'', ''0.in-addr.arpa'', ''1'',
    ''1.0.0.0.0.0.0.0.0.0.0.0.0.0.0.0.0.0.0.0.0.0.0.0.0.0.0.0.0.0.0.0.ip6.arpa'', ''10.in-addr.arpa'',
    ''100.100.in-addr.arpa'', ''100.51.198.in-addr.arpa'', ''101.100.in-addr.arpa'', ''102.100.in-addr.arpa'',
    ''103.100.in-addr.arpa'', ''104.100.in-addr.arpa'', ''105.100.in-addr.arpa'', ''106.100.in-addr.arpa'',
    ''107.100.in-addr.arpa'', ''108.100.in-addr.arpa'', ''109.100.in-addr.arpa'', ''110.100.in-addr.arpa'',
    ''111.100.in-addr.arpa'', ''112.100.in-addr.arpa'', ''113.0.203.in-addr.arpa'', ''113.100.in-addr.arpa'',
    ''114.100.in-addr.arpa'', ''115.100.in-addr.arpa'', ''116.100.in-addr.arpa'', ''117.100.in-addr.arpa'',
    ''118.100.in-addr.arpa'', ''119.100.in-addr.arpa'', ''120.100.in-addr.arpa'', ''121.100.in-addr.arpa'',
    ''122.100.in-addr.arpa'', ''123.100.in-addr.arpa'', ''124.100.in-addr.arpa'', ''125.100.in-addr.arpa'',
    ''126.100.in-addr.arpa'', ''127.100.in-addr.arpa'', ''127.in-addr.arpa'', ''16.172.in-addr.arpa'',
    ''168.192.in-addr.arpa'', ''17.172.in-addr.arpa'', ''18.172.in-addr.arpa'', ''19.172.in-addr.arpa'',
    ''2.0.192.in-addr.arpa'', ''20.172.in-addr.arpa'', ''21.172.in-addr.arpa'', ''22.172.in-addr.arpa'',
    ''23.172.in-addr.arpa'', ''24.172.in-addr.arpa'', ''25.172.in-addr.arpa'', ''254.169.in-addr.arpa'',
    ''255.255.255.255.in-addr.arpa'', ''26.172.in-addr.arpa'', ''27.172.in-addr.arpa'', ''28.172.in-addr.arpa'',
    ''29.172.in-addr.arpa'', ''30.172.in-addr.arpa'', ''31.172.in-addr.arpa'', ''64.100.in-addr.arpa'',
    ''65.100.in-addr.arpa'', ''66.100.in-addr.arpa'', ''67.100.in-addr.arpa'', ''68.100.in-addr.arpa'',
    ''69.100.in-addr.arpa'', ''70.100.in-addr.arpa'', ''71.100.in-addr.arpa'', ''72.100.in-addr.arpa'',
    ''73.100.in-addr.arpa'', ''74.100.in-addr.arpa'', ''75.100.in-addr.arpa'', ''76.100.in-addr.arpa'',
    ''77.100.in-addr.arpa'', ''78.100.in-addr.arpa'', ''79.100.in-addr.arpa'', ''8.b.d.0.1.0.0.2.ip6.arpa'',
    ''8.e.f.ip6.arpa'', ''80.100.in-addr.arpa'', ''81.100.in-addr.arpa'', ''82.100.in-addr.arpa'',
    ''83.100.in-addr.arpa'', ''84.100.in-addr.arpa'', ''85.100.in-addr.arpa'', ''86.100.in-addr.arpa'',
    ''87.100.in-addr.arpa'', ''88.100.in-addr.arpa'', ''89.100.in-addr.arpa'', ''9.e.f.ip6.arpa'',
    ''90.100.in-addr.arpa'', ''91.100.in-addr.arpa'', ''92.100.in-addr.arpa'', ''93.100.in-addr.arpa'',
    ''94.100.in-addr.arpa'', ''95.100.in-addr.arpa'', ''96.100.in-addr.arpa'', ''97.100.in-addr.arpa'',
    ''98.100.in-addr.arpa'', ''99.100.in-addr.arpa'', ''a.e.f.ip6.arpa'', ''.airdream'', ''.api'', ''b.e.f.ip6.arpa'',
    ''.bbrouter'', ''.belkin'', ''.bind'', ''.blinkap'', ''.corp'', ''d.f.ip6.arpa'', ''.davolink'',
    ''.dearmyrouter'', ''.dhcp'', ''.dlink'', ''.domain'', ''.envoy'', ''.example'', ''fritz.box'', ''f.f.ip6.arpa'',
    ''.fritz.box'', ''.grp'', ''.gw=='', ''.home'', ''.home.arpa'', ''.hub'', ''.internal'', ''.intra'',
    ''.intranet'', ''.invalid'', ''.ksyun'', ''.lan'', ''.loc'', ''.local'', ''.localdomain'', ''.localhost'',
    ''.localnet'', ''.mail'', ''.modem'', ''.mynet'', ''.myrouter'', ''.novalocal'', ''.openstacklocal'', ''.priv'',
    ''.private'', ''.prv'', ''.router'', ''.telus'', ''.test'', ''.totolink'', ''.wlan_ap'', ''.workgroup'',
    ''.zghjccbob3n0'']"

definition newUndelegatedDomainTrie :: "'t critlib \<Rightarrow> 't" where
  "newUndelegatedDomainTrie C = fold (\<lambda>domain t. snd (rx_add C domain t)) UndelegatedDomains (NewRadixTree C)"

subsection \<open>Well-formed sets\<close>

definition ip_good :: "addr \<Rightarrow> bool" where
  "ip_good a = (is_valid a \<and> \<not> is_unspecified a \<and> \<not> is4in6 a)"

definition set_ok :: "IPSet \<Rightarrow> bool" where
  \<comment> \<open>no duplicate, mapped, zero or unspecified address; the flags tell the families; an address set is its address;
    what a protected set confirms is one of its addresses\<close>
  "set_ok s \<longleftrightarrow> distinct (s_ips s) \<and> list_all ip_good (s_ips s) \<and> s_typ s \<noteq> AutoType \<and>
     s_any4 s = list_ex is4 (s_ips s) \<and> s_any6 s = list_ex is6 (s_ips s) \<and>
     (s_typ s = IPAddr \<longrightarrow> s_ips s = [] \<and> is_valid (s_confirmed s) \<and> \<not> is_unspecified (s_confirmed s)) \<and>
     (s_typ s = Protected \<longrightarrow> s_confirmed s = AddrZero \<or> s_confirmed s \<in> set (s_ips s))"

definition keeps :: "IPSet \<Rightarrow> IPSet \<Rightarrow> bool" where
  \<comment> \<open>what no operation changes, and what grows only, unless the set is cleared\<close>
  "keeps s s' \<longleftrightarrow> s_typ s' = s_typ s \<and> s_seed s' = s_seed s \<and> (s_typ s = IPAddr \<longrightarrow> s_confirmed s' = s_confirmed s) \<and>
     (s_typ s = Protected \<longrightarrow> set (s_ips s) \<subseteq> set (s_ips s'))"

lemma keeps_refl [simp]: "keeps s s"
  by (simp add: keeps_def)

lemma keeps_trans: "keeps s t \<Longrightarrow> keeps t u \<Longrightarrow> keeps s u"
  by (auto simp: keeps_def)

lemma hasLocked_set [simp]: "hasLocked ips ip \<longleftrightarrow> ip \<in> set ips"
  by (induction ips) auto

lemma addLocked_loop_adds:
  "\<exists>new. addLocked_loop ips sips n4 n6 = (sips @ new, n4 \<or> list_ex is4 new, n6 \<or> list_ex is6 new) \<and>
     list_all ip_good new \<and> distinct new \<and> set new = (set (filter ip_good (map unmap ips)) - set sips)"
proof (induction ips arbitrary: sips n4 n6)
  case (Cons ip ips)
  have g: "ip_good (unmap ip) \<longleftrightarrow> \<not> is_unspecified (unmap ip) \<and> is_valid (unmap ip)" by (auto simp: ip_good_def)
  show ?case
  proof (cases "ip_good (unmap ip) \<and> unmap ip \<notin> set sips")
    case True
    obtain new where "addLocked_loop ips (sips @ [unmap ip]) (n4 \<or> is4 (unmap ip)) (n6 \<or> is6 (unmap ip)) =
        ((sips @ [unmap ip]) @ new, (n4 \<or> is4 (unmap ip)) \<or> list_ex is4 new, (n6 \<or> is6 (unmap ip)) \<or> list_ex is6 new)"
      "list_all ip_good new" "distinct new" "set new = set (filter ip_good (map unmap ips)) - set (sips @ [unmap ip])"
      using Cons.IH by blast
    then show ?thesis using True
      by (intro exI [of _ "unmap ip # new"]) (auto simp: Let_def g simp del: is4_def is6_def is_valid_def is_unspecified_def)
  next
    case False
    obtain new where "addLocked_loop ips sips n4 n6 = (sips @ new, n4 \<or> list_ex is4 new, n6 \<or> list_ex is6 new)"
      "list_all ip_good new" "distinct new" "set new = set (filter ip_good (map unmap ips)) - set sips"
      using Cons.IH by blast
    then show ?thesis using False
      by (intro exI [of _ new]) (auto simp: Let_def g simp del: is4_def is6_def is_valid_def is_unspecified_def)
  qed
qed simp

lemma addLocked_props:
  assumes "ips \<noteq> []" "s_typ s \<noteq> IPAddr"
  obtains new where "addLocked ips s = s\<lparr> s_ips := s_ips s @ new, s_any4 := list_ex is4 new \<or> s_any4 s, s_any6 := list_ex is6 new \<or> s_any6 s \<rparr>"
    "list_all ip_good new" "distinct new" "set new = set (filter ip_good (map unmap ips)) - set (s_ips s)"
  using assms addLocked_loop_adds [of ips "s_ips s" False False] by (auto simp: addLocked_def)

lemma addLocked_ok: "set_ok s \<Longrightarrow> ips \<noteq> [] \<or> s_typ s \<noteq> Protected \<Longrightarrow> set_ok (addLocked ips s) \<and> keeps s (addLocked ips s)"
proof (cases "ips = [] \<or> s_typ s = IPAddr")
  case True
  then show "set_ok s \<Longrightarrow> ips \<noteq> [] \<or> s_typ s \<noteq> Protected \<Longrightarrow> ?thesis"
    by (auto simp: addLocked_def set_ok_def keeps_def)
next
  case False
  then obtain new where "addLocked ips s = s\<lparr> s_ips := s_ips s @ new, s_any4 := list_ex is4 new \<or> s_any4 s, s_any6 := list_ex is6 new \<or> s_any6 s \<rparr>"
    "list_all ip_good new" "distinct new" "set new = set (filter ip_good (map unmap ips)) - set (s_ips s)"
    using addLocked_props by metis
  then show "set_ok s \<Longrightarrow> ?thesis" using False by (auto simp: set_ok_def keeps_def)
qed

lemma s_addAll_ok: "set_ok s \<Longrightarrow> set_ok (snd (s_addAll ips s)) \<and> keeps s (snd (s_addAll ips s))"
  using addLocked_ok [of s ips] by (auto simp: s_addAll_def)

lemma s_fails_ok [simp]: "set_ok (s\<lparr> s_fails := n \<rparr>) = set_ok s" "keeps s (t\<lparr> s_fails := n \<rparr>) = keeps s t"
  by (simp_all add: set_ok_def keeps_def)

lemma s_add_ok: "set_ok s \<Longrightarrow> set_ok (snd (s_add env h s)) \<and> keeps s (snd (s_add env h s))"
  using addLocked_ok [of s] by (auto simp: s_add_def Let_def split: sum.splits)

lemma bootstrap_loop_ok: "set_ok s \<Longrightarrow> set_ok (snd (bootstrap_loop seed n s)) \<and> keeps s (snd (bootstrap_loop seed n s))"
proof (induction seed arbitrary: n s)
  case (Cons ipstr seed)
  have "set_ok (addLocked [ip] s) \<and> keeps s (addLocked [ip] s)" for ip using addLocked_ok [OF Cons.prems, of "[ip]"] by simp
  then show ?case using Cons by (auto simp: Let_def split: option.splits intro: keeps_trans)
qed simp

lemma confirm_go_ok: "set_ok s \<Longrightarrow> s_typ s \<noteq> IPAddr \<Longrightarrow> set_ok (confirm_go ip s) \<and> keeps s (confirm_go ip s)"
proof -
  assume s: "set_ok s" "s_typ s \<noteq> IPAddr"
  show ?thesis
  proof (cases "s_typ s = Protected")
    case True
    then show ?thesis using s by (auto simp: confirm_go_def Let_def set_ok_def keeps_def)
  next
    case False
    then have "set_ok (s\<lparr> s_confirmed := ip \<rparr>)" "keeps s (s\<lparr> s_confirmed := ip \<rparr>)" using s by (auto simp: set_ok_def keeps_def)
    then show ?thesis using False addLocked_ok [of "s\<lparr> s_confirmed := ip \<rparr>" "[ip]"]
      by (auto simp: confirm_go_def Let_def intro: keeps_trans)
  qed
qed

lemma s_clear_ok: "set_ok s \<Longrightarrow> set_ok (s_clear s) \<and> keeps s (s_clear s)"
  by (auto simp: s_clear_def addLocked_def Let_def set_ok_def keeps_def)

lemma Disconfirm_ok: "set_ok s \<Longrightarrow> set_ok (snd (Disconfirm ip s)) \<and> keeps s (snd (Disconfirm ip s))"
  by (auto simp: Disconfirm_def Let_def set_ok_def keeps_def)

lemma disconfirm_go_ok: "set_ok s \<Longrightarrow> set_ok (disconfirm_go d c s) \<and> keeps s (disconfirm_go d c s)"
  using s_clear_ok [of "s\<lparr> s_fails := 0 \<rparr>"] s_clear_ok [of "s\<lparr> s_fails := 0 \<rparr>"]
  by (auto simp: disconfirm_go_def Let_def keeps_def)

subsection \<open>Well-formed maps\<close>

definition entry_ok :: "IPSet list \<Rightarrow> IPSetType \<Rightarrow> string \<times> ptr \<Rightarrow> bool" where
  "entry_ok S t e = (snd e < length S \<and> s_typ (S ! snd e) = t \<and> (t = IPAddr \<longrightarrow> parse_ip (fst e) = Some (s_confirmed (S ! snd e))))"

definition im_ok :: "'n ipmap \<Rightarrow> bool" where
  \<comment> \<open>every set is well-formed; the three maps point to sets of their type, and an address to the set of that address\<close>
  "im_ok m \<longleftrightarrow> list_all set_ok (im_sets m) \<and> list_all (entry_ok (im_sets m) Regular) (im_m m) \<and>
     list_all (entry_ok (im_sets m) Protected) (im_p m) \<and> list_all (entry_ok (im_sets m) IPAddr) (im_ip m)"

lemma revmap_frame [simp]:
  "im_sets (revmap L env h new old m) = im_sets m" "im_m (revmap L env h new old m) = im_m m"
  "im_p (revmap L env h new old m) = im_p m" "im_ip (revmap L env h new old m) = im_ip m"
  by (simp_all add: revmap_def Let_def split: option.splits)

lemma revmap_ok [simp]: "im_ok (revmap L env h new old m) = im_ok m"
  by (simp add: im_ok_def)

lemma entry_ok_snoc: "entry_ok S t e \<Longrightarrow> entry_ok (S @ [s]) t e"
  by (auto simp: entry_ok_def nth_append)

lemma entry_ok_update: "keeps (S ! a) s \<Longrightarrow> entry_ok S t e \<Longrightarrow> entry_ok (S[a := s]) t e"
  by (cases "snd e = a") (auto simp: entry_ok_def keeps_def)

lemma put_set_ok: "im_ok m \<Longrightarrow> a < length (im_sets m) \<Longrightarrow> set_ok s \<and> keeps (set_at m a) s \<Longrightarrow> im_ok (put_set a s m)"
  using entry_ok_update [of "im_sets m" a s]
  by (auto simp: im_ok_def put_set_def set_at_def list_all_iff dest!: set_update_subset_insert [THEN subsetD])

lemma list_all_gm_put: "list_all P g \<Longrightarrow> P (k, v) \<Longrightarrow> list_all P (gm_put k v g)"
  by (induction g) auto

lemma bootstrap_new_ok:
  assumes "set_type h ipps ogtyp = (ty, ip)"
  shows "set_ok (snd (bootstrap (fresh_set ty ip seed)))" "s_typ (snd (bootstrap (fresh_set ty ip seed))) = ty"
    "ty = IPAddr \<Longrightarrow> parse_ip h = Some (s_confirmed (snd (bootstrap (fresh_set ty ip seed))))" "ty \<noteq> AutoType"
proof -
  have t: "ty \<noteq> AutoType" "ty = IPAddr \<Longrightarrow> parse_ip h = Some ip \<and> is_valid ip \<and> \<not> is_unspecified ip"
    using assms by (auto simp: set_type_def Let_def split: if_splits option.splits)
  then have "set_ok (fresh_set ty ip seed)" by (auto simp: set_ok_def fresh_set_def)
  note b = bootstrap_loop_ok [OF this, of seed 0]
  have s: "bootstrap (fresh_set ty ip seed) = bootstrap_loop seed 0 (fresh_set ty ip seed)" by (simp add: bootstrap_def fresh_set_def)
  show "set_ok (snd (bootstrap (fresh_set ty ip seed)))" using b s by simp
  show "s_typ (snd (bootstrap (fresh_set ty ip seed))) = ty" using b s by (simp add: keeps_def fresh_set_def)
  show "ty = IPAddr \<Longrightarrow> parse_ip h = Some (s_confirmed (snd (bootstrap (fresh_set ty ip seed))))"
    using b s t(2) by (simp add: keeps_def fresh_set_def)
  show "ty \<noteq> AutoType" by (rule t(1))
qed

lemma makeIPSet_sets:
  "fst (makeIPSet L env h ipps t m) = length (im_sets m)"
  "set_type h ipps t = (ty, ip) \<Longrightarrow>
     im_sets (snd (makeIPSet L env h ipps t m)) = im_sets m @ [snd (bootstrap (fresh_set ty ip (CopyUniq [ipps])))]"
  by (auto simp: makeIPSet_def Let_def case_prod_beta split: IPSetType.splits)

lemma makeIPSet_ok:
  assumes "im_ok m"
  shows "im_ok (snd (makeIPSet L env h ipps t m))"
proof -
  obtain ty ip where t: "set_type h ipps t = (ty, ip)" by force
  obtain n s where s: "bootstrap (fresh_set ty ip (CopyUniq [ipps])) = (n, s)" by force
  note b = bootstrap_new_ok(1-3) [OF t, of "CopyUniq [ipps]", unfolded s snd_conv] bootstrap_new_ok(4) [OF t]
  let ?S = "im_sets m @ [s]"
  have e: "entry_ok ?S ty (h, length (im_sets m))" using b by (simp add: entry_ok_def)
  have o: "list_all set_ok ?S" "list_all (entry_ok ?S Regular) (im_m m)" "list_all (entry_ok ?S Protected) (im_p m)" "list_all (entry_ok ?S IPAddr) (im_ip m)"
    using assms b(1) by (auto simp: im_ok_def list_all_iff entry_ok_snoc)
  show ?thesis
    using o e b(4) unfolding makeIPSet_def t prod.case s
    by (cases ty) (auto simp: Let_def im_ok_def list_all_gm_put simp del: list_all_append)
qed

lemma im_get_ok:
  assumes "im_ok m"
  shows "im_ok (snd (im_get L env h t m))" "fst (im_get L env h t m) < length (im_sets (snd (im_get L env h t m)))"
proof -
  show "im_ok (snd (im_get L env h t m))"
    using assms makeIPSet_ok [OF assms] by (simp add: im_get_def Let_def split: option.splits)
  have p: "a < length (im_sets m)" if "map_of (im_p m) k = Some a \<or> map_of (im_m m) k = Some a \<or> map_of (im_ip m) k = Some a" for k a
    using assms that by (auto simp: im_ok_def list_all_iff entry_ok_def dest!: map_of_SomeD)
  have q: "fst (makeIPSet L env k ipps t m) < length (im_sets (snd (makeIPSet L env k ipps t m)))" for k ipps t
    by (cases "set_type k ipps t") (simp add: makeIPSet_sets)
  show "fst (im_get L env h t m) < length (im_sets (snd (im_get L env h t m)))"
    using p q by (auto simp: im_get_def Let_def split: option.splits)
qed

lemma op_put_ok:
  assumes "im_ok m" "a < length (im_sets m)" "set_ok (set_at m a) \<Longrightarrow> set_ok s \<and> keeps (set_at m a) s"
  shows "im_ok (put_set a s m)"
  using assms put_set_ok by (auto simp: im_ok_def set_at_def list_all_length)

lemma im_Get_ok: "im_ok m \<Longrightarrow> im_ok (snd (im_Get L env h m))"
  using im_get_ok [of m L env h AutoType] op_put_ok s_add_ok [of _ env h]
  by (auto simp: im_Get_def Let_def case_prod_beta)

lemma im_Add_ok: "im_ok m \<Longrightarrow> im_ok (snd (im_Add L env h m))"
  using im_get_ok [of m L env h AutoType] op_put_ok s_add_ok [of _ env h]
  by (auto simp: im_Add_def Let_def case_prod_beta)

lemma AddMany_ok: "im_ok m \<Longrightarrow> im_ok (snd (AddMany L env h ips m))"
  using im_get_ok [of m L env h AutoType] op_put_ok s_addAll_ok [of _ ips]
  by (auto simp: AddMany_def Let_def case_prod_beta)

subsection \<open>Runs\<close>

datatype set_op = SConfirm addr | SDisconfirm addr | SDisconfirmGo bool addr | SClear

fun set_step :: "set_op \<Rightarrow> IPSet \<Rightarrow> IPSet" where
  \<comment> \<open>a goroutine of \<^verbatim>\<open>Confirm\<close> or \<^verbatim>\<open>Disconfirm\<close> is never started on an address set\<close>
  "set_step (SConfirm ip) s = (if s_typ s = IPAddr then s else confirm_go ip s)"
| "set_step (SDisconfirm ip) s = snd (Disconfirm ip s)"
| "set_step (SDisconfirmGo d c) s = (if s_typ s = IPAddr then s else disconfirm_go d c s)"
| "set_step SClear s = s_clear s"

datatype im_op = OGetAny string | OGet string | OAdd string | OAddMany string "addr list"
  | OMake string "string list" IPSetType | OClear | OClearRptr | OSet ptr set_op

fun im_step :: "'n netlib \<Rightarrow> im_env \<times> im_op \<Rightarrow> 'n ipmap \<Rightarrow> 'n ipmap" where
  "im_step L (env, OGetAny h) m = snd (GetAny L env h m)"
| "im_step L (env, OGet h) m = snd (im_Get L env h m)"
| "im_step L (env, OAdd h) m = snd (im_Add L env h m)"
| "im_step L (env, OAddMany h ips) m = snd (AddMany L env h ips m)"
| "im_step L (env, OMake h ipps t) m = snd (MakeIPSet L env h ipps t m)"
| "im_step L (env, OClear) m = snd (im_Clear m)"
| "im_step L (env, OClearRptr) m = clear_rptr L m"
| "im_step L (env, OSet a op) m = (if a < length (im_sets m) then put_set a (set_step op (set_at m a)) m else m)"

lemma set_step_ok: "set_ok s \<Longrightarrow> set_ok (set_step op s) \<and> keeps s (set_step op s)"
  using confirm_go_ok Disconfirm_ok disconfirm_go_ok s_clear_ok by (cases op) auto

lemma im_step_ok: "im_ok m \<Longrightarrow> im_ok (im_step L e m)"
proof (induction L e m rule: im_step.induct)
  case (5 L env h ipps t m)
  then show ?case using makeIPSet_ok by (auto simp: MakeIPSet_def Let_def)
next
  case (6 L env m)
  then show ?case by (simp add: im_Clear_def im_ok_def)
next
  case (7 L env m)
  then show ?case by (simp add: clear_rptr_def im_ok_def)
next
  case (8 L env a op m)
  show ?case using 8 op_put_ok [OF 8 _ set_step_ok, of a] by simp
qed (use im_get_ok im_Get_ok im_Add_ok AddMany_ok in \<open>auto simp: GetAny_def\<close>)

definition im_run :: "'n netlib \<Rightarrow> (im_env \<times> im_op) list \<Rightarrow> 'n ipmap" where
  "im_run L ops = fold (im_step L) ops (NewIPMapFor L)"

lemma im_run_ok: "im_ok (im_run L ops)"
proof -
  have "im_ok m \<Longrightarrow> im_ok (fold (im_step L) ops m)" for m :: "'a ipmap"
    by (induction ops arbitrary: m) (simp_all add: im_step_ok)
  moreover have "im_ok (NewIPMapFor L)" by (simp add: im_ok_def NewIPMapFor_def)
  ultimately show ?thesis by (simp add: im_run_def)
qed

lemma set_ok_families:
  assumes "set_ok s" "\<And>xs. set (ie_shuffle env xs) = set xs"
  shows "has4 (Some s) \<longleftrightarrow> (\<exists>ip \<in> set (Addrs env (Some s)). is4 ip)" "has6 (Some s) \<longleftrightarrow> (\<exists>ip \<in> set (Addrs env (Some s)). is6 ip)"
  using assms by (auto simp: set_ok_def has4_def has6_def Addrs_def Confirmed_def list_ex_iff simp del: is4_def is6_def)


text \<open>
  C30: \<^verbatim>\<open>GetAny\<close> called twice returns the same set and the second call changes nothing, except for a host that is never
  resolved and has no seeded set: each call then returns a new set that the map does not keep.
\<close>
theorem GetAny_twice:
  "case GetAny L env h m of (a, m1) \<Rightarrow>
     if NeverResolve (strip_port h) \<and> map_of (im_p m) (strip_port h) = None \<and> map_of (im_m m) (strip_port h) = None \<and>
        map_of (im_ip m) (strip_port h) = None
     then fst (GetAny L env h m1) = a + 1 \<and> im_m m1 = im_m m \<and> im_p m1 = im_p m \<and> im_ip m1 = im_ip m
     else GetAny L env h m1 = (a, m1)"
proof -
  let ?k = "strip_port h"
  have b: "CopyUniq [[] :: string list] = []" by (simp add: CopyUniq_def)
  have z: "fst (bootstrap (fresh_set Protected ip [])) = 0" for ip by (simp add: bootstrap_def fresh_set_def)
  show ?thesis
  proof (cases "map_of (im_p m) ?k = None \<and> map_of (im_m m) ?k = None \<and> map_of (im_ip m) ?k = None")
    case False
    then show ?thesis by (auto simp: GetAny_def im_get_def Let_def split: option.splits)
  next
    case True
    obtain ty ip where t: "set_type ?k [] Regular = (ty, ip)" by force
    obtain n s where s: "bootstrap (fresh_set ty ip (CopyUniq [[]])) = (n, s)" by force
    have g: "GetAny L env h m = makeIPSet L env ?k [] Regular m" using True by (simp add: GetAny_def im_get_def Let_def)
    have np: "ty = Protected \<longleftrightarrow> NeverResolve ?k" "ty \<noteq> AutoType" using t by (auto simp: set_type_def Let_def split: if_splits option.splits)
    show ?thesis
    proof (cases "NeverResolve ?k")
      case True
      have "n = 0" using s z [of ip] np True b by simp
      then show ?thesis using np True \<open>map_of (im_p m) ?k = None \<and> _\<close>
        by (auto simp: g makeIPSet_def t s Let_def GetAny_def im_get_def case_prod_beta z b)
    next
      case False
      then have "ty = Regular \<or> ty = IPAddr" using np by (cases ty) auto
      then show ?thesis using False True
        by (auto simp: g makeIPSet_def t s Let_def GetAny_def im_get_def update_conv')
    qed
  qed
qed

subsection \<open>Failures\<close>

definition fail_once :: "addr \<Rightarrow> IPSet \<Rightarrow> IPSet" where
  \<comment> \<open>a call of \<^verbatim>\<open>Disconfirm\<close> and its goroutine\<close>
  "fail_once ip s = (case Disconfirm ip s of (None, s) \<Rightarrow> s | (Some (d, c), s) \<Rightarrow> disconfirm_go d c s)"

lemma fail_once_counts:
  assumes "s_typ s = Regular" "s_confirmed s = AddrZero" "length (s_ips s) = n" "0 < n" "n < 2 ^ 30" "s_fails s = of_nat k" "k \<le> max (2 * n) 8"
  shows "fail_once ip s = (if k = max (2 * n) 8 then s_clear s else s\<lparr> s_fails := of_nat (k + 1) \<rparr>)"
proof -
  have z: "s\<lparr> s_confirmed := AddrZero \<rparr> = s" using assms(2) by simp
  have d: "\<exists>d. Disconfirm ip s = (Some (d, AddrZero), s)" using assms(1,2) z by (auto simp: Disconfirm_def Confirmed_def Let_def)
  have sz: "s_Size s = of_nat n" "unat (of_nat n :: u32) = n" "(of_nat n :: u32) > 0"
    using assms by (auto simp: s_Size_def unat_of_nat word_less_nat_alt)
  have w: "unat (2 * of_nat n :: u32) = 2 * n" "unat (1 + of_nat k :: u32) = k + 1"
    using assms(5,7) by (simp_all add: unat_word_ariths unat_of_nat)
  have cmp: "(1 + of_nat k > max (2 * of_nat n) maxFailLimit) \<longleftrightarrow> k = max (2 * n) 8"
    using assms(7) w by (auto simp: maxFailLimit_def max_def word_less_nat_alt word_le_nat_alt)
  show ?thesis
    using d cmp assms(1,6) sz by (auto simp: fail_once_def disconfirm_go_def Let_def add.commute s_clear_def addLocked_def)
qed


text \<open>
  C31: The addresses of a regular set without a confirmed one survive \<open>max(2n, 8)\<close> failures, for a set of \<open>n\<close> addresses, and
  the next failure empties the set and resets the counter.
\<close>
theorem Disconfirm_limit:
  assumes "s_typ s = Regular" "s_confirmed s = AddrZero" "s_fails s = 0" "s_ips s \<noteq> []" "length (s_ips s) < 2 ^ 30"
  shows "(\<forall>k \<le> max (2 * length (s_ips s)) 8. s_ips ((fail_once ip ^^ k) s) = s_ips s) \<and>
    s_ips ((fail_once ip ^^ Suc (max (2 * length (s_ips s)) 8)) s) = [] \<and>
    s_fails ((fail_once ip ^^ Suc (max (2 * length (s_ips s)) 8)) s) = 0"
proof -
  let ?n = "length (s_ips s)"
  have p: "(fail_once ip ^^ k) s = s\<lparr> s_fails := of_nat k \<rparr>" if "k \<le> max (2 * ?n) 8" for k
    using that
  proof (induction k)
    case 0
    then show ?case using assms(3) by simp
  next
    case (Suc k)
    then have "(fail_once ip ^^ Suc k) s = fail_once ip (s\<lparr> s_fails := of_nat k \<rparr>)" by simp
    also have "\<dots> = s\<lparr> s_fails := of_nat (Suc k) \<rparr>"
      using fail_once_counts [of "s\<lparr> s_fails := of_nat k \<rparr>" ?n k ip] assms Suc.prems by simp
    finally show ?case .
  qed
  define l where "l = max (2 * ?n) 8"
  have "(fail_once ip ^^ Suc l) s = s_clear (s\<lparr> s_fails := of_nat l \<rparr>)"
    using p [of l] fail_once_counts [of "s\<lparr> s_fails := of_nat l \<rparr>" ?n l ip] assms by (simp add: l_def)
  then have "s_ips ((fail_once ip ^^ Suc l) s) = [] \<and> s_fails ((fail_once ip ^^ Suc l) s) = 0"
    using assms(1) by (simp add: s_clear_def addLocked_def Let_def)
  then show ?thesis using p unfolding l_def by simp
qed

subsection \<open>Reverse lookups\<close>

lemma add_loop_values:
  assumes "netlib_ok L m key covers" "host \<noteq> ''''" "CHR '','' \<notin> set host"
  shows "it_wf m t \<Longrightarrow> it_wf m (add_loop L ips host t) \<and>
    (\<forall>q. set (values_of m t q) \<subseteq> set (values_of m (add_loop L ips host t) q)) \<and>
    (\<forall>ip \<in> set ips. \<forall>q. is_valid ip \<longrightarrow> route_of key (addr_string ip) = Some q \<longrightarrow> host \<in> set (values_of m (add_loop L ips host t) q))"
proof (induction ips arbitrary: t)
  case (Cons ip ips)
  let ?t = "if is_valid ip then snd (it_add L (addr_string ip) host t) else t"
  have wf: "it_wf m ?t" using step_wf [OF assms(1) Cons.prems, of "OpAdd (addr_string ip) host"] Cons.prems assms(2,3) by simp
  have v: "values_of m ?t = (if is_valid ip then mm_step key covers (OpAdd (addr_string ip) host) (values_of m t) else values_of m t)"
    using step_values [OF assms(1) Cons.prems, of "OpAdd (addr_string ip) host"] assms(2,3) by simp
  have sub: "set (values_of m t q) \<subseteq> set (values_of m ?t q)" for q
    unfolding v by (auto simp: at_route_def ins_def split: option.splits)
  have here: "is_valid ip \<Longrightarrow> route_of key (addr_string ip) = Some q \<Longrightarrow> host \<in> set (values_of m ?t q)" for q
    unfolding v by (simp add: at_route_def ins_def)
  note ih = Cons.IH [OF wf]
  have "\<forall>q. set (values_of m t q) \<subseteq> set (values_of m (add_loop L ips host ?t) q)" using sub ih by blast
  moreover have "\<forall>q. is_valid ip \<longrightarrow> route_of key (addr_string ip) = Some q \<longrightarrow> host \<in> set (values_of m (add_loop L ips host ?t) q)"
    using here ih by blast
  ultimately show ?case using ih unfolding add_loop.simps list.set ball_simps by blast
qed simp

lemma cut_at_chars: "cut_at c s = Some (a, b) \<Longrightarrow> set a \<subseteq> set s \<and> set b \<subseteq> set s"
  by (auto simp: cut_at_def split: if_splits dest: set_takeWhileD in_set_dropD set_dropWhileD)

lemma cut_last_chars: "cut_last c s = Some (a, b) \<Longrightarrow> set a \<subseteq> set s"
  using cut_at_chars [of c "rev s"] by (auto simp: cut_last_def)

lemma strip_port_chars: "set (strip_port h) \<subseteq> set h"
proof -
  have "set x \<subseteq> set h" if x: "split_host_port h = Some x" for x
  proof -
    obtain u v where u: "cut_last CHR '':'' h = Some (u, v)" using x by (auto simp: split_host_port_def split: option.splits)
    show ?thesis
    proof (cases "hd h = CHR ''[''")
      case True
      then obtain a b where "cut_at CHR '']'' h = Some (a, b)" "x = drop 1 a"
        using x u by (auto simp: split_host_port_def split: option.splits if_splits)
      then show ?thesis using cut_at_chars [of "CHR '']''" h a b] by (auto dest: in_set_dropD)
    next
      case False
      then have "x = u" using x u by (auto simp: split_host_port_def split: if_splits)
      then show ?thesis using cut_last_chars [OF u] by blast
    qed
  qed
  then show ?thesis by (auto simp: strip_port_def split: option.splits)
qed

lemma loops_wf:
  assumes "netlib_ok L m key covers" "CHR '','' \<notin> set host"
  shows "it_wf m t \<Longrightarrow> it_wf m (add_loop L ips host t)" "it_wf m t \<Longrightarrow> it_wf m (esc_loop L ips host t)"
proof -
  have e: "snd (it_add L c [] t) = t" "snd (it_esc L c [] t) = t" for c t
    by (auto simp: it_add_def it_add_to_def it_esc_def split: sum.splits)
  have a: "it_wf m t \<Longrightarrow> it_wf m (snd (it_add L c host t))" "it_wf m t \<Longrightarrow> it_wf m (snd (it_esc L c host t))" for c t
    using step_wf [OF assms(1), of t "OpAdd c host"] step_wf [OF assms(1), of t "OpEsc c host"] assms(2) e by (cases "host = []"; simp)+
  show "it_wf m t \<Longrightarrow> it_wf m (add_loop L ips host t)" using a by (induction ips arbitrary: t) auto
  show "it_wf m t \<Longrightarrow> it_wf m (esc_loop L ips host t)" using a by (induction ips arbitrary: t) auto
qed

definition trees_wf :: "('n \<Rightarrow> ipnet \<Rightarrow> string option) \<Rightarrow> 'n ipmap \<Rightarrow> bool" where
  "trees_wf nm m \<longleftrightarrow> it_wf nm (im_rptr m) \<and> it_wf nm (im_pptr m)"

lemma trees_wf_frame [simp]: "trees_wf nm (put_set a s m) = trees_wf nm m" "trees_wf nm (m\<lparr> im_sets := x \<rparr>) = trees_wf nm m"
  "trees_wf nm (m\<lparr> im_m := g \<rparr>) = trees_wf nm m" "trees_wf nm (m\<lparr> im_p := g \<rparr>) = trees_wf nm m" "trees_wf nm (m\<lparr> im_ip := g \<rparr>) = trees_wf nm m"
  by (simp_all add: trees_wf_def put_set_def)

lemma revmap_wf:
  assumes "netlib_ok L nm key covers" "CHR '','' \<notin> set h" "trees_wf nm m"
  shows "trees_wf nm (revmap L env h new old m)"
proof -
  have c: "CHR '','' \<notin> set (strip_port h)" using assms(2) strip_port_chars by blast
  show ?thesis using assms(3) loops_wf [OF assms(1) c] by (simp add: revmap_def Let_def trees_wf_def split: option.splits)
qed

lemma makeIPSet_wf:
  assumes "netlib_ok L nm key covers" "CHR '','' \<notin> set h" "trees_wf nm m"
  shows "trees_wf nm (snd (makeIPSet L env h ipps t m))"
  using assms(3) revmap_wf [OF assms(1,2)] by (simp add: makeIPSet_def Let_def case_prod_beta split: IPSetType.splits)

lemma im_get_wf:
  assumes "netlib_ok L nm key covers" "CHR '','' \<notin> set h" "trees_wf nm m"
  shows "trees_wf nm (snd (im_get L env h t m))"
proof -
  have c: "CHR '','' \<notin> set (strip_port h)" using assms(2) strip_port_chars by blast
  show ?thesis using assms(3) makeIPSet_wf [OF assms(1) c] by (simp add: im_get_def Let_def split: option.splits)
qed

fun plain_host :: "im_env \<times> im_op \<Rightarrow> bool" where
  \<comment> \<open>no comma in a host\<close>
  "plain_host (_, OGetAny h) = (CHR '','' \<notin> set h)"
| "plain_host (_, OGet h) = (CHR '','' \<notin> set h)"
| "plain_host (_, OAdd h) = (CHR '','' \<notin> set h)"
| "plain_host (_, OAddMany h ips) = (CHR '','' \<notin> set h)"
| "plain_host (_, OMake h ipps t) = (CHR '','' \<notin> set h)"
| "plain_host _ = True"

lemma clear_rptr_wf: "netlib_ok L nm key covers \<Longrightarrow> trees_wf nm m \<Longrightarrow> trees_wf nm (clear_rptr L m)"
  using netlib_okD(2) by (fastforce simp: trees_wf_def clear_rptr_def it_Clear_def it_wf_def values_of_def stored_def)

lemma im_step_wf:
  assumes "netlib_ok L nm key covers" "trees_wf nm m" "plain_host e"
  shows "trees_wf nm (im_step L e m)"
proof -
  obtain env op where e: "e = (env, op)" by force
  note g = im_get_wf [OF assms(1) _ assms(2)] and r = revmap_wf [OF assms(1)]
  show ?thesis
  proof (cases op)
    case (OMake h ipps t)
    then have "CHR '','' \<notin> set (strip_port h)" using assms(3) e strip_port_chars [of h] by auto
    then show ?thesis using OMake e makeIPSet_wf [OF assms(1) _ assms(2)] by (simp add: MakeIPSet_def Let_def)
  next
    case OClear
    then show ?thesis using assms(2) e by (simp add: im_Clear_def)
  next
    case OClearRptr
    then show ?thesis using clear_rptr_wf [OF assms(1,2)] e by simp
  qed (use assms(2,3) e g r in \<open>auto simp: GetAny_def im_Get_def im_Add_def AddMany_def Let_def case_prod_beta\<close>)
qed

lemma im_run_wf:
  assumes "netlib_ok L nm key covers" "list_all plain_host ops"
  shows "trees_wf nm (im_run L ops)"
proof -
  have "trees_wf nm m \<Longrightarrow> trees_wf nm (fold (im_step L) ops m)" for m
    using assms(2) im_step_wf [OF assms(1)] by (induction ops arbitrary: m) auto
  moreover have "trees_wf nm (NewIPMapFor L)"
    using new_values [OF assms(1)] by (simp add: trees_wf_def NewIPMapFor_def it_wf_def)
  ultimately show ?thesis by (simp add: im_run_def)
qed

lemma revmap_nothing: "s_ips (set_at m a) = [] \<Longrightarrow> s_typ (set_at m a) = Regular \<Longrightarrow> im_rptr (revmap L env h (Some a) None m) = im_rptr m"
  by (simp add: revmap_def Addrs_def Let_def split: option.splits)

lemma im_get_regular:
  assumes "im_ok m" "k = strip_port host" "parse_ip k = None" "\<not> NeverResolve k" "map_of (im_p m) k = None" "im_get L env host AutoType m = (a, m1)"
  shows "s_typ (set_at m1 a) = Regular" "im_rptr m1 = im_rptr m"
proof -
  have i: "map_of (im_ip m) k = None"
    using assms(1,3) by (cases "map_of (im_ip m) k") (auto simp: im_ok_def list_all_iff entry_ok_def dest!: map_of_SomeD)
  show "s_typ (set_at m1 a) = Regular" "im_rptr m1 = im_rptr m"
  proof (atomize (full), cases "map_of (im_m m) k")
    case (Some b)
    then have "(a, m1) = (b, m)" using assms i by (simp add: im_get_def Let_def)
    then show "s_typ (set_at m1 a) = Regular \<and> im_rptr m1 = im_rptr m"
      using assms(1) Some by (auto simp: im_ok_def list_all_iff entry_ok_def set_at_def dest!: map_of_SomeD)
  next
    case None
    have b: "CopyUniq [[] :: string list] = []" by (simp add: CopyUniq_def)
    have t: "set_type k [] Regular = (Regular, AddrZero)" using assms(3,4) by (simp add: set_type_def)
    have g: "makeIPSet L env k [] Regular m = (a, m1)" using assms i None by (simp add: im_get_def Let_def)
    have f: "bootstrap (fresh_set Regular AddrZero []) = (0, fresh_set Regular AddrZero [])" by (simp add: bootstrap_def fresh_set_def)
    define m' where "m' = m\<lparr> im_sets := im_sets m @ [fresh_set Regular AddrZero []], im_m := gm_put k (length (im_sets m)) (im_m m) \<rparr>"
    have m1: "a = length (im_sets m)" "m1 = revmap L env k (Some a) None m'"
      using g None by (auto simp: makeIPSet_def t b f Let_def m'_def)
    have "set_at m' a = fresh_set Regular AddrZero []" by (simp add: m1(1) m'_def set_at_def)
    then show "s_typ (set_at m1 a) = Regular \<and> im_rptr m1 = im_rptr m"
      using revmap_nothing [of m' a L env k] m1(2) by (simp add: set_at_def fresh_set_def m'_def)
  qed
qed


text \<open>
  C13: After any operations on a fresh map with hosts without commas, adding addresses under a host that is neither an address
  nor protected makes every usable one of them look up to that host in reverse.
\<close>
theorem AddMany_ReverseGet:
  assumes "netlib_ok L nm key covers" "list_all plain_host ops" "\<And>xs. set (ie_shuffle env xs) = set xs"
    "k = strip_port host" "k \<noteq> []" "CHR '','' \<notin> set host" "parse_ip k = None" "\<not> NeverResolve k"
    "map_of (im_p (im_run L ops)) k = None"
    "ip \<in> set ips" "ip_good (unmap ip)" "route_of key (addr_string (unmap ip)) = Some q"
  shows "k \<in> set (ReverseGet L (unmap ip) (snd (AddMany L env host ips (im_run L ops))))"
proof -
  let ?m = "im_run L ops"
  obtain a m1 where g: "im_get L env host AutoType ?m = (a, m1)" by force
  note r = im_get_regular [OF im_run_ok assms(4,7,8,9) g]
  have al: "a < length (im_sets m1)" using im_get_ok(2) [OF im_run_ok [of L ops], of L env host AutoType] g by simp
  have wf: "it_wf nm (im_rptr m1)" using r(2) im_run_wf [OF assms(1,2)] by (simp add: trees_wf_def)
  have ne: "ips \<noteq> []" using assms(10) by auto
  define s where "s = addLocked ips (set_at m1 a)"
  have "s_typ (set_at m1 a) \<noteq> IPAddr" using r(1) by simp
  from addLocked_props [OF ne this] obtain new where
    new: "s = (set_at m1 a)\<lparr> s_ips := s_ips (set_at m1 a) @ new, s_any4 := list_ex is4 new \<or> s_any4 (set_at m1 a), s_any6 := list_ex is6 new \<or> s_any6 (set_at m1 a) \<rparr>"
    "set new = set (filter ip_good (map unmap ips)) - set (s_ips (set_at m1 a))"
    unfolding s_def by metis
  have ips: "unmap ip \<in> set (s_ips s)" "s_typ s = Regular" using new assms(10,11) r(1) by auto
  define m2 where "m2 = put_set a s m1"
  have m2: "set_at m2 a = s" "im_rptr m2 = im_rptr m1" using al by (simp_all add: m2_def put_set_def set_at_def)
  have add: "unmap ip \<in> set (Addrs env (Some s))" using ips assms(3) by (auto simp: Addrs_def)
  define m3 where "m3 = snd (AddMany L env host ips ?m)"
  have "m3 = revmap L env host (Some a) None m2"
    using g r(1) ne by (simp add: m3_def AddMany_def s_addAll_def s_def m2_def Let_def)
  then have rp: "im_rptr m3 = add_loop L (Addrs env (Some s)) k (im_rptr m1)"
    using m2 assms(4,7) ips(2) by (simp add: revmap_def Let_def Addrs_def)
  have c: "CHR '','' \<notin> set k" using assms(4,6) strip_port_chars [of host] by auto
  have "is_valid (unmap ip)" using assms(11) by (simp add: ip_good_def del: is_valid_def)
  then have v: "k \<in> set (values_of nm (im_rptr m3) q)" "it_wf nm (im_rptr m3)"
    unfolding rp using add_loop_values [OF assms(1,5) c wf, of "Addrs env (Some s)"] add assms(12) by blast+
  have "it_get L (addr_string (unmap ip)) (im_rptr m3) = Inr (join_with CHR '','' (values_of nm (im_rptr m3) q))"
    using get_values [OF assms(1) v(2) assms(12)] .
  then have "k \<in> set (ReverseGet L (unmap ip) m3)"
    using v by (cases rule: stored_cases [OF v(2), where q = q]) (auto simp: ReverseGet_def Let_def)
  then show ?thesis by (simp add: m3_def)
qed


definition calm_env :: im_env where
  \<comment> \<open>nothing resolves, no looping back, the order is kept\<close>
  "calm_env = \<lparr> ie_lookup = (\<lambda>h b. Inl ()), ie_loop = False, ie_shuffle = (\<lambda>xs. xs) \<rparr>"


theorem Disconfirm_limit_witness:
  "s_ips ((fail_once (Addr4 1) ^^ 8) \<lparr> s_ips = [Addr4 1, Addr4 2], s_typ = Regular, s_seed = [], s_confirmed = AddrZero, s_fails = 0, s_any4 = True, s_any6 = False \<rparr>) = [Addr4 1, Addr4 2] \<and>
   s_ips ((fail_once (Addr4 1) ^^ Suc 8) \<lparr> s_ips = [Addr4 1, Addr4 2], s_typ = Regular, s_seed = [], s_confirmed = AddrZero, s_fails = 0, s_any4 = True, s_any6 = False \<rparr>) = []"
  using Disconfirm_limit [of "\<lparr> s_ips = [Addr4 1, Addr4 2], s_typ = Regular, s_seed = [], s_confirmed = AddrZero, s_fails = 0, s_any4 = True, s_any6 = False \<rparr>" "Addr4 1"]
  by (simp del: funpow.simps)

lemma sample_host: "strip_port ''a.b'' = ''a.b''" "parse_ip ''a.b'' = None" "\<not> NeverResolve ''a.b''"
  by code_simp+

lemma sample_addr: "unmap (Addr4 1) = Addr4 1" "addr_string (Addr4 1) = ''0.0.0.1''" "ip_good (Addr4 1)"
  by code_simp+

theorem AddMany_ReverseGet_witness:
  "netlib_ok mini_nets map_of Some (=) \<and>
   ''a.b'' \<in> set (ReverseGet mini_nets (Addr4 1) (snd (AddMany mini_nets calm_env ''a.b'' [Addr4 2, Addr4 1] (im_run mini_nets [(calm_env, OGet ''c.d'')]))))"
proof -
  have p: "map_of (im_p (im_run mini_nets [(calm_env, OGet ''c.d'')])) ''a.b'' = None" by code_simp
  have "set (ie_shuffle calm_env xs) = set xs" for xs by (simp add: calm_env_def)
  then show ?thesis
    using mini_nets_ok AddMany_ReverseGet [OF mini_nets_ok, of "[(calm_env, OGet ''c.d'')]" calm_env "''a.b''" "''a.b''" "Addr4 1" "[Addr4 2, Addr4 1]"] p
    by (simp add: sample_host sample_addr route_one)
qed

end
