(* ===== verification/Spec2Isabelle.thy ===== *)
theory Spec2Isabelle
  imports Parsed Ring Connmap Barrier Nat64 Stamp Ipmap
begin

text \<open>
  \<^bold>\<open>A verification of firestack.\<close> Firestack is the network engine of an Android firewall, DNS client
  and proxy: it reads packets from a tunnel, answers or forwards them, resolves names, and keeps
  track of the connections it relays. This development models the parts of it below, in the order
  the theories import one another, and proves what makes them correct.

  \<^bold>\<open>Conventions.\<close> A Go function is a HOL function; a function that may panic returns an option with
  \<open>None\<close> for the panic, an \<^verbatim>\<open>error\<close> result is an ordinary value. Objects are records passed and
  returned, objects that are shared through pointers live in a list used as a store. A Go map is an
  association list with distinct keys (\<^theory_text>\<open>Gomap\<close>). Machine integers are words, durations and instants are
  integers (nanoseconds), the clock is an argument. A mutex makes the operation it guards atomic;
  where the source releases a lock in the middle the operation is split, and where goroutines meet a
  step relation interleaves them. Code that is not in the repository (the DNS library, the TUN
  library) is an argument of the definitions that use it.

  \<^bold>\<open>Packets\<close> (\<^verbatim>\<open>intra/netstack\<close> and the \<^verbatim>\<open>wire\<close> package).
  \<^item> \<^theory_text>\<open>Prelude\<close>, \<^theory_text>\<open>Addr\<close>: words, slices with their panics, byte codecs; \<^verbatim>\<open>net/netip\<close>, \<^verbatim>\<open>net.IP\<close>, \<^verbatim>\<open>net.IPNet\<close>.
  \<^item> \<^theory_text>\<open>Xsum\<close>: Internet checksums and their incremental update, against one's complement sums.
  \<^item> \<^theory_text>\<open>Headers\<close>: the headers and \<^verbatim>\<open>Marshal\<close>, \<^verbatim>\<open>Generate\<close>. What is generated verifies.
  \<^item> \<^theory_text>\<open>Parsed\<close>: \<^verbatim>\<open>Decode\<close> and the address rewriting. Decoding is total and does not depend on what a pooled
    buffer held, decoding a generated packet gives it back, rewriting an address keeps the
    checksums valid; the echo responder replies to exactly the echo requests.

  \<^bold>\<open>Core data structures\<close> (\<^verbatim>\<open>intra/core\<close>, \<^verbatim>\<open>intra/log\<close>).
  \<^item> \<^theory_text>\<open>Ring\<close>: the log ring. It refines a bounded queue (locale \<open>bounded_queue\<close>, interpretation \<open>rq\<close>); its
    walks, written with \<^theory_text>\<open>partial_function\<close>, are shown to return.
  \<^item> \<^theory_text>\<open>Gomap\<close>, \<^theory_text>\<open>Slices\<close>: Go maps; the slice helpers of \<^verbatim>\<open>core/slices.go\<close>.
  \<^item> \<^theory_text>\<open>Expmap\<close>: the expiring map, the sieves on top of it and the hangover. The locale \<open>expiring_map\<close> is what
    both kinds of map promise, interpreted for \<^verbatim>\<open>ExpMap\<close> (\<open>xm\<close>) and for \<^verbatim>\<open>Sieve2K\<close> (\<open>x2\<close>).
  \<^item> \<^theory_text>\<open>Connmap\<close>: the connection tracker with its two indexes. The recursion of \<^verbatim>\<open>delLocked\<close> and
    \<^verbatim>\<open>untrackBatchLocked\<close> runs on fuel; two levels are enough in every state reached with one user and process
    per connection, and no fuel is enough in another state.
  \<^item> \<^theory_text>\<open>Barrier\<close>: duplicate suppression, as steps of callers, owners, scrubbing goroutines and the clock.

  \<^bold>\<open>DNS\<close> (\<^verbatim>\<open>intra/xdns\<close>, \<^verbatim>\<open>intra/x64\<close>).
  \<^item> \<^theory_text>\<open>Xdns\<close>: DNS messages and the helpers on them: questions, blocked and synthesized answers, times to
    live, padding, framing, mDNS names. The DNS library is the argument \<open>dnslib\<close>, with \<open>dnslib_ok\<close> for its
    documented behaviour.
  \<^item> \<^theory_text>\<open>Nat64\<close>: prefixes learned per resolver, answers synthesized with them, addresses translated
    both ways. It composes with \<^theory_text>\<open>Xdns\<close>: what is synthesized is translated back.

  \<^bold>\<open>Not modelled.\<close> Transports, proxies and tunnels (\<^verbatim>\<open>intra/ipn\<close>, \<^verbatim>\<open>intra/doh\<close>, \<^verbatim>\<open>intra/dns53\<close>, \<^verbatim>\<open>intra/dnscrypt\<close>,
  \<^verbatim>\<open>intra/dialers\<close>, \<^verbatim>\<open>tunnel\<close>) are mostly calls into libraries and the network; the logger's formatting, the
  registrations for metrics and the textual forms of addresses are output only.
\<close>

end
